(* ===== verification/Prelude.thy ===== *)
theory Prelude
  imports Main "HOL-Library.Word" "HOL-Library.Monad_Syntax"
begin

text \<open>
  Shared vocabulary of the development.  The machine-integer types of src/types.hpp, its
  enumerations and compile-time constants, and the generic facts about words, lists and
  functions that the component theories use.

  \<^item> \<open>Id_t\<close>, \<open>Volume_t\<close> are 32-bit words and \<open>Time_t\<close> a 64-bit word: they wrap.
  \<^item> \<open>Price_t\<close> is a signed 64-bit integer.  Signed overflow is undefined in C++, so a price
    is an \<open>int\<close>; the wire codec fixes its range to 64 bits.
  \<^item> \<open>size_t\<close> quantities (array indices) are \<open>nat\<close>.
\<close>

section \<open>Machine types, constants and enumerations (types.hpp)\<close>

type_synonym Id_t = "32 word"
type_synonym Price_t = int
type_synonym Volume_t = "32 word"
type_synonym Time_t = "64 word"
type_synonym Message_t = "8 word"

definition MAX_ORDERS :: nat where
  "MAX_ORDERS = 100000"

definition MINIMUM_BID :: Price_t where
  "MINIMUM_BID = 1"

definition MAXIMUM_ASK :: Price_t where
  "MAXIMUM_ASK = 10000"

definition NUM_BOOK_LEVELS :: nat where
  "NUM_BOOK_LEVELS = nat (MAXIMUM_ASK - MINIMUM_BID + 1)"

definition ORDER_BOOK_MESSAGE_DEPTH :: nat where
  "ORDER_BOOK_MESSAGE_DEPTH = 10"

definition ERROR_TEXT_LEN :: nat where
  "ERROR_TEXT_LEN = 32"

datatype Lifespan = FILL_AND_KILL | GOOD_FOR_DAY

datatype Side = SELL | BUY

datatype ErrorType =
    ORDER_BOOK_FULL
  | INVALID_VOLUME
  | ORDER_NOT_FOUND
  | UNAUTHORISED
  | INVALID_PRICE

text \<open>The enumerators' values, as \<open>static_cast<uint16_t>\<close> reads them.\<close>

fun error_code :: "ErrorType \<Rightarrow> 16 word" where
  "error_code ORDER_BOOK_FULL = 1"
| "error_code INVALID_VOLUME = 2"
| "error_code ORDER_NOT_FOUND = 3"
| "error_code UNAUTHORISED = 4"
| "error_code INVALID_PRICE = 5"

lemma MAX_ORDERS_pos [simp]: "0 < MAX_ORDERS"
  by (simp add: MAX_ORDERS_def)

lemma NUM_BOOK_LEVELS_eq: "NUM_BOOK_LEVELS = 10000"
  by (simp add: NUM_BOOK_LEVELS_def MAXIMUM_ASK_def MINIMUM_BID_def)

section \<open>Facts about words\<close>

lemma unat_min: "unat (min a b) = min (unat a) (unat (b :: 'a::len word))"
  by (simp add: min_def word_le_nat_alt)

lemma word_gt_0_unat: "0 < (w :: 'a::len word) \<longleftrightarrow> 0 < unat w"
  by (simp add: word_less_nat_alt)

lemma unat_diff_le: "b \<le> a \<Longrightarrow> unat (a - b) = unat a - unat (b :: 'a::len word)"
  by (rule unat_sub)

lemma unat_less_2p: "unat (w :: 'a::len word) < 2 ^ LENGTH('a)"
  by (rule unsigned_less)

lemma unat_add_bounded:
  "unat a + unat b < 2 ^ LENGTH('a) \<Longrightarrow> unat (a + b) = unat a + unat (b :: 'a::len word)"
  by (simp add: unat_word_ariths)

section \<open>Facts about lists and functions\<close>

lemma sum_list_map_cong:
  "(\<And>x. x \<in> set xs \<Longrightarrow> f x = g x) \<Longrightarrow> sum_list (map f xs) = sum_list (map g xs)"
  by (simp cong: map_cong)

end
