(* ===== verification/Order_Pool.thy ===== *)
theory Order_Pool
  imports Prelude
begin

text \<open>
  The order arena of src/order.hpp.  An \<open>Order*\<close> is an index into the pool of one book side,
  \<open>nullptr\<close> is \<open>None\<close>, and the pool is a store from indices to orders, so that the intrusive
  links \<open>next_\<close> and \<open>previous_\<close>, the free list threaded through \<open>next_\<close>, and every aliasing
  between them are those of the code.  Two abstraction relations read the store:
  \<open>seg\<close> for a doubly linked segment, \<open>chain\<close> for the free list.
\<close>

section \<open>Orders and the pool\<close>

record Order =
  o_next :: "nat option"
  o_previous :: "nat option"
  o_client_id :: Id_t
  o_order_id :: Id_t
  o_order_handle :: Id_t
  o_price :: Price_t
  o_quantity :: Volume_t
  o_quantity_remaining :: Volume_t
  o_quantity_cumulative :: Volume_t
  o_is_bid :: bool

type_synonym store = "nat \<Rightarrow> Order"

record OrderPool =
  pool :: store
  next_free :: "nat option"

text \<open>
  The constructor writes \<open>next_\<close> and \<open>order_handle_\<close> of every slot.  The other members start
  uninitialised: their contents are the argument \<open>mem\<close>.
\<close>

definition OrderPool_init :: "store \<Rightarrow> OrderPool" where
  "OrderPool_init mem =
     \<lparr>pool = (\<lambda>i. if i < MAX_ORDERS - 1
                  then (mem i)\<lparr>o_next := Some (i + 1), o_order_handle := of_nat i\<rparr>
                  else if i = MAX_ORDERS - 1
                  then (mem i)\<lparr>o_next := None, o_order_handle := of_nat (MAX_ORDERS - 1)\<rparr>
                  else mem i),
      next_free = Some 0\<rparr>"

definition upd :: "store \<Rightarrow> nat \<Rightarrow> (Order \<Rightarrow> Order) \<Rightarrow> store" where
  "upd p x f = p(x := f (p x))"

definition allocate :: "OrderPool \<Rightarrow> nat option \<times> OrderPool" where
  "allocate P =
     (case next_free P of
        None \<Rightarrow> (None, P)
      | Some order \<Rightarrow>
          (Some order,
           P\<lparr>next_free := o_next (pool P order),
             pool := upd (pool P) order (\<lambda>r. r\<lparr>o_next := None\<rparr>)\<rparr>))"

definition deallocate :: "OrderPool \<Rightarrow> nat \<Rightarrow> OrderPool" where
  "deallocate P order =
     P\<lparr>pool := upd (pool P) order (\<lambda>r. r\<lparr>o_next := next_free P\<rparr>),
       next_free := Some order\<rparr>"

definition from_handle :: "OrderPool \<Rightarrow> Id_t \<Rightarrow> nat" where
  "from_handle P order_handle = unat order_handle"

lemma upd_same [simp]: "upd p x f x = f (p x)"
  by (simp add: upd_def)

lemma upd_other [simp]: "y \<noteq> x \<Longrightarrow> upd p x f y = p y"
  by (simp add: upd_def)

lemma upd_apply: "upd p x f y = (if y = x then f (p y) else p y)"
  by simp

section \<open>Linked segments in the store\<close>

text \<open>
  \<open>seg p pr f xs l n\<close>: from the pointer \<open>f\<close> the \<open>next_\<close> links visit exactly \<open>xs\<close> and leave at
  \<open>n\<close>; the \<open>previous_\<close> links lead back to \<open>pr\<close>; \<open>l\<close> is the last node visited (\<open>pr\<close> if none).
\<close>

primrec seg :: "store \<Rightarrow> nat option \<Rightarrow> nat option \<Rightarrow> nat list \<Rightarrow> nat option \<Rightarrow> nat option \<Rightarrow> bool" where
  "seg p pr f [] l n \<longleftrightarrow> f = n \<and> l = pr"
| "seg p pr f (x # xs) l n \<longleftrightarrow>
     f = Some x \<and> o_previous (p x) = pr \<and> seg p (Some x) (o_next (p x)) xs l n"

lemma seg_append:
  "seg p pr f (xs @ ys) l n \<longleftrightarrow> (\<exists>k m. seg p pr f xs k m \<and> seg p k m ys l n)"
  by (induction xs arbitrary: pr f) auto

lemma seg_cong:
  "(\<And>x. x \<in> set xs \<Longrightarrow> o_next (q x) = o_next (p x) \<and> o_previous (q x) = o_previous (p x)) \<Longrightarrow>
   seg q pr f xs l n = seg p pr f xs l n"
  by (induction xs arbitrary: pr f) auto

lemma seg_upd_other: "x \<notin> set xs \<Longrightarrow> seg (upd p x g) pr f xs l n = seg p pr f xs l n"
  by (rule seg_cong) (auto simp: upd_apply)

lemma seg_first: "seg p pr f xs l n \<Longrightarrow> f = (case xs of [] \<Rightarrow> n | x # _ \<Rightarrow> Some x)"
  by (cases xs) auto

lemma seg_last: "seg p pr f xs l n \<Longrightarrow> l = (if xs = [] then pr else Some (last xs))"
  by (induction xs arbitrary: pr f) auto

lemma seg_None_first: "seg p None f xs l None \<Longrightarrow> f = None \<longleftrightarrow> xs = []"
  by (auto dest: seg_first split: list.splits)

lemma seg_None_last: "seg p None f xs l None \<Longrightarrow> l = None \<longleftrightarrow> xs = []"
  by (auto dest: seg_last split: if_splits)

lemma seg_unique: "seg p pr f xs l None \<Longrightarrow> seg p pr f ys l' None \<Longrightarrow> xs = ys"
proof (induction xs arbitrary: pr f ys)
  case Nil
  then show ?case by (cases ys) auto
next
  case (Cons x xs)
  then show ?case by (cases ys) auto
qed

text \<open>Redirecting the exit of a segment, and the back link of its first node.\<close>

lemma seg_retarget_next:
  assumes "seg p pr f xs (Some k) n" and "xs \<noteq> []" and "distinct xs"
  shows "seg (upd p k (\<lambda>r. r\<lparr>o_next := m\<rparr>)) pr f xs (Some k) m"
proof -
  have k: "k = last xs" using assms(1,2) by (auto dest: seg_last)
  obtain ys where xs: "xs = ys @ [k]" using k assms(2) by (metis append_butlast_last_id)
  have "k \<notin> set ys" using assms(3) xs by simp
  with assms(1) show ?thesis
    by (auto simp: xs seg_append seg_upd_other)
qed

lemma seg_retarget_prev:
  assumes "seg p pr (Some x) (x # xs) l n" and "x \<notin> set xs"
  shows "seg (upd p x (\<lambda>r. r\<lparr>o_previous := pr'\<rparr>)) pr' (Some x) (x # xs) l n"
  using assms by (auto simp: seg_upd_other)

section \<open>The free list\<close>

primrec chain :: "store \<Rightarrow> nat option \<Rightarrow> nat list \<Rightarrow> bool" where
  "chain p f [] \<longleftrightarrow> f = None"
| "chain p f (x # xs) \<longleftrightarrow> f = Some x \<and> chain p (o_next (p x)) xs"

lemma chain_cong:
  "(\<And>x. x \<in> set xs \<Longrightarrow> o_next (q x) = o_next (p x)) \<Longrightarrow> chain q f xs = chain p f xs"
  by (induction xs arbitrary: f) auto

lemma chain_upd_other: "x \<notin> set xs \<Longrightarrow> chain (upd p x g) f xs = chain p f xs"
  by (rule chain_cong) (auto simp: upd_apply)

lemma chain_first: "chain p f xs \<Longrightarrow> f = (case xs of [] \<Rightarrow> None | x # _ \<Rightarrow> Some x)"
  by (cases xs) auto

lemma chain_Some: "chain p (Some x) xs \<Longrightarrow> \<exists>ys. xs = x # ys \<and> chain p (o_next (p x)) ys"
  by (cases xs) auto

lemma chain_None: "chain p None xs \<longleftrightarrow> xs = []"
  by (cases xs) auto

text \<open>The constructor's chain visits every slot in index order.\<close>

lemma chain_init_from:
  "i + n = MAX_ORDERS \<Longrightarrow> 0 < n \<Longrightarrow> chain (pool (OrderPool_init mem)) (Some i) [i..<MAX_ORDERS]"
proof (induction n arbitrary: i)
  case 0
  then show ?case by simp
next
  case (Suc n)
  have up: "[i..<MAX_ORDERS] = i # [Suc i..<MAX_ORDERS]"
    using Suc.prems by (simp add: upt_conv_Cons)
  show ?case
  proof (cases n)
    case 0
    with Suc.prems show ?thesis
      by (auto simp: up OrderPool_init_def)
  next
    case (Suc m)
    then have "chain (pool (OrderPool_init mem)) (Some (Suc i)) [Suc i..<MAX_ORDERS]"
      using Suc.IH Suc.prems by simp
    moreover have "i < MAX_ORDERS - 1" using Suc Suc.prems by simp
    ultimately show ?thesis
      by (simp add: up OrderPool_init_def del: upt_Suc)
  qed
qed

lemma chain_init: "chain (pool (OrderPool_init mem)) (next_free (OrderPool_init mem)) [0..<MAX_ORDERS]"
  using chain_init_from [of 0 MAX_ORDERS mem] by (simp add: OrderPool_init_def)

section \<open>The allocator interface\<close>

text \<open>
  What the book relies on: the pool hands out the slots of a stack \<open>frees\<close> of free slots, fails
  exactly when the stack is empty, and takes a slot back on top of it.
\<close>

locale arena =
  fixes alloc :: "'p \<Rightarrow> nat option \<times> 'p"
    and dealloc :: "'p \<Rightarrow> nat \<Rightarrow> 'p"
    and frees :: "'p \<Rightarrow> nat list \<Rightarrow> bool"
  assumes alloc_empty: "frees P [] \<Longrightarrow> alloc P = (None, P)"
    and alloc_cons: "frees P (x # xs) \<Longrightarrow> fst (alloc P) = Some x \<and> frees (snd (alloc P)) xs"
    and dealloc_frees: "frees P xs \<Longrightarrow> x \<notin> set xs \<Longrightarrow> frees (dealloc P x) (x # xs)"
    and frees_distinct: "frees P xs \<Longrightarrow> distinct xs"
begin

lemma dealloc_alloc:
  assumes "frees P xs" and "x \<notin> set xs"
  shows "fst (alloc (dealloc P x)) = Some x \<and> frees (snd (alloc (dealloc P x))) xs"
  using alloc_cons [OF dealloc_frees [OF assms]] .

lemma alloc_fails_iff: "frees P xs \<Longrightarrow> fst (alloc P) = None \<longleftrightarrow> xs = []"
  using alloc_empty alloc_cons by (cases xs) fastforce+

end

text \<open>Allocating \<open>n\<close> times in a row: the slots handed out, and the pool left.\<close>

fun allocs :: "nat \<Rightarrow> OrderPool \<Rightarrow> nat list \<times> OrderPool" where
  "allocs 0 P = ([], P)"
| "allocs (Suc n) P =
     (case allocate P of
        (None, P') \<Rightarrow> ([], P')
      | (Some x, P') \<Rightarrow> (case allocs n P' of (xs, P'') \<Rightarrow> (x # xs, P'')))"

definition pool_frees :: "OrderPool \<Rightarrow> nat list \<Rightarrow> bool" where
  "pool_frees P xs \<longleftrightarrow> chain (pool P) (next_free P) xs \<and> distinct xs"

interpretation opool: arena allocate deallocate pool_frees
proof
  fix P :: OrderPool and x xs
  show "pool_frees P [] \<Longrightarrow> allocate P = (None, P)"
    by (simp add: pool_frees_def allocate_def)
  show "pool_frees P (x # xs) \<Longrightarrow> fst (allocate P) = Some x \<and> pool_frees (snd (allocate P)) xs"
    by (auto simp: pool_frees_def allocate_def chain_upd_other)
  show "pool_frees P xs \<Longrightarrow> x \<notin> set xs \<Longrightarrow> pool_frees (deallocate P x) (x # xs)"
    by (auto simp: pool_frees_def deallocate_def chain_upd_other)
  show "pool_frees P xs \<Longrightarrow> distinct xs"
    by (simp add: pool_frees_def)
qed

lemma allocs_frees:
  "pool_frees P xs \<Longrightarrow>
   fst (allocs n P) = take n xs \<and> pool_frees (snd (allocs n P)) (drop n xs)"
proof (induction n arbitrary: P xs)
  case 0
  then show ?case by simp
next
  case (Suc n)
  show ?case
  proof (cases xs)
    case Nil
    with Suc.prems have "allocate P = (None, P)" by (simp add: opool.alloc_empty)
    with Suc.prems Nil show ?thesis by simp
  next
    case (Cons x ys)
    with Suc.prems have "fst (allocate P) = Some x" and "pool_frees (snd (allocate P)) ys"
      using opool.alloc_cons by blast+
    with Suc.IH [of "snd (allocate P)" ys] Cons show ?thesis
      by (auto simp: split_beta split: prod.splits)
  qed
qed

text \<open>
  A freshly constructed pool hands out its \<open>MAX_ORDERS\<close> slots once each, in index order, and
  then refuses.
\<close>

lemma fresh_pool_allocates_every_slot_once:
  "fst (allocs MAX_ORDERS (OrderPool_init mem)) = [0..<MAX_ORDERS] \<and>
   fst (allocate (snd (allocs MAX_ORDERS (OrderPool_init mem)))) = None"
proof -
  have "pool_frees (OrderPool_init mem) [0..<MAX_ORDERS]"
    by (simp add: pool_frees_def chain_init)
  from allocs_frees [OF this, of MAX_ORDERS] show ?thesis
    using opool.alloc_fails_iff by fastforce
qed

end
