(* ===== verification/Order_Book_Side.thy ===== *)
theory Order_Book_Side
  imports Order_Pool
begin

text \<open>
  One side of the book: \<open>PriceLevel\<close> (src/pricelevel.hpp), \<open>OrderBookSide\<close> and its operations
  (src/order_book.hpp, src/order_book.cpp), and the callback interface of src/callbacks.hpp.

  A callback is an event: each operation returns the list of callbacks it makes, in order, with
  the arguments they are given (a reference argument is the value it has at the call).  The only
  implementation of the interface, \<open>Exchange\<close>, never calls back into the book, so running the
  handlers on the list afterwards is what the code does.  Each reading of \<open>utc_now_ns()\<close> is an
  argument \<open>now\<close>.  A pointer that may refer to either pool, \<open>OPtr\<close>, names the owning
  side (\<open>True\<close> for the bids) and the slot.
\<close>

section \<open>Data\<close>

record PriceLevel =
  l_first :: "nat option"
  l_last :: "nat option"
  l_total_quantity :: Volume_t
  l_price :: Price_t
  l_idx :: nat

datatype BookEvent =
    OnTrade (ev_maker: Order) (ev_taker_client_id: Id_t) (ev_taker_order_id: Id_t)
      (ev_price: Price_t) (ev_taker_total: Volume_t) (ev_taker_cumulative: Volume_t)
      (ev_traded: Volume_t) (ev_time: Time_t)
  | OnOrderInserted Id_t Order Time_t
  | OnOrderCancelled Id_t Order Time_t
  | OnOrderAmended Id_t Volume_t Order Time_t
  | OnLevelUpdate Side PriceLevel Time_t
  | OnError Id_t Id_t "16 word" string Time_t

record OrderBookSide =
  levels :: "nat \<Rightarrow> PriceLevel"
  s_pool :: OrderPool
  s_is_bid :: bool
  best_price_index :: nat

datatype optr = OPtr (in_bids: bool) (slot: nat)

definition OrderBookSide_init :: "store \<Rightarrow> bool \<Rightarrow> OrderBookSide" where
  "OrderBookSide_init mem is_bid =
     \<lparr>levels = (\<lambda>i. \<lparr>l_first = None, l_last = None, l_total_quantity = 0,
                     l_price = MINIMUM_BID + int i, l_idx = i\<rparr>),
      s_pool = OrderPool_init mem,
      s_is_bid = is_bid,
      best_price_index = NUM_BOOK_LEVELS\<rparr>"

text \<open>\<open>static_cast<size_t>\<close> of a signed 64-bit difference.\<close>

definition price_to_index :: "Price_t \<Rightarrow> nat" where
  "price_to_index price = nat ((price - MINIMUM_BID) mod 2 ^ 64)"

section \<open>Best price maintenance\<close>

definition update_best_bid_after_order :: "OrderBookSide \<Rightarrow> nat \<Rightarrow> OrderBookSide" where
  "update_best_bid_after_order s price_idx =
     (if best_price_index s = NUM_BOOK_LEVELS \<or> best_price_index s < price_idx
      then s\<lparr>best_price_index := price_idx\<rparr> else s)"

definition update_best_ask_after_order :: "OrderBookSide \<Rightarrow> nat \<Rightarrow> OrderBookSide" where
  "update_best_ask_after_order s price_idx =
     (if best_price_index s = NUM_BOOK_LEVELS \<or> price_idx < best_price_index s
      then s\<lparr>best_price_index := price_idx\<rparr> else s)"

text \<open>The scan \<open>for (i = n; i-- > 0; )\<close> for a level with volume.\<close>

primrec scan_down :: "(nat \<Rightarrow> PriceLevel) \<Rightarrow> nat \<Rightarrow> nat option" where
  "scan_down lv 0 = None"
| "scan_down lv (Suc i) = (if 0 < l_total_quantity (lv i) then Some i else scan_down lv i)"

text \<open>The scan \<open>for (i = n; i < NUM_BOOK_LEVELS; ++i)\<close>.\<close>

function scan_up :: "(nat \<Rightarrow> PriceLevel) \<Rightarrow> nat \<Rightarrow> nat option" where
  "scan_up lv i =
     (if i < NUM_BOOK_LEVELS
      then if 0 < l_total_quantity (lv i) then Some i else scan_up lv (i + 1)
      else None)"
  by pat_completeness auto
termination
  by (relation "measure (\<lambda>(lv, i). NUM_BOOK_LEVELS - i)") auto

declare scan_up.simps [simp del]

definition update_best_bid_after_empty :: "OrderBookSide \<Rightarrow> OrderBookSide" where
  "update_best_bid_after_empty s =
     (case scan_down (levels s) (best_price_index s) of
        Some i \<Rightarrow> s\<lparr>best_price_index := i\<rparr>
      | None \<Rightarrow> s\<lparr>best_price_index := NUM_BOOK_LEVELS\<rparr>)"

definition update_best_ask_after_empty :: "OrderBookSide \<Rightarrow> OrderBookSide" where
  "update_best_ask_after_empty s =
     (case scan_up (levels s) (best_price_index s + 1) of
        Some i \<Rightarrow> s\<lparr>best_price_index := i\<rparr>
      | None \<Rightarrow> s\<lparr>best_price_index := NUM_BOOK_LEVELS\<rparr>)"

section \<open>Adding a resting order\<close>

definition add_order ::
  "OrderBookSide \<Rightarrow> Price_t \<Rightarrow> Volume_t \<Rightarrow> Volume_t \<Rightarrow> Id_t \<Rightarrow> Id_t \<Rightarrow> Id_t \<Rightarrow> Time_t \<Rightarrow>
   nat option \<times> OrderBookSide \<times> BookEvent list" where
  "add_order s price quantity quantity_remaining order_id client_id client_request_id now =
     (let idx = price_to_index price in
      case allocate (s_pool s) of
        (None, P) \<Rightarrow>
          (None, s\<lparr>s_pool := P\<rparr>,
           [OnError client_id client_request_id (error_code ORDER_BOOK_FULL)
              ''Order book is full.'' now])
      | (Some order, P) \<Rightarrow>
          let level = levels s idx;
              p1 = upd (pool P) order (\<lambda>r. r\<lparr>
                     o_client_id := client_id,
                     o_order_id := order_id,
                     o_price := price,
                     o_quantity := quantity,
                     o_quantity_remaining := quantity_remaining,
                     o_quantity_cumulative := quantity - quantity_remaining,
                     o_next := None,
                     o_previous := l_last level,
                     o_is_bid := s_is_bid s\<rparr>);
              (p2, level1) =
                (case l_last level of
                   Some lst \<Rightarrow> (upd p1 lst (\<lambda>r. r\<lparr>o_next := Some order\<rparr>), level)
                 | None \<Rightarrow> (p1, level\<lparr>l_first := Some order\<rparr>));
              level2 = level1\<lparr>l_last := Some order,
                         l_total_quantity := l_total_quantity level1 + quantity_remaining\<rparr>;
              s1 = s\<lparr>s_pool := P\<lparr>pool := p2\<rparr>, levels := (levels s)(idx := level2)\<rparr>;
              s2 = (if s_is_bid s then update_best_bid_after_order s1 idx
                    else update_best_ask_after_order s1 idx)
          in (Some order, s2, [OnLevelUpdate (if s_is_bid s then BUY else SELL) level2 now]))"

section \<open>Unlinking an order\<close>

text \<open>The pointer surgery of \<open>remove_order\<close> on the store and the level it is given.\<close>

definition unlink :: "store \<Rightarrow> PriceLevel \<Rightarrow> nat \<Rightarrow> store \<times> PriceLevel" where
  "unlink p lv x =
     (let (p1, lv1) = (case o_previous (p x) of
                         Some pr \<Rightarrow> (upd p pr (\<lambda>r. r\<lparr>o_next := o_next (p x)\<rparr>), lv)
                       | None \<Rightarrow> (p, lv\<lparr>l_first := o_next (p x)\<rparr>))
      in case o_next (p1 x) of
           Some nx \<Rightarrow> (upd p1 nx (\<lambda>r. r\<lparr>o_previous := o_previous (p1 x)\<rparr>), lv1)
         | None \<Rightarrow> (p1, lv1\<lparr>l_last := o_previous (p1 x)\<rparr>))"

section \<open>Matching\<close>

text \<open>
  The state the matching loop works on: the maker side, the two lookup tables it is handed by
  reference, the quantity still to fill, and the callbacks made so far.
\<close>

record MatchState =
  m_side :: OrderBookSide
  m_by_handle :: "nat \<Rightarrow> optr option"
  m_id_to_handle :: "Id_t \<rightharpoonup> Id_t"
  m_incoming :: Volume_t
  m_events :: "BookEvent list"

definition encoded_handle :: "Order \<Rightarrow> Id_t" where
  "encoded_handle r = o_order_handle r * 2 + (if o_is_bid r then 0 else 1)"

text \<open>
  One turn of the inner loop: trade with the first order of level \<open>k\<close>, and unlink and free it
  when it is filled.  \<open>advance_best\<close> is the template argument of the same name.
\<close>

definition fill_front ::
  "(OrderBookSide \<Rightarrow> OrderBookSide) \<Rightarrow> Id_t \<Rightarrow> Id_t \<Rightarrow> Volume_t \<Rightarrow> Time_t \<Rightarrow> nat \<Rightarrow> nat \<Rightarrow>
   MatchState \<Rightarrow> MatchState" where
  "fill_front advance_best order_id client_id total_incoming_quantity now k maker ms =
     (let s = m_side ms;
          level = levels s k;
          trade_quantity = min (o_quantity_remaining (pool (s_pool s) maker)) (m_incoming ms);
          p1 = upd (pool (s_pool s)) maker (\<lambda>r. r\<lparr>
                 o_quantity_remaining := o_quantity_remaining r - trade_quantity,
                 o_quantity_cumulative := o_quantity_cumulative r + trade_quantity\<rparr>);
          incoming = m_incoming ms - trade_quantity;
          level1 = level\<lparr>l_total_quantity := l_total_quantity level - trade_quantity\<rparr>;
          evs = m_events ms @
                [OnTrade (p1 maker) client_id order_id (o_price (p1 maker))
                   total_incoming_quantity (total_incoming_quantity - incoming)
                   trade_quantity now]
      in if o_quantity_remaining (p1 maker) = 0
         then let nxt = o_next (p1 maker);
                  level2 = level1\<lparr>l_first := nxt\<rparr>;
                  (p2, s1) =
                    (case nxt of
                       Some n \<Rightarrow>
                         (upd p1 n (\<lambda>r. r\<lparr>o_previous := None\<rparr>),
                          s\<lparr>levels := (levels s)(k := level2)\<rparr>)
                     | None \<Rightarrow>
                         (p1,
                          advance_best (s\<lparr>levels := (levels s)(k := level2\<lparr>l_last := None\<rparr>)\<rparr>)));
                  encoded = encoded_handle (p2 maker)
              in ms\<lparr>m_side := s1\<lparr>s_pool := deallocate ((s_pool s)\<lparr>pool := p2\<rparr>) maker\<rparr>,
                    m_id_to_handle := (m_id_to_handle ms)(o_order_id (p2 maker) := None),
                    m_by_handle := (m_by_handle ms)(unat encoded := None),
                    m_incoming := incoming,
                    m_events := evs\<rparr>
         else ms\<lparr>m_side := s\<lparr>levels := (levels s)(k := level1),
                            s_pool := (s_pool s)\<lparr>pool := p1\<rparr>\<rparr>,
                 m_incoming := incoming,
                 m_events := evs\<rparr>)"

text \<open>The inner loop: \<open>while (incoming_quantity > 0 && level->first_)\<close>.\<close>

partial_function (option) match_level ::
  "(OrderBookSide \<Rightarrow> OrderBookSide) \<Rightarrow> Id_t \<Rightarrow> Id_t \<Rightarrow> Volume_t \<Rightarrow> Time_t \<Rightarrow> nat \<Rightarrow>
   MatchState \<Rightarrow> MatchState option" where
  "match_level advance_best order_id client_id tot now k ms =
     (if 0 < m_incoming ms
      then (case l_first (levels (m_side ms) k) of
              None \<Rightarrow> Some ms
            | Some maker \<Rightarrow>
                match_level advance_best order_id client_id tot now k
                  (fill_front advance_best order_id client_id tot now k maker ms))
      else Some ms)"

text \<open>
  The outer loop.  \<open>None\<close> is a loop that never ends; the event of the level update is the one
  the code sends after each level.
\<close>

partial_function (option) match_loop ::
  "Price_t \<Rightarrow> Id_t \<Rightarrow> Id_t \<Rightarrow> Side \<Rightarrow> (Price_t \<Rightarrow> Price_t \<Rightarrow> bool) \<Rightarrow>
   (OrderBookSide \<Rightarrow> OrderBookSide) \<Rightarrow> Volume_t \<Rightarrow> Time_t \<Rightarrow> MatchState \<Rightarrow> MatchState option" where
  "match_loop incoming_price order_id client_id maker_side crosses advance_best tot now ms =
     (if 0 < m_incoming ms
      then let best = best_price_index (m_side ms) in
           if best = NUM_BOOK_LEVELS then Some ms
           else if \<not> crosses (l_price (levels (m_side ms) best)) incoming_price then Some ms
           else do {
             ms1 \<leftarrow> match_level advance_best order_id client_id tot now best ms;
             match_loop incoming_price order_id client_id maker_side crosses advance_best tot now
               (ms1\<lparr>m_events := m_events ms1 @
                      [OnLevelUpdate maker_side (levels (m_side ms1) best) now]\<rparr>)
           }
      else Some ms)"

definition match_buy ::
  "Price_t \<Rightarrow> Id_t \<Rightarrow> Id_t \<Rightarrow> Time_t \<Rightarrow> MatchState \<Rightarrow> MatchState option" where
  "match_buy incoming_price order_id client_id now ms =
     match_loop incoming_price order_id client_id SELL
       (\<lambda>level_price incoming. level_price \<le> incoming) update_best_ask_after_empty
       (m_incoming ms) now ms"

definition match_sell ::
  "Price_t \<Rightarrow> Id_t \<Rightarrow> Id_t \<Rightarrow> Time_t \<Rightarrow> MatchState \<Rightarrow> MatchState option" where
  "match_sell incoming_price order_id client_id now ms =
     match_loop incoming_price order_id client_id BUY
       (\<lambda>level_price incoming. level_price \<ge> incoming) update_best_bid_after_empty
       (m_incoming ms) now ms"

end
