(* ===== verification/Side_Rep.thy ===== *)
theory Side_Rep
  imports Order_Book_Side
begin

text \<open>
  What a book side represents: for every price level the list of the slots its intrusive list
  visits, and the free list.  \<open>side_rep s L F\<close> is the structural invariant of one side; it is
  relational, and the lists are determined by the store.
\<close>

section \<open>The structural invariant of one side\<close>

definition slots_ok :: "(nat \<Rightarrow> nat list) \<Rightarrow> nat list \<Rightarrow> bool" where
  "slots_ok L F \<longleftrightarrow>
     distinct F \<and> (\<forall>i. distinct (L i)) \<and>
     (\<forall>x i j. x \<in> set (L i) \<longrightarrow> x \<in> set (L j) \<longrightarrow> i = j) \<and>
     (\<forall>x i. x \<in> set (L i) \<longrightarrow> x \<notin> set F) \<and>
     (\<forall>x. x \<in> set F \<or> (\<exists>i. x \<in> set (L i)) \<longleftrightarrow> x < MAX_ORDERS) \<and>
     (\<forall>x i. x \<in> set (L i) \<longrightarrow> i < NUM_BOOK_LEVELS)"

definition order_ok :: "bool \<Rightarrow> nat \<Rightarrow> Order \<Rightarrow> bool" where
  "order_ok b i r \<longleftrightarrow>
     o_is_bid r = b \<and> o_price r = MINIMUM_BID + int i \<and> 0 < o_quantity_remaining r \<and>
     unat (o_quantity r) = unat (o_quantity_remaining r) + unat (o_quantity_cumulative r)"

definition level_ok :: "store \<Rightarrow> nat \<Rightarrow> PriceLevel \<Rightarrow> nat list \<Rightarrow> bool" where
  "level_ok p i lv xs \<longleftrightarrow>
     seg p None (l_first lv) xs (l_last lv) None \<and> l_idx lv = i \<and>
     l_price lv = MINIMUM_BID + int i \<and>
     l_total_quantity lv = sum_list (map (\<lambda>x. o_quantity_remaining (p x)) xs)"

abbreviation side_store :: "OrderBookSide \<Rightarrow> store" where
  "side_store s \<equiv> pool (s_pool s)"

definition side_rep :: "OrderBookSide \<Rightarrow> (nat \<Rightarrow> nat list) \<Rightarrow> nat list \<Rightarrow> bool" where
  "side_rep s L F \<longleftrightarrow>
     slots_ok L F \<and> chain (side_store s) (next_free (s_pool s)) F \<and>
     (\<forall>x<MAX_ORDERS. o_order_handle (side_store s x) = of_nat x) \<and>
     (\<forall>i<NUM_BOOK_LEVELS. level_ok (side_store s) i (levels s i) (L i)) \<and>
     (\<forall>i x. x \<in> set (L i) \<longrightarrow> order_ok (s_is_bid s) i (side_store s x)) \<and>
     (best_price_index s \<noteq> NUM_BOOK_LEVELS \<longrightarrow>
        best_price_index s < NUM_BOOK_LEVELS \<and> L (best_price_index s) \<noteq> [])"

lemma side_repI:
  assumes "slots_ok L F" and "chain (side_store s) (next_free (s_pool s)) F"
    and "\<And>x. x < MAX_ORDERS \<Longrightarrow> o_order_handle (side_store s x) = of_nat x"
    and "\<And>i. i < NUM_BOOK_LEVELS \<Longrightarrow> level_ok (side_store s) i (levels s i) (L i)"
    and "\<And>i x. x \<in> set (L i) \<Longrightarrow> order_ok (s_is_bid s) i (side_store s x)"
    and "best_price_index s \<noteq> NUM_BOOK_LEVELS \<Longrightarrow>
        best_price_index s < NUM_BOOK_LEVELS \<and> L (best_price_index s) \<noteq> []"
  shows "side_rep s L F"
  using assms by (simp add: side_rep_def)

lemma side_repD:
  assumes "side_rep s L F"
  shows side_rep_slots: "slots_ok L F"
    and side_rep_chain: "chain (side_store s) (next_free (s_pool s)) F"
    and side_rep_handle: "x < MAX_ORDERS \<Longrightarrow> o_order_handle (side_store s x) = of_nat x"
    and side_rep_level: "i < NUM_BOOK_LEVELS \<Longrightarrow> level_ok (side_store s) i (levels s i) (L i)"
    and side_rep_order: "x \<in> set (L i) \<Longrightarrow> order_ok (s_is_bid s) i (side_store s x)"
    and side_rep_best: "best_price_index s \<noteq> NUM_BOOK_LEVELS \<Longrightarrow>
        best_price_index s < NUM_BOOK_LEVELS \<and> L (best_price_index s) \<noteq> []"
  using assms by (simp_all add: side_rep_def)

subsection \<open>Slots\<close>

lemma slots_okD:
  assumes "slots_ok L F"
  shows slots_ok_free_distinct: "distinct F"
    and slots_ok_distinct: "distinct (L i)"
    and slots_ok_same: "x \<in> set (L i) \<Longrightarrow> x \<in> set (L j) \<Longrightarrow> i = j"
    and slots_ok_not_free: "x \<in> set (L i) \<Longrightarrow> x \<notin> set F"
    and slots_ok_less: "x \<in> set (L i) \<Longrightarrow> x < MAX_ORDERS"
    and slots_ok_free_less: "x \<in> set F \<Longrightarrow> x < MAX_ORDERS"
    and slots_ok_idx: "x \<in> set (L i) \<Longrightarrow> i < NUM_BOOK_LEVELS"
  using assms unfolding slots_ok_def by blast+

lemma slots_ok_beyond: "slots_ok L F \<Longrightarrow> NUM_BOOK_LEVELS \<le> i \<Longrightarrow> L i = []"
  using slots_ok_idx [of L F _ i] by (cases "L i") fastforce+

lemma slots_take:
  assumes ok: "slots_ok L (x # F)" and i: "i < NUM_BOOK_LEVELS"
  shows "slots_ok (L(i := L i @ [x])) F"
proof -
  have x: "x \<notin> set F" "\<And>j. x \<notin> set (L j)"
    using ok unfolding slots_ok_def by auto
  have mem: "y \<in> set ((L(i := L i @ [x])) j) \<longleftrightarrow> y \<in> set (L j) \<or> y = x \<and> j = i" for y j
    by auto
  have dist: "distinct ((L(i := L i @ [x])) j)" for j
    using slots_ok_distinct [OF ok] x by auto
  from ok x i show ?thesis
    unfolding slots_ok_def mem using dist by (simp del: fun_upd_apply) metis
qed

lemma slots_free:
  assumes ok: "slots_ok L F" and i: "L i = as @ x # bs"
  shows "slots_ok (L(i := as @ bs)) (x # F)"
proof -
  have xi: "x \<in> set (L i)" using i by simp
  have x: "x \<notin> set F" "\<And>j. x \<in> set (L j) \<Longrightarrow> j = i"
    using slots_ok_not_free [OF ok xi] slots_ok_same [OF ok xi] by auto
  have ni: "x \<notin> set as" "x \<notin> set bs" using slots_ok_distinct [OF ok, of i] i by auto
  have mem: "y \<in> set ((L(i := as @ bs)) j) \<longleftrightarrow> y \<in> set (L j) \<and> y \<noteq> x" for y j
    using i x ni by auto
  have dist: "distinct ((L(i := as @ bs)) j)" for j
    using slots_ok_distinct [OF ok, of j] i by auto
  have less: "x < MAX_ORDERS" using slots_ok_less [OF ok xi] .
  from ok x xi less show ?thesis
    unfolding slots_ok_def mem using dist by (simp del: fun_upd_apply) metis
qed

subsection \<open>Levels\<close>

lemma level_ok_cong:
  assumes "\<And>x. x \<in> set xs \<Longrightarrow> o_next (q x) = o_next (p x) \<and> o_previous (q x) = o_previous (p x) \<and>
      o_quantity_remaining (q x) = o_quantity_remaining (p x)"
  shows "level_ok q i lv xs = level_ok p i lv xs"
proof -
  have "(\<Sum>x\<leftarrow>xs. o_quantity_remaining (q x)) = (\<Sum>x\<leftarrow>xs. o_quantity_remaining (p x))"
    using assms by (intro sum_list_map_cong) blast
  moreover have "seg q None (l_first lv) xs (l_last lv) None = seg p None (l_first lv) xs (l_last lv) None"
    using assms by (intro seg_cong) blast
  ultimately show ?thesis unfolding level_ok_def by metis
qed

lemma level_ok_upd_other: "x \<notin> set xs \<Longrightarrow> level_ok (upd p x g) i lv xs = level_ok p i lv xs"
  by (rule level_ok_cong) (auto simp: upd_apply)

lemma level_ok_first: "level_ok p i lv xs \<Longrightarrow> l_first lv = (case xs of [] \<Rightarrow> None | x # _ \<Rightarrow> Some x)"
  by (auto simp: level_ok_def dest: seg_first)

lemma level_ok_last: "level_ok p i lv xs \<Longrightarrow> l_last lv = (if xs = [] then None else Some (last xs))"
  by (auto simp: level_ok_def dest: seg_last)

text \<open>Appending a fresh node, as \<open>add_order\<close> does.\<close>

lemma level_ok_snoc:
  assumes lv: "level_ok p i lv xs" and x: "x \<notin> set xs" and dist: "distinct xs"
    and new: "o_next r = None" "o_previous r = l_last lv" "o_quantity_remaining r = q"
  shows "level_ok (case l_last lv of Some l \<Rightarrow> upd (p(x := r)) l (\<lambda>r. r\<lparr>o_next := Some x\<rparr>)
                   | None \<Rightarrow> p(x := r)) i
           ((case l_last lv of Some l \<Rightarrow> lv | None \<Rightarrow> lv\<lparr>l_first := Some x\<rparr>)
              \<lparr>l_last := Some x, l_total_quantity := l_total_quantity lv + q\<rparr>) (xs @ [x])"
proof (cases "xs = []")
  case True
  with lv new show ?thesis by (auto simp: level_ok_def)
next
  case False
  let ?l = "last xs"
  have l: "l_last lv = Some ?l" using level_ok_last [OF lv] False by simp
  have xl: "x \<noteq> ?l" using x False by (metis last_in_set)
  have seg: "seg (p(x := r)) None (l_first lv) xs (Some ?l) None"
    using lv x l by (subst seg_cong [of xs _ p]) (auto simp: level_ok_def)
  have "seg (upd (p(x := r)) ?l (\<lambda>r. r\<lparr>o_next := Some x\<rparr>)) None (l_first lv) xs (Some ?l) (Some x)"
    by (rule seg_retarget_next [OF seg False dist])
  moreover have "(\<Sum>y\<leftarrow>xs. o_quantity_remaining (upd (p(x := r)) ?l (\<lambda>r. r\<lparr>o_next := Some x\<rparr>) y))
      = (\<Sum>y\<leftarrow>xs. o_quantity_remaining (p y))"
    using x by (intro sum_list_map_cong) (auto simp: upd_apply)
  ultimately show ?thesis
    using lv l new xl by (auto simp: level_ok_def seg_append add.commute)
qed

text \<open>Writing the remaining quantity of an order of a level, the total following it.\<close>

lemma level_ok_modify:
  assumes lv: "level_ok p i lv (as @ x # bs)" and x: "x \<notin> set as" "x \<notin> set bs"
    and r: "o_next (g (p x)) = o_next (p x)" "o_previous (g (p x)) = o_previous (p x)"
      "o_quantity_remaining (g (p x)) = o_quantity_remaining (p x) - t"
  shows "level_ok (upd p x g) i (lv\<lparr>l_total_quantity := l_total_quantity lv - t\<rparr>) (as @ x # bs)"
proof -
  have "x \<notin> set ys \<Longrightarrow>
      (\<Sum>y\<leftarrow>ys. o_quantity_remaining (upd p x g y)) = (\<Sum>y\<leftarrow>ys. o_quantity_remaining (p y))" for ys
    by (intro sum_list_map_cong) (auto simp: upd_apply)
  with lv x r show ?thesis by (auto simp: level_ok_def seg_append seg_upd_other algebra_simps)
qed

lemma seg_unlink:
  assumes sg: "seg p None (l_first lv) (as @ x # bs) (l_last lv) None"
    and d: "distinct (as @ x # bs)" and u: "unlink p lv x = (p', lv')"
  shows "seg p' None (l_first lv') (as @ bs) (l_last lv') None"
proof -
  obtain k where a: "seg p None (l_first lv) as k (Some x)" and pk: "o_previous (p x) = k"
    and b: "seg p (Some x) (o_next (p x)) bs (l_last lv) None"
    using sg by (auto simp: seg_append)
  have ka: "k = (if as = [] then None else Some (last as))" using seg_last [OF a] by simp
  have nb: "o_next (p x) = (case bs of [] \<Rightarrow> None | y # _ \<Rightarrow> Some y)" using seg_first [OF b] .
  define p1 where "p1 = (case k of Some pr \<Rightarrow> upd p pr (\<lambda>r. r\<lparr>o_next := o_next (p x)\<rparr>) | None \<Rightarrow> p)"
  define f where "f = (case k of Some _ \<Rightarrow> l_first lv | None \<Rightarrow> o_next (p x))"
  have a1: "seg p1 None f as k (o_next (p x))"
  proof (cases "as = []")
    case True
    then show ?thesis using ka by (simp add: f_def)
  next
    case False
    then have "seg p1 None (l_first lv) as (Some (last as)) (o_next (p x))"
      using seg_retarget_next [of p None "l_first lv" as "last as" "Some x"] a ka d
      by (simp add: p1_def)
    then show ?thesis using False ka by (simp add: f_def)
  qed
  have kx: "\<And>pr. k = Some pr \<Longrightarrow> pr \<in> set as" using ka by (auto split: if_splits)
  have kb: "\<And>pr. k = Some pr \<Longrightarrow> pr \<notin> set bs" using kx d by auto
  have b1: "seg p1 (Some x) (o_next (p x)) bs (l_last lv) None"
    using b kb by (auto simp: p1_def seg_upd_other split: option.splits)
  have x1: "o_next (p1 x) = o_next (p x)" "o_previous (p1 x) = k"
    using kx d pk by (auto simp: p1_def upd_apply split: option.splits)
  have fl: "l_first lv' = f" and ll: "l_last lv' = (if bs = [] then k else l_last lv)"
    and p': "p' = (case bs of [] \<Rightarrow> p1 | y # _ \<Rightarrow> upd p1 y (\<lambda>r. r\<lparr>o_previous := k\<rparr>))"
    using u pk x1 nb
    by (auto simp: unlink_def Let_def p1_def f_def split: option.splits list.splits prod.splits)
  show ?thesis
  proof (cases bs)
    case Nil
    with a1 fl ll p' nb show ?thesis by simp
  next
    case (Cons y ys)
    have "seg p' k (Some y) (y # ys) (l_last lv) None"
      using seg_retarget_prev [of p1 "Some x" y ys "l_last lv" None k] b1 Cons d nb p' by simp
    moreover have "seg p' None f as k (Some y)"
      using a1 Cons nb p' d by (simp add: seg_upd_other)
    ultimately show ?thesis using Cons fl ll by (auto simp: seg_append)
  qed
qed

section \<open>The view of an order without its links\<close>

record Resting =
  r_order_id :: Id_t
  r_client_id :: Id_t
  r_price :: Price_t
  r_quantity :: Volume_t
  r_remaining :: Volume_t
  r_cumulative :: Volume_t

definition view :: "Order \<Rightarrow> Resting" where
  "view r = \<lparr>r_order_id = o_order_id r, r_client_id = o_client_id r, r_price = o_price r,
             r_quantity = o_quantity r, r_remaining = o_quantity_remaining r,
             r_cumulative = o_quantity_cumulative r\<rparr>"

lemma view_sel [simp]:
  "r_order_id (view r) = o_order_id r" "r_client_id (view r) = o_client_id r"
  "r_price (view r) = o_price r" "r_quantity (view r) = o_quantity r"
  "r_remaining (view r) = o_quantity_remaining r" "r_cumulative (view r) = o_quantity_cumulative r"
  by (simp_all add: view_def)

lemma view_links [simp]:
  "view (r\<lparr>o_next := n\<rparr>) = view r" "view (r\<lparr>o_previous := n\<rparr>) = view r"
  by (simp_all add: view_def)

lemma view_eqD:
  "view r = view r' \<Longrightarrow> o_order_id r = o_order_id r' \<and> o_client_id r = o_client_id r' \<and>
     o_price r = o_price r' \<and> o_quantity r = o_quantity r' \<and>
     o_quantity_remaining r = o_quantity_remaining r' \<and>
     o_quantity_cumulative r = o_quantity_cumulative r'"
  by (simp add: view_def)

definition kept :: "Order \<Rightarrow> Order \<Rightarrow> bool" where
  "kept r r' \<longleftrightarrow> view r' = view r \<and> o_is_bid r' = o_is_bid r \<and> o_order_handle r' = o_order_handle r"

lemma kept_refl [simp]: "kept r r"
  by (simp add: kept_def)

lemma kept_trans: "kept r r' \<Longrightarrow> kept r' r'' \<Longrightarrow> kept r r''"
  by (simp add: kept_def)

lemma kept_links [simp]: "kept r (r'\<lparr>o_next := n\<rparr>) = kept r r'" "kept r (r'\<lparr>o_previous := n\<rparr>) = kept r r'"
  by (simp_all add: kept_def)

lemma kept_order_ok: "kept r r' \<Longrightarrow> order_ok b i r' = order_ok b i r"
  by (auto simp: kept_def order_ok_def dest!: view_eqD)

lemma unlink_kept: "unlink p lv x = (p', lv') \<Longrightarrow> kept (p y) (p' y)"
  by (auto simp: unlink_def Let_def upd_apply split: option.splits prod.splits if_splits)

lemma unlink_frame:
  "unlink p lv x = (p', lv') \<Longrightarrow>
   l_idx lv' = l_idx lv \<and> l_price lv' = l_price lv \<and> l_total_quantity lv' = l_total_quantity lv"
  by (auto simp: unlink_def Let_def split: option.splits prod.splits)

lemma unlink_outside:
  assumes "seg p None (l_first lv) (as @ x # bs) (l_last lv) None"
    and "unlink p lv x = (p', lv')" and "y \<notin> set (as @ x # bs)"
  shows "p' y = p y"
proof -
  obtain k where a: "seg p None (l_first lv) as k (Some x)" and pk: "o_previous (p x) = k"
    and b: "seg p (Some x) (o_next (p x)) bs (l_last lv) None"
    using assms(1) by (auto simp: seg_append)
  have "k = (if as = [] then None else Some (last as))" using seg_last [OF a] by simp
  then have "\<And>pr. k = Some pr \<Longrightarrow> pr \<in> set as" by (auto split: if_splits)
  moreover have "\<And>nx. o_next (p x) = Some nx \<Longrightarrow> nx \<in> set bs"
    using seg_first [OF b] by (auto split: list.splits)
  ultimately show ?thesis
    using assms(2,3) pk
    by (auto simp: unlink_def Let_def upd_apply split: option.splits prod.splits if_splits)
qed

end
