(* ===== verification/Side_Ops.thy ===== *)
theory Side_Ops
  imports Side_Rep
begin

text \<open>
  Every operation on one book side keeps the structural invariant, with the list-level effect it
  has: appending at the back of a level, dropping an order, changing an order's quantities.
\<close>

section \<open>Dropping an order from its level\<close>

text \<open>A level none of whose orders is touched.\<close>

lemma level_ok_untouched:
  assumes "side_rep s L F" "j < NUM_BOOK_LEVELS" and "\<And>y. y \<in> set (L j) \<Longrightarrow> p y = side_store s y"
  shows "level_ok p j (levels s j) (L j)"
  using side_rep_level [OF assms(1,2)] assms(3) by (subst level_ok_cong [of _ _ "side_store s"]) simp_all

text \<open>
  The level \<open>lv\<close> has had the quantity of \<open>x\<close> taken off its total; after \<open>x\<close> is unlinked it is the
  level of the remaining orders.
\<close>

lemma seg_quantities:
  assumes "\<And>y. y \<noteq> x \<Longrightarrow> q y = p y" "o_next (q x) = o_next (p x)" "o_previous (q x) = o_previous (p x)"
  shows "seg q pr f xs l nx = seg p pr f xs l nx"
  using assms by (intro seg_cong) metis

lemma level_ok_unlink:
  assumes ok: "level_ok p i lv0 (as @ x # bs)" and d: "distinct (as @ x # bs)"
    and q: "\<And>y. y \<noteq> x \<Longrightarrow> q y = p y" "o_next (q x) = o_next (p x)" "o_previous (q x) = o_previous (p x)"
    and lv: "l_first lv = l_first lv0" "l_last lv = l_last lv0" "l_idx lv = l_idx lv0" "l_price lv = l_price lv0"
      "l_total_quantity lv = l_total_quantity lv0 - o_quantity_remaining (p x)"
    and u: "unlink q lv x = (p', lv')"
  shows "level_ok (upd p' x g) i lv' (as @ bs)"
proof -
  have sgq: "seg q None (l_first lv) (as @ x # bs) (l_last lv) None"
    using ok lv by (simp add: seg_quantities [where q = q and p = p and x = x, OF q] level_ok_def)
  have "seg (upd p' x g) None (l_first lv') (as @ bs) (l_last lv') None"
    using seg_unlink [OF sgq d u] d by (simp add: seg_upd_other)
  moreover have "sum_list (map (\<lambda>y. o_quantity_remaining (upd p' x g y)) (as @ bs))
      = sum_list (map (\<lambda>y. o_quantity_remaining (p y)) (as @ bs))"
  proof (rule sum_list_map_cong)
    fix y assume "y \<in> set (as @ bs)"
    then have "y \<noteq> x" using d by auto
    then show "o_quantity_remaining (upd p' x g y) = o_quantity_remaining (p y)"
      using unlink_kept [OF u, of y] q(1) by (auto simp: kept_def dest: view_eqD)
  qed
  ultimately show ?thesis using ok lv unlink_frame [OF u] by (simp add: level_ok_def)
qed

lemma side_rep_drop:
  assumes rep: "side_rep s L F" and Li: "L i = as @ x # bs"
    and q: "\<And>y. y \<noteq> x \<Longrightarrow> q y = side_store s y" "o_next (q x) = o_next (side_store s x)"
      "o_previous (q x) = o_previous (side_store s x)"
      "o_order_handle (q x) = o_order_handle (side_store s x)"
    and lv: "l_first lv = l_first (levels s i)" "l_last lv = l_last (levels s i)"
      "l_idx lv = l_idx (levels s i)" "l_price lv = l_price (levels s i)"
      "l_total_quantity lv = l_total_quantity (levels s i) - o_quantity_remaining (side_store s x)"
    and u: "unlink q lv x = (p', lv')"
    and s': "levels s' = (levels s)(i := lv')"
      "s_pool s' = deallocate ((s_pool s)\<lparr>pool := p'\<rparr>) x" "s_is_bid s' = s_is_bid s"
    and best: "best_price_index s' \<noteq> NUM_BOOK_LEVELS \<Longrightarrow>
      best_price_index s' < NUM_BOOK_LEVELS \<and> (L(i := as @ bs)) (best_price_index s') \<noteq> []"
  shows "side_rep s' (L(i := as @ bs)) (x # F)"
    and "\<And>y. y \<noteq> x \<Longrightarrow> kept (side_store s y) (side_store s' y)"
proof -
  note slots = side_rep_slots [OF rep]
  have xi: "x \<in> set (L i)" using Li by simp
  have d: "distinct (as @ x # bs)" using slots_ok_distinct [OF slots, of i] Li by simp
  have lvi: "level_ok (side_store s) i (levels s i) (as @ x # bs)"
    using side_rep_level [OF rep slots_ok_idx [OF slots xi]] Li by simp
  then have sgq: "seg q None (l_first lv) (as @ x # bs) (l_last lv) None"
    using lv by (simp add: seg_quantities [where q = q and p = "side_store s" and x = x, OF q(1-3)] level_ok_def)
  have out: "y \<notin> set (L i) \<Longrightarrow> p' y = side_store s y" for y
    using unlink_outside [OF sgq u] q(1) Li by auto
  have st: "side_store s' = upd p' x (\<lambda>r. r\<lparr>o_next := next_free (s_pool s)\<rparr>)"
    and nf: "next_free (s_pool s') = Some x"
    using s'(2) by (simp_all add: deallocate_def)
  show kept': "kept (side_store s y) (side_store s' y)" if "y \<noteq> x" for y
    using unlink_kept [OF u, of y] q(1) [OF that] that by (simp add: st)
  show "side_rep s' (L(i := as @ bs)) (x # F)"
  proof (rule side_repI)
    show "slots_ok (L(i := as @ bs)) (x # F)" by (rule slots_free [OF slots Li])
    have "\<And>y. y \<in> set F \<Longrightarrow> p' y = side_store s y" using out slots_ok_not_free [OF slots] by blast
    then have "chain p' (next_free (s_pool s)) F"
      using side_rep_chain [OF rep] by (subst chain_cong [of F p' "side_store s"]) auto
    then show "chain (side_store s') (next_free (s_pool s')) (x # F)"
      using slots_ok_not_free [OF slots xi] by (simp add: st nf chain_upd_other)
    show "o_order_handle (side_store s' y) = of_nat y" if "y < MAX_ORDERS" for y
      using side_rep_handle [OF rep that] kept' [of y] unlink_kept [OF u, of x] q(4)
      by (cases "y = x") (auto simp: kept_def st)
    show "level_ok (side_store s') j (levels s' j) ((L(i := as @ bs)) j)"
      if "j < NUM_BOOK_LEVELS" for j
    proof (cases "j = i")
      case True
      then show ?thesis using level_ok_unlink [OF lvi d q(1-3) lv u] by (simp add: s'(1) st del: s'(2))
    next
      case False
      have "side_store s' y = side_store s y" if "y \<in> set (L j)" for y
        using that False out xi slots_ok_same [OF slots] by (metis st upd_other)
      then show ?thesis using False level_ok_untouched [OF rep that] by (simp add: s')
    qed
    show "order_ok (s_is_bid s') j (side_store s' y)" if "y \<in> set ((L(i := as @ bs)) j)" for j y
    proof -
      have yj: "y \<in> set (L j)" and yx: "y \<noteq> x"
        using that Li d xi slots_ok_same [OF slots, of x i j] by (auto split: if_splits)
      show ?thesis
        using side_rep_order [OF rep yj] kept_order_ok [OF kept' [OF yx]] s'(3) by simp
    qed
  qed (use best in blast)
qed

section \<open>Changing an order's quantities in place\<close>

lemma side_rep_modify:
  assumes rep: "side_rep s L F" and x: "x \<in> set (L i)"
    and g: "o_next (g (side_store s x)) = o_next (side_store s x)"
      "o_previous (g (side_store s x)) = o_previous (side_store s x)"
      "o_order_handle (g (side_store s x)) = o_order_handle (side_store s x)"
      "o_quantity_remaining (g (side_store s x)) = o_quantity_remaining (side_store s x) - t"
      "order_ok (s_is_bid s) i (g (side_store s x))"
    and s': "levels s' = (levels s)(i := (levels s i)\<lparr>l_total_quantity := l_total_quantity (levels s i) - t\<rparr>)"
      "s_pool s' = (s_pool s)\<lparr>pool := upd (side_store s) x g\<rparr>" "s_is_bid s' = s_is_bid s"
    and best: "best_price_index s' \<noteq> NUM_BOOK_LEVELS \<Longrightarrow>
      best_price_index s' < NUM_BOOK_LEVELS \<and> L (best_price_index s') \<noteq> []"
  shows "side_rep s' L F"
proof -
  note slots = side_rep_slots [OF rep]
  have iN: "i < NUM_BOOK_LEVELS" using slots_ok_idx [OF slots x] .
  obtain as bs where Li: "L i = as @ x # bs" using x by (meson split_list)
  have nx: "x \<notin> set as" "x \<notin> set bs" using slots_ok_distinct [OF slots, of i] Li by auto
  have st: "side_store s' = upd (side_store s) x g" using s'(2) by simp
  show ?thesis
  proof (rule side_repI)
    show "slots_ok L F" by (rule slots)
    show "chain (side_store s') (next_free (s_pool s')) F"
      using side_rep_chain [OF rep] slots_ok_not_free [OF slots x] s'(2) by (simp add: chain_upd_other)
    show "o_order_handle (side_store s' y) = of_nat y" if "y < MAX_ORDERS" for y
      using side_rep_handle [OF rep that] g(3) by (auto simp: st upd_apply)
    show "level_ok (side_store s') j (levels s' j) (L j)" if j: "j < NUM_BOOK_LEVELS" for j
    proof (cases "j = i")
      case True
      then show ?thesis
        using level_ok_modify [of "side_store s" i "levels s i" as x bs g t]
          side_rep_level [OF rep iN] nx g(1,2,4) by (simp add: Li s'(1) st)
    next
      case False
      then have "x \<notin> set (L j)" using slots_ok_same [OF slots x] by blast
      then show ?thesis
        using False side_rep_level [OF rep j] by (simp add: s'(1) st level_ok_upd_other)
    qed
    show "order_ok (s_is_bid s') j (side_store s' y)" if y: "y \<in> set (L j)" for j y
    proof (cases "y = x")
      case True
      then have "j = i" using slots_ok_same [OF slots x] y by blast
      then show ?thesis using True g(5) by (simp add: st s'(3))
    next
      case False
      then show ?thesis using side_rep_order [OF rep y] by (simp add: st s'(3))
    qed
  qed (use best in blast)
qed

section \<open>Adding an order\<close>

definition price_ok :: "Price_t \<Rightarrow> bool" where
  "price_ok price \<longleftrightarrow> MINIMUM_BID \<le> price \<and> price \<le> MAXIMUM_ASK"

lemma price_to_index_ok: "price_ok price \<Longrightarrow> price_to_index price = nat (price - MINIMUM_BID)"
  by (simp add: price_ok_def price_to_index_def MINIMUM_BID_def MAXIMUM_ASK_def)

lemma price_to_index_less: "price_ok price \<Longrightarrow> price_to_index price < NUM_BOOK_LEVELS"
  by (simp add: price_to_index_ok)
    (auto simp: price_ok_def NUM_BOOK_LEVELS_eq MINIMUM_BID_def MAXIMUM_ASK_def)

lemma index_price: "price_ok price \<Longrightarrow> MINIMUM_BID + int (price_to_index price) = price"
  by (simp add: price_to_index_ok) (simp add: price_ok_def)

lemma price_to_index_of: "i < NUM_BOOK_LEVELS \<Longrightarrow> price_to_index (MINIMUM_BID + int i) = i"
  by (simp add: price_to_index_def NUM_BOOK_LEVELS_eq)

text \<open>The order record \<open>add_order\<close> writes into the slot it was given.\<close>

definition new_order ::
  "Order \<Rightarrow> bool \<Rightarrow> PriceLevel \<Rightarrow> Price_t \<Rightarrow> Volume_t \<Rightarrow> Volume_t \<Rightarrow> Id_t \<Rightarrow> Id_t \<Rightarrow> Order" where
  "new_order r b level price quantity remaining order_id client_id =
     r\<lparr>o_client_id := client_id, o_order_id := order_id, o_price := price,
       o_quantity := quantity, o_quantity_remaining := remaining,
       o_quantity_cumulative := quantity - remaining, o_next := None,
       o_previous := l_last level, o_is_bid := b\<rparr>"

definition append_links :: "store \<Rightarrow> PriceLevel \<Rightarrow> nat \<Rightarrow> Order \<Rightarrow> store" where
  "append_links p lv x r =
     (case l_last lv of Some l \<Rightarrow> upd (p(x := r)) l (\<lambda>r. r\<lparr>o_next := Some x\<rparr>) | None \<Rightarrow> p(x := r))"

definition append_level :: "PriceLevel \<Rightarrow> nat \<Rightarrow> Volume_t \<Rightarrow> PriceLevel" where
  "append_level lv x q =
     (case l_last lv of Some l \<Rightarrow> lv | None \<Rightarrow> lv\<lparr>l_first := Some x\<rparr>)
       \<lparr>l_last := Some x, l_total_quantity := l_total_quantity lv + q\<rparr>"

lemma level_ok_append:
  assumes "level_ok p i lv xs" and "x \<notin> set xs" and "distinct xs"
    and "o_next r = None" "o_previous r = l_last lv" "o_quantity_remaining r = q"
  shows "level_ok (append_links p lv x r) i (append_level lv x q) (xs @ [x])"
  unfolding append_links_def append_level_def by (rule level_ok_snoc [OF assms])

lemma append_level_sel [simp]:
  "l_total_quantity (append_level lv x q) = l_total_quantity lv + q"
  "l_price (append_level lv x q) = l_price lv" "l_idx (append_level lv x q) = l_idx lv"
  by (simp_all add: append_level_def split: option.splits)

definition after_order :: "OrderBookSide \<Rightarrow> nat \<Rightarrow> OrderBookSide" where
  "after_order s idx =
     (if s_is_bid s then update_best_bid_after_order s idx else update_best_ask_after_order s idx)"

lemma after_order_sel [simp]:
  "levels (after_order s i) = levels s" "s_pool (after_order s i) = s_pool s"
  "s_is_bid (after_order s i) = s_is_bid s"
  by (simp_all add: after_order_def update_best_bid_after_order_def update_best_ask_after_order_def)

lemma add_order_None:
  assumes rep: "side_rep s L []"
  shows "add_order s price q rm oid cid rid now =
    (None, s, [OnError cid rid (error_code ORDER_BOOK_FULL) ''Order book is full.'' now])"
  using side_rep_chain [OF rep] by (simp add: add_order_def allocate_def)

lemma pool_record: "P\<lparr>next_free := n, pool := p\<rparr> = \<lparr>pool = p, next_free = n\<rparr>"
  by (cases P) simp

lemma add_order_Some:
  fixes s price q rm oid cid x
  assumes rep: "side_rep s L (x # F)"
  defines "idx \<equiv> price_to_index price"
  defines "r \<equiv> new_order (side_store s x) (s_is_bid s) (levels s idx) price q rm oid cid"
  defines "lv \<equiv> append_level (levels s idx) x rm"
  shows "add_order s price q rm oid cid rid now =
    (Some x,
     after_order (s\<lparr>s_pool := \<lparr>pool = append_links (side_store s) (levels s idx) x r,
                               next_free = o_next (side_store s x)\<rparr>,
                    levels := (levels s)(idx := lv)\<rparr>) idx,
     [OnLevelUpdate (if s_is_bid s then BUY else SELL) lv now])"
  using side_rep_chain [OF rep]
  by (auto simp: add_order_def allocate_def Let_def after_order_def r_def lv_def idx_def
      append_links_def append_level_def new_order_def upd_def pool_record split: option.splits)

lemma append_links_kept: "y \<noteq> x \<Longrightarrow> kept (p y) (append_links p lv x r y)"
  by (simp add: append_links_def upd_apply split: option.splits)

lemma append_links_new: "l_last lv \<noteq> Some x \<Longrightarrow> append_links p lv x r x = r"
  by (auto simp: append_links_def upd_apply split: option.splits)

lemma append_links_outside: "y \<noteq> x \<Longrightarrow> l_last lv \<noteq> Some y \<Longrightarrow> append_links p lv x r y = p y"
  by (auto simp: append_links_def upd_apply split: option.splits)

lemma after_order_best:
  "best_price_index (after_order s i) =
     (if best_price_index s = NUM_BOOK_LEVELS
         \<or> (if s_is_bid s then best_price_index s < i else i < best_price_index s)
      then i else best_price_index s)"
  by (simp add: after_order_def update_best_bid_after_order_def update_best_ask_after_order_def)

lemma new_order_ok:
  assumes "price_ok price" and "0 < rm" and "rm \<le> q"
  shows "order_ok b (price_to_index price) (new_order r0 b lv price q rm oid cid)"
  using assms index_price [OF assms(1)]
  by (simp add: order_ok_def new_order_def unat_diff_le word_le_nat_alt)

lemma side_rep_add:
  assumes rep: "side_rep s L (x # F)" and i: "i < NUM_BOOK_LEVELS"
    and r: "order_ok (s_is_bid s) i r" "o_next r = None" "o_previous r = l_last (levels s i)"
      "o_order_handle r = o_order_handle (side_store s x)"
    and s1: "s1 = s\<lparr>s_pool := \<lparr>pool = append_links (side_store s) (levels s i) x r,
                               next_free = o_next (side_store s x)\<rparr>,
               levels := (levels s)(i := append_level (levels s i) x (o_quantity_remaining r))\<rparr>"
  shows "side_rep (after_order s1 i) (L(i := L i @ [x])) F"
proof -
  note slots = side_rep_slots [OF rep]
  have xL: "x \<notin> set (L j)" for j using slots_ok_not_free [OF slots, of x] by fastforce
  have xF: "x \<notin> set F" using slots_ok_free_distinct [OF slots] by simp
  have xm: "x < MAX_ORDERS" using slots_ok_free_less [OF slots] by simp
  have last: "l_last (levels s i) = (if L i = [] then None else Some (last (L i)))"
    using level_ok_last [OF side_rep_level [OF rep i]] .
  have lastL: "l_last (levels s i) = Some y \<Longrightarrow> y \<in> set (L i)" for y
    using last by (auto split: if_splits)
  have st: "side_store s1 = append_links (side_store s) (levels s i) x r" by (simp add: s1)
  have new: "side_store s1 x = r" using append_links_new lastL xL by (metis st)
  have kp: "y \<noteq> x \<Longrightarrow> kept (side_store s y) (side_store s1 y)" for y
    by (simp add: st append_links_kept)
  have out: "y \<noteq> x \<Longrightarrow> y \<notin> set (L i) \<Longrightarrow> side_store s1 y = side_store s y" for y
    using append_links_outside lastL by (metis st)
  show ?thesis
  proof (rule side_repI)
    show "slots_ok (L(i := L i @ [x])) F" by (rule slots_take [OF slots i])
    have "\<And>y. y \<in> set F \<Longrightarrow> side_store s1 y = side_store s y"
      using out xF slots_ok_not_free [OF slots] by (metis list.set_intros(2))
    then show "chain (side_store (after_order s1 i)) (next_free (s_pool (after_order s1 i))) F"
      using side_rep_chain [OF rep] by (simp, subst chain_cong [of F _ "side_store s"]) (auto simp: s1)
    show "o_order_handle (side_store (after_order s1 i) y) = of_nat y" if "y < MAX_ORDERS" for y
      using side_rep_handle [OF rep that] kp [of y] new r(4) by (cases "y = x") (auto simp: kept_def)
    show "level_ok (side_store (after_order s1 i)) j (levels (after_order s1 i) j) ((L(i := L i @ [x])) j)"
      if j: "j < NUM_BOOK_LEVELS" for j
    proof (cases "j = i")
      case True
      have "level_ok (append_links (side_store s) (levels s i) x r) i
          (append_level (levels s i) x (o_quantity_remaining r)) (L i @ [x])"
        by (rule level_ok_append [OF side_rep_level [OF rep i] xL slots_ok_distinct [OF slots] r(2,3) refl])
      then show ?thesis using True by (simp add: s1)
    next
      case False
      then have "\<And>y. y \<in> set (L j) \<Longrightarrow> side_store s1 y = side_store s y"
        using out xL slots_ok_same [OF slots] by metis
      then show ?thesis using False level_ok_untouched [OF rep j] by (simp add: s1)
    qed
    show "order_ok (s_is_bid (after_order s1 i)) j (side_store (after_order s1 i) y)"
      if y: "y \<in> set ((L(i := L i @ [x])) j)" for j y
    proof (cases "y = x")
      case True
      then have "j = i" using y xL by (auto split: if_splits)
      then show ?thesis using True new r(1) by (simp add: s1)
    next
      case False
      then have "y \<in> set (L j)" using y by (auto split: if_splits)
      from side_rep_order [OF rep this] kept_order_ok [OF kp [OF False]] show ?thesis
        by (simp add: s1)
    qed
  qed (use i side_rep_best [OF rep] in \<open>auto simp: after_order_best s1\<close>)
qed

lemma add_order_rep:
  assumes rep: "side_rep s L (x # F)" and pr: "price_ok price" and rm: "0 < rm" "rm \<le> q"
  obtains s' where
    "add_order s price q rm oid cid rid now =
       (Some x, s', [OnLevelUpdate (if s_is_bid s then BUY else SELL) (levels s' (price_to_index price)) now])"
    "side_rep s' (L(price_to_index price := L (price_to_index price) @ [x])) F"
    "view (side_store s' x) = \<lparr>r_order_id = oid, r_client_id = cid, r_price = price,
       r_quantity = q, r_remaining = rm, r_cumulative = q - rm\<rparr>"
    "\<And>y. y \<noteq> x \<Longrightarrow> kept (side_store s y) (side_store s' y)"
    "s_is_bid s' = s_is_bid s"
    "\<And>j. j \<noteq> price_to_index price \<Longrightarrow> levels s' j = levels s j"
    "best_price_index s' = best_price_index (after_order s (price_to_index price))"
proof -
  let ?i = "price_to_index price"
  let ?r = "new_order (side_store s x) (s_is_bid s) (levels s ?i) price q rm oid cid"
  let ?s1 = "s\<lparr>s_pool := \<lparr>pool = append_links (side_store s) (levels s ?i) x ?r,
                          next_free = o_next (side_store s x)\<rparr>,
               levels := (levels s)(?i := append_level (levels s ?i) x rm)\<rparr>"
  have i: "?i < NUM_BOOK_LEVELS" by (rule price_to_index_less [OF pr])
  have r: "o_next ?r = None" "o_previous ?r = l_last (levels s ?i)"
      "o_order_handle ?r = o_order_handle (side_store s x)" "o_quantity_remaining ?r = rm"
    by (simp_all add: new_order_def)
  have rep': "side_rep (after_order ?s1 ?i) (L(?i := L ?i @ [x])) F"
    by (rule side_rep_add [OF rep i new_order_ok [OF pr rm] r(1,2,3)]) (simp add: r(4))
  have xL: "x \<notin> set (L ?i)" using slots_ok_not_free [OF side_rep_slots [OF rep], of x] by fastforce
  then have nl: "l_last (levels s ?i) \<noteq> Some x"
    using level_ok_last [OF side_rep_level [OF rep i]] by (metis last_in_set option.inject option.simps(3))
  show ?thesis
  proof (rule that [OF _ rep'])
    show "view (side_store (after_order ?s1 ?i) x) = \<lparr>r_order_id = oid, r_client_id = cid,
        r_price = price, r_quantity = q, r_remaining = rm, r_cumulative = q - rm\<rparr>"
      using append_links_new [OF nl] by (simp add: view_def new_order_def)
  qed (simp_all add: add_order_Some [OF rep] append_links_kept after_order_best)
qed

end
