(* ===== verification/Matching.thy ===== *)
theory Matching
  imports Side_Ops "HOL-Library.Sublist"
begin

text \<open>
  The matching loop.  First the lookup tables (\<open>order_by_handle_\<close>, \<open>order_id_to_handle_\<close>) and
  what they say of the resting orders; then the list-level specification of matching; then the
  interface between the loop and the side it works on, as the locale \<open>direction\<close>, in which the
  loop is proved to return and to refine the specification; then its two instances.
\<close>

section \<open>The lookup tables\<close>

definition enc :: "optr \<Rightarrow> nat" where
  "enc p = 2 * slot p + (if in_bids p then 0 else 1)"

lemma enc_inj: "enc p = enc p' \<longleftrightarrow> p = p'"
  by (cases p; cases p') (auto simp: enc_def split: if_splits, presburger+)

lemma enc_bound: "slot p < MAX_ORDERS \<Longrightarrow> enc p < 2 ^ 32"
  by (simp add: enc_def MAX_ORDERS_def)

lemma unat_enc: "slot p < MAX_ORDERS \<Longrightarrow> unat (of_nat (enc p) :: Id_t) = enc p"
  using enc_bound [of p] by (simp add: unat_of_nat take_bit_nat_eq_self)

lemma encoded_handle_enc:
  "o_order_handle r = of_nat x \<Longrightarrow> encoded_handle r = of_nat (enc (OPtr (o_is_bid r) x))"
  by (simp add: encoded_handle_def enc_def)

lemma unat_encoded_handle:
  "o_order_handle r = of_nat x \<Longrightarrow> x < MAX_ORDERS \<Longrightarrow> unat (encoded_handle r) = enc (OPtr (o_is_bid r) x)"
  by (simp add: encoded_handle_enc unat_enc)

text \<open>
  \<open>ids\<close> gives the exchange id of every live order, by pointer.  The handle table holds exactly
  the live pointers, the id table exactly the live ids, each with its pointer's encoding.
\<close>

definition tables_ok :: "(nat \<Rightarrow> optr option) \<Rightarrow> (Id_t \<rightharpoonup> Id_t) \<Rightarrow> (optr \<rightharpoonup> Id_t) \<Rightarrow> bool" where
  "tables_ok bh im ids \<longleftrightarrow>
     (\<forall>p. ids p \<noteq> None \<longrightarrow> slot p < MAX_ORDERS) \<and>
     (\<forall>p. bh (enc p) = (if ids p = None then None else Some p)) \<and>
     (\<forall>i h. im i = Some h \<longleftrightarrow> (\<exists>p. ids p = Some i \<and> h = of_nat (enc p)))"

lemma tables_okD:
  assumes "tables_ok bh im ids"
  shows tables_less: "ids p = Some i \<Longrightarrow> slot p < MAX_ORDERS"
    and tables_handle: "bh (enc p) = (if ids p = None then None else Some p)"
    and tables_id: "im i = Some h \<longleftrightarrow> (\<exists>p. ids p = Some i \<and> h = of_nat (enc p))"
  using assms unfolding tables_ok_def by auto

lemma tables_inj:
  assumes t: "tables_ok bh im ids" and p: "ids p = Some i" "ids p' = Some i"
  shows "p = p'"
proof -
  have "im i = Some (of_nat (enc p))" "im i = Some (of_nat (enc p'))"
    using p by (auto simp: tables_id [OF t])
  then have "unat (of_nat (enc p) :: Id_t) = unat (of_nat (enc p') :: Id_t)" by simp
  then show ?thesis using tables_less [OF t] p by (simp add: unat_enc enc_inj)
qed

lemma tables_None: "tables_ok bh im ids \<Longrightarrow> im i = None \<longleftrightarrow> (\<forall>p. ids p \<noteq> Some i)"
  using tables_id [of bh im ids i] by (metis not_None_eq)

lemma tables_remove:
  assumes t: "tables_ok bh im ids" and i: "ids p = Some i"
  shows "tables_ok (bh(enc p := None)) (im(i := None)) (ids(p := None))"
  unfolding tables_ok_def
proof (intro conjI allI)
  fix p' j h
  show "(ids(p := None)) p' \<noteq> None \<longrightarrow> slot p' < MAX_ORDERS"
    using tables_less [OF t, of p'] by auto
  show "(bh(enc p := None)) (enc p') = (if (ids(p := None)) p' = None then None else Some p')"
    using tables_handle [OF t, of p'] by (auto simp: enc_inj)
  show "((im(i := None)) j = Some h) = (\<exists>p'. (ids(p := None)) p' = Some j \<and> h = of_nat (enc p'))"
  proof (cases "j = i")
    case True
    then have "(ids(p := None)) p' \<noteq> Some j" for p' using tables_inj [OF t i, of p'] by auto
    then show ?thesis using True by simp
  next
    case False
    then have "(ids(p := None)) p' = Some j \<longleftrightarrow> ids p' = Some j" for p' using i by auto
    then show ?thesis using False tables_id [OF t, of j h] by simp
  qed
qed

lemma tables_insert:
  assumes t: "tables_ok bh im ids" and p: "ids p = None" "slot p < MAX_ORDERS" and i: "im i = None"
  shows "tables_ok (bh(enc p := Some p)) (im(i \<mapsto> of_nat (enc p))) (ids(p \<mapsto> i))"
  unfolding tables_ok_def
proof (intro conjI allI)
  fix p' j h
  show "(ids(p \<mapsto> i)) p' \<noteq> None \<longrightarrow> slot p' < MAX_ORDERS"
    using tables_less [OF t, of p'] p(2) by auto
  show "(bh(enc p := Some p)) (enc p') = (if (ids(p \<mapsto> i)) p' = None then None else Some p')"
    using tables_handle [OF t, of p'] by (auto simp: enc_inj)
  show "((im(i \<mapsto> of_nat (enc p))) j = Some h) =
      (\<exists>p'. (ids(p \<mapsto> i)) p' = Some j \<and> h = of_nat (enc p'))"
  proof (cases "j = i")
    case True
    then show ?thesis using tables_None [OF t, of i] p(1) i by auto
  next
    case False
    then have "(ids(p \<mapsto> i)) p' = Some j \<longleftrightarrow> ids p' = Some j" for p' using p(1) by auto
    then show ?thesis using False tables_id [OF t, of j h] by simp
  qed
qed

definition side_ids :: "OrderBookSide \<Rightarrow> (nat \<Rightarrow> nat list) \<Rightarrow> optr \<rightharpoonup> Id_t" where
  "side_ids s L p = (if in_bids p = s_is_bid s \<and> (\<exists>i. slot p \<in> set (L i))
                     then Some (o_order_id (side_store s (slot p))) else None)"

lemma side_ids_kept:
  assumes "s_is_bid s' = s_is_bid s"
    and "\<And>i y. y \<in> set (L i) \<Longrightarrow> o_order_id (side_store s' y) = o_order_id (side_store s y)"
  shows "side_ids s' L = side_ids s L"
  using assms by (auto simp: side_ids_def fun_eq_iff)

lemma side_ids_le:
  assumes "s_is_bid s' = s_is_bid s"
    and "\<And>i y. y \<in> set (L' i) \<Longrightarrow> y \<in> set (L i) \<and> o_order_id (side_store s' y) = o_order_id (side_store s y)"
  shows "side_ids s' L' \<subseteq>\<^sub>m side_ids s L"
  unfolding map_le_def
proof
  fix p assume "p \<in> dom (side_ids s' L')"
  then obtain i where "in_bids p = s_is_bid s'" "slot p \<in> set (L' i)"
    by (auto simp: side_ids_def split: if_splits)
  then show "side_ids s' L' p = side_ids s L p" using assms by (auto simp: side_ids_def)
qed

lemma side_ids_drop:
  assumes slots: "slots_ok L F" and Li: "L i = as @ x # bs" and b: "s_is_bid s' = s_is_bid s"
    and k: "\<And>y. y \<noteq> x \<Longrightarrow> o_order_id (side_store s' y) = o_order_id (side_store s y)"
  shows "side_ids s' (L(i := as @ bs)) = (side_ids s L)(OPtr (s_is_bid s) x := None)"
proof
  fix p :: optr
  have "slots_ok (L(i := as @ bs)) (x # F)" by (rule slots_free [OF slots Li])
  then have nx: "x \<notin> set ((L(i := as @ bs)) j)" for j
    using slots_ok_not_free by (metis list.set_intros(1))
  have mem: "y \<in> set ((L(i := as @ bs)) j) \<longleftrightarrow> y \<in> set (L j) \<and> y \<noteq> x" for y j
    using nx [of j] slots_ok_same [OF slots, of x i j] Li by (cases "j = i") auto
  show "side_ids s' (L(i := as @ bs)) p = ((side_ids s L)(OPtr (s_is_bid s) x := None)) p"
    unfolding side_ids_def mem using b k by (cases p) auto
qed

lemma side_ids_add:
  assumes b: "s_is_bid s' = s_is_bid s"
    and k: "\<And>y. y \<noteq> x \<Longrightarrow> o_order_id (side_store s' y) = o_order_id (side_store s y)"
  shows "side_ids s' (L(i := L i @ [x])) =
     (side_ids s L)(OPtr (s_is_bid s) x \<mapsto> o_order_id (side_store s' x))"
proof
  fix p :: optr
  have mem: "(\<exists>j. y \<in> set ((L(i := L i @ [x])) j)) \<longleftrightarrow> (\<exists>j. y \<in> set (L j)) \<or> y = x" for y
    by auto
  show "side_ids s' (L(i := L i @ [x])) p =
      ((side_ids s L)(OPtr (s_is_bid s) x \<mapsto> o_order_id (side_store s' x))) p"
    unfolding side_ids_def mem using b k by (cases p) auto
qed

section \<open>The list-level specification of matching\<close>

text \<open>
  \<open>spec_match ok q os\<close> trades \<open>q\<close> against the orders \<open>os\<close>, best first, as long as \<open>ok\<close> holds of
  the next order's price: the fills (each with the order as it is after it), the orders left,
  and the quantity left.
\<close>

definition fill :: "Resting \<Rightarrow> Volume_t \<Rightarrow> Resting" where
  "fill r t = r\<lparr>r_remaining := r_remaining r - t, r_cumulative := r_cumulative r + t\<rparr>"

fun spec_match ::
  "(Price_t \<Rightarrow> bool) \<Rightarrow> Volume_t \<Rightarrow> Resting list \<Rightarrow> (Resting \<times> Volume_t) list \<times> Resting list \<times> Volume_t" where
  "spec_match ok q [] = ([], [], q)"
| "spec_match ok q (r # rs) =
     (if q = 0 \<or> \<not> ok (r_price r) then ([], r # rs, q)
      else if r_remaining r \<le> q
      then (case spec_match ok (q - r_remaining r) rs of
              (fs, rest, q') \<Rightarrow> ((fill r (r_remaining r), r_remaining r) # fs, rest, q'))
      else ([(fill r q, q)], fill r q # rs, 0))"

text \<open>What the taker and the feed are told of a list of fills.\<close>

type_synonym trade_info = "Resting \<times> Id_t \<times> Id_t \<times> Price_t \<times> Volume_t \<times> Volume_t \<times> Volume_t \<times> Time_t"

primrec spec_trades ::
  "Id_t \<Rightarrow> Id_t \<Rightarrow> Volume_t \<Rightarrow> Time_t \<Rightarrow> Volume_t \<Rightarrow> (Resting \<times> Volume_t) list \<Rightarrow> trade_info list" where
  "spec_trades cid oid tot now q [] = []"
| "spec_trades cid oid tot now q (f # fs) =
     (fst f, cid, oid, r_price (fst f), tot, tot - (q - snd f), snd f, now)
       # spec_trades cid oid tot now (q - snd f) fs"

fun trade_info :: "BookEvent \<Rightarrow> trade_info list" where
  "trade_info (OnTrade m cid oid p tot cum t now) = [(view m, cid, oid, p, tot, cum, t, now)]"
| "trade_info _ = []"

definition trades_of :: "BookEvent list \<Rightarrow> trade_info list" where
  "trades_of evs = concat (map trade_info evs)"

lemma trades_of_simps [simp]:
  "trades_of [] = []" "trades_of (e # es) = trade_info e @ trades_of es"
  "trades_of (es @ es') = trades_of es @ trades_of es'"
  by (simp_all add: trades_of_def)

lemma kept_id: "kept r r' \<Longrightarrow> o_order_id r' = o_order_id r"
  by (auto simp: kept_def dest: view_eqD)

lemma map_add_upd_None: "m p = None \<Longrightarrow> m ++ n(p := None) = (m ++ n)(p := None)"
  by (auto simp: map_add_def fun_eq_iff)

lemma ids_without:
  assumes slots: "slots_ok L F" and Li: "L i = as @ x # bs" and b: "s_is_bid s' = s_is_bid s"
    and k: "\<And>y. y \<noteq> x \<Longrightarrow> kept (side_store s y) (side_store s' y)" and ot: "ot (OPtr (s_is_bid s) x) = None"
  shows "ot ++ side_ids s' (L(i := as @ bs)) = (ot ++ side_ids s L)(OPtr (s_is_bid s) x := None)"
  by (simp add: side_ids_drop [OF slots Li b kept_id [OF k]] map_add_upd_None ot)

section \<open>One turn of the inner loop\<close>

lemma unlink_front:
  "o_previous (p x) = None \<Longrightarrow>
   unlink p lv x = (case o_next (p x) of
       Some n \<Rightarrow> (upd p n (\<lambda>r. r\<lparr>o_previous := None\<rparr>), lv\<lparr>l_first := Some n\<rparr>)
     | None \<Rightarrow> (p, lv\<lparr>l_first := None, l_last := None\<rparr>))"
  by (auto simp: unlink_def split: option.splits)

text \<open>The store and the level after the trade itself, before any unlinking.\<close>

definition traded :: "store \<Rightarrow> nat \<Rightarrow> Volume_t \<Rightarrow> store" where
  "traded p x t = upd p x (\<lambda>r. r\<lparr>o_quantity_remaining := o_quantity_remaining r - t,
                                 o_quantity_cumulative := o_quantity_cumulative r + t\<rparr>)"

definition trade_event :: "store \<Rightarrow> nat \<Rightarrow> Volume_t \<Rightarrow> Id_t \<Rightarrow> Id_t \<Rightarrow> Volume_t \<Rightarrow> Volume_t \<Rightarrow> Time_t \<Rightarrow> BookEvent" where
  "trade_event p x t oid cid tot q now =
     OnTrade (traded p x t x) cid oid (o_price (p x)) tot (tot - (q - t)) t now"

lemma traded_other [simp]: "y \<noteq> x \<Longrightarrow> traded p x t y = p y"
  by (simp add: traded_def)

lemma traded_same [simp]:
  "traded p x t x = (p x)\<lparr>o_quantity_remaining := o_quantity_remaining (p x) - t,
                        o_quantity_cumulative := o_quantity_cumulative (p x) + t\<rparr>"
  by (simp add: traded_def)

lemma view_traded: "view (traded p x t x) = fill (view (p x)) t"
  by (simp add: view_def fill_def)

lemma fill_front_partial:
  assumes "m_incoming ms < o_quantity_remaining (side_store (m_side ms) x)"
  shows "fill_front adv oid cid tot now k x ms =
    ms\<lparr>m_side := (m_side ms)\<lparr>
          levels := (levels (m_side ms))(k := (levels (m_side ms) k)
            \<lparr>l_total_quantity := l_total_quantity (levels (m_side ms) k) - m_incoming ms\<rparr>),
          s_pool := (s_pool (m_side ms))\<lparr>pool := traded (side_store (m_side ms)) x (m_incoming ms)\<rparr>\<rparr>,
       m_incoming := 0,
       m_events := m_events ms @
         [trade_event (side_store (m_side ms)) x (m_incoming ms) oid cid tot (m_incoming ms) now]\<rparr>"
  using assms
  by (simp add: fill_front_def Let_def min_def trade_event_def traded_def [symmetric] not_le)

lemma fill_front_full:
  assumes le: "o_quantity_remaining (side_store (m_side ms) x) \<le> m_incoming ms"
    and pr: "o_previous (side_store (m_side ms) x) = None"
    and adv: "\<And>s. adv s = s\<lparr>best_price_index := nx (levels s) (best_price_index s)\<rparr>"
    and t: "t = o_quantity_remaining (side_store (m_side ms) x)"
    and u: "unlink (traded (side_store (m_side ms)) x t)
       ((levels (m_side ms) k)\<lparr>l_total_quantity := l_total_quantity (levels (m_side ms) k) - t\<rparr>) x
       = (p2, lv')"
  shows "fill_front adv oid cid tot now k x ms =
     ms\<lparr>m_side := (m_side ms)\<lparr>
           levels := (levels (m_side ms))(k := lv'),
           s_pool := deallocate ((s_pool (m_side ms))\<lparr>pool := p2\<rparr>) x,
           best_price_index :=
             (if l_first lv' = None
              then nx ((levels (m_side ms))(k := lv')) (best_price_index (m_side ms))
              else best_price_index (m_side ms))\<rparr>,
        m_id_to_handle := (m_id_to_handle ms)(o_order_id (p2 x) := None),
        m_by_handle := (m_by_handle ms)(unat (encoded_handle (p2 x)) := None),
        m_incoming := m_incoming ms - t,
        m_events := m_events ms @
          [trade_event (side_store (m_side ms)) x t oid cid tot (m_incoming ms) now]\<rparr>"
proof -
  have mn: "min (o_quantity_remaining (side_store (m_side ms) x)) (m_incoming ms) = t"
    using le by (simp add: t min_def)
  let ?q = "traded (side_store (m_side ms)) x t"
  have "o_previous (?q x) = None" using pr by simp
  note u' = u [unfolded unlink_front [of ?q x, OF this]]
  show ?thesis
  proof (cases "o_next (side_store (m_side ms) x)")
    case None
    with u' mn show ?thesis
      by (auto simp: fill_front_def Let_def trade_event_def traded_def [symmetric] adv t)
  next
    case (Some n)
    with u' mn show ?thesis
      by (auto simp: fill_front_def Let_def trade_event_def traded_def [symmetric] t)
  qed
qed

section \<open>The state of a match in progress\<close>

text \<open>
  \<open>ms_rep ot ms L F\<close>: the maker side represents \<open>L\<close> and \<open>F\<close>, and the tables describe its orders
  together with those \<open>ot\<close> of the other side, which the match does not touch.
\<close>

definition ms_rep :: "(optr \<rightharpoonup> Id_t) \<Rightarrow> MatchState \<Rightarrow> (nat \<Rightarrow> nat list) \<Rightarrow> nat list \<Rightarrow> bool" where
  "ms_rep ot ms L F \<longleftrightarrow>
     side_rep (m_side ms) L F \<and>
     tables_ok (m_by_handle ms) (m_id_to_handle ms) (ot ++ side_ids (m_side ms) L) \<and>
     (\<forall>p. in_bids p = s_is_bid (m_side ms) \<longrightarrow> ot p = None)"

lemma ms_repD:
  assumes "ms_rep ot ms L F"
  shows ms_rep_side: "side_rep (m_side ms) L F"
    and ms_rep_tables: "tables_ok (m_by_handle ms) (m_id_to_handle ms) (ot ++ side_ids (m_side ms) L)"
    and ms_rep_other: "in_bids p = s_is_bid (m_side ms) \<Longrightarrow> ot p = None"
  using assms by (simp_all add: ms_rep_def)

lemma level_front:
  assumes "level_ok p i lv (x # xs)"
  shows "l_first lv = Some x" "o_previous (p x) = None"
  using assms by (auto simp: level_ok_def)

lemma order_ok_trade:
  assumes "order_ok b i r" and "t < o_quantity_remaining r"
  shows "order_ok b i (r\<lparr>o_quantity_remaining := o_quantity_remaining r - t,
                        o_quantity_cumulative := o_quantity_cumulative r + t\<rparr>)"
proof -
  have le: "unat t < unat (o_quantity_remaining r)" using assms(2) by (simp add: word_less_nat_alt)
  have "unat (o_quantity_cumulative r) + unat t < 2 ^ 32"
    using assms(1) le unat_less_2p [of "o_quantity r"] by (simp add: order_ok_def)
  then show ?thesis
    using assms le
    by (simp add: order_ok_def unat_add_bounded unat_diff_le word_le_nat_alt word_less_nat_alt)
qed

lemma ms_rep_partial:
  assumes rep: "ms_rep ot ms L F" and Lk: "L k = x # xs"
    and lt: "m_incoming ms < o_quantity_remaining (side_store (m_side ms) x)"
  shows "ms_rep ot (fill_front adv oid cid tot now k x ms) L F"
proof -
  let ?s = "m_side ms" and ?ms' = "fill_front adv oid cid tot now k x ms"
  note side = ms_rep_side [OF rep]
  have x: "x \<in> set (L k)" using Lk by simp
  have ms': "m_side ?ms' = ?s\<lparr>
      levels := (levels ?s)(k := (levels ?s k)\<lparr>l_total_quantity := l_total_quantity (levels ?s k) - m_incoming ms\<rparr>),
      s_pool := (s_pool ?s)\<lparr>pool := traded (side_store ?s) x (m_incoming ms)\<rparr>\<rparr>"
    "m_by_handle ?ms' = m_by_handle ms" "m_id_to_handle ?ms' = m_id_to_handle ms"
    by (simp_all add: fill_front_partial [OF lt])
  have "side_rep (m_side ?ms') L F"
    by (rule side_rep_modify [OF side x, where t = "m_incoming ms" and
          g = "\<lambda>r. r\<lparr>o_quantity_remaining := o_quantity_remaining r - m_incoming ms,
                    o_quantity_cumulative := o_quantity_cumulative r + m_incoming ms\<rparr>"])
      (use order_ok_trade [OF side_rep_order [OF side x] lt] side_rep_best [OF side] in
        \<open>simp_all add: ms' traded_def\<close>)
  moreover have "side_ids (m_side ?ms') L = side_ids ?s L"
    by (rule side_ids_kept) (auto simp: ms' traded_def upd_apply)
  ultimately show ?thesis using rep by (simp add: ms_rep_def ms')
qed

lemma level_total_nonempty: "level_ok p i lv xs \<Longrightarrow> 0 < l_total_quantity lv \<Longrightarrow> xs \<noteq> []"
  by (auto simp: level_ok_def)

text \<open>What a step of the match leaves alone: every level but \<open>k\<close>, and the orders on them.\<close>

definition same_but :: "nat \<Rightarrow> OrderBookSide \<Rightarrow> (nat \<Rightarrow> nat list) \<Rightarrow> OrderBookSide \<Rightarrow> (nat \<Rightarrow> nat list) \<Rightarrow> bool" where
  "same_but k s L s' L' \<longleftrightarrow>
     s_is_bid s' = s_is_bid s \<and>
     (\<forall>j. j \<noteq> k \<longrightarrow> levels s' j = levels s j \<and> L' j = L j \<and>
        (\<forall>y \<in> set (L j). view (side_store s' y) = view (side_store s y)))"

lemma same_but_refl: "same_but k s L s L"
  by (simp add: same_but_def)

lemma same_but_trans: "same_but k s L s' L' \<Longrightarrow> same_but k s' L' s'' L'' \<Longrightarrow> same_but k s L s'' L''"
  by (simp add: same_but_def)

lemma best_after_drop:
  assumes side: "side_rep s L F" and k: "k < NUM_BOOK_LEVELS" and lev: "levels s' = (levels s)(k := lv')"
    and best: "best_price_index s' = (if xs = [] then nx (levels s') k else k)"
    and nx: "\<And>lv. nx lv k = NUM_BOOK_LEVELS \<or>
       nx lv k < NUM_BOOK_LEVELS \<and> nx lv k \<noteq> k \<and> 0 < l_total_quantity (lv (nx lv k))"
    and some: "best_price_index s' \<noteq> NUM_BOOK_LEVELS"
  shows "best_price_index s' < NUM_BOOK_LEVELS \<and> (L(k := xs)) (best_price_index s') \<noteq> []"
proof (cases "xs = []")
  case True
  let ?b = "nx (levels s') k"
  have b: "?b < NUM_BOOK_LEVELS" "?b \<noteq> k" "0 < l_total_quantity (levels s' ?b)"
    using nx [of "levels s'"] some best True by auto
  then have "L ?b \<noteq> []"
    using level_total_nonempty [OF side_rep_level [OF side b(1)]] by (simp add: lev)
  then show ?thesis using b best True by simp
next
  case False
  then show ?thesis using best k by simp
qed

lemma ms_rep_full:
  assumes rep: "ms_rep ot ms L F" and Lk: "L k = x # xs" and bk: "best_price_index (m_side ms) = k"
    and le: "o_quantity_remaining (side_store (m_side ms) x) \<le> m_incoming ms"
    and adv: "\<And>s. adv s = s\<lparr>best_price_index := nx (levels s) (best_price_index s)\<rparr>"
    and nx: "\<And>lv. nx lv k = NUM_BOOK_LEVELS \<or>
       nx lv k < NUM_BOOK_LEVELS \<and> nx lv k \<noteq> k \<and> 0 < l_total_quantity (lv (nx lv k))"
    and ms': "ms' = fill_front adv oid cid tot now k x ms"
  shows "ms_rep ot ms' (L(k := xs)) (x # F)"
    and "\<And>y. y \<noteq> x \<Longrightarrow> view (side_store (m_side ms') y) = view (side_store (m_side ms) y)"
    and "same_but k (m_side ms) L (m_side ms') (L(k := xs))"
    and "m_incoming ms' = m_incoming ms - o_quantity_remaining (side_store (m_side ms) x)"
    and "m_events ms' = m_events ms @ [trade_event (side_store (m_side ms)) x
           (o_quantity_remaining (side_store (m_side ms) x)) oid cid tot (m_incoming ms) now]"
    and "best_price_index (m_side ms') = (if xs = [] then nx (levels (m_side ms')) k else k)"
proof -
  let ?s = "m_side ms" and ?t = "o_quantity_remaining (side_store (m_side ms) x)"
  let ?q = "traded (side_store ?s) x ?t"
  let ?lv = "(levels ?s k)\<lparr>l_total_quantity := l_total_quantity (levels ?s k) - ?t\<rparr>"
  note side = ms_rep_side [OF rep] and tabs = ms_rep_tables [OF rep]
  note slots = side_rep_slots [OF side]
  have xk: "x \<in> set (L k)" and Lk': "L k = [] @ x # xs" using Lk by simp_all
  have kN: "k < NUM_BOOK_LEVELS" and xm: "x < MAX_ORDERS"
    using slots_ok_idx [OF slots xk] slots_ok_less [OF slots xk] by auto
  have lvk: "level_ok (side_store ?s) k (levels ?s k) (x # xs)" using side_rep_level [OF side kN] Lk by simp
  obtain p2 lv' where u: "unlink ?q ?lv x = (p2, lv')" by fastforce
  note eq = fill_front_full [OF le level_front(2) [OF lvk] adv refl u, of oid cid tot now, folded ms']
  let ?s' = "m_side ms'"
  have lev: "levels ?s' = (levels ?s)(k := lv')" and isb: "s_is_bid ?s' = s_is_bid ?s"
    and pl: "s_pool ?s' = deallocate ((s_pool ?s)\<lparr>pool := p2\<rparr>) x"
    and bh: "m_by_handle ms' = (m_by_handle ms)(unat (encoded_handle (p2 x)) := None)"
    and im: "m_id_to_handle ms' = (m_id_to_handle ms)(o_order_id (p2 x) := None)"
    by (simp_all add: eq)
  have sgq: "seg ?q None (l_first ?lv) ([] @ x # xs) (l_last ?lv) None"
    using lvk by (subst seg_cong [of _ _ "side_store ?s"]) (auto simp: level_ok_def upd_apply traded_def)
  have d: "distinct ([] @ x # xs)" using slots_ok_distinct [OF slots, of k] Lk by simp
  have fst: "l_first lv' = None \<longleftrightarrow> xs = []"
    using seg_None_first [OF seg_unlink [OF sgq d u]] by simp
  show best: "best_price_index ?s' = (if xs = [] then nx (levels ?s') k else k)"
    using fst bk by (simp add: eq lev)
  have bestok: "best_price_index ?s' < NUM_BOOK_LEVELS \<and> (L(k := [] @ xs)) (best_price_index ?s') \<noteq> []"
    if "best_price_index ?s' \<noteq> NUM_BOOK_LEVELS"
    using best_after_drop [where nx = nx and xs = xs, OF side kN lev best nx that] by simp
  have drop: "side_rep ?s' (L(k := [] @ xs)) (x # F)"
    and kp: "\<And>y. y \<noteq> x \<Longrightarrow> kept (side_store ?s y) (side_store ?s' y)"
    by (rule side_rep_drop [OF side Lk' _ _ _ _ _ _ _ _ _ u lev pl isb bestok]; simp)+
  show vw: "view (side_store ?s' y) = view (side_store ?s y)" if "y \<noteq> x" for y
    using kp [OF that] by (simp add: kept_def)
  have p2x: "o_order_id (p2 x) = o_order_id (side_store ?s x)" "o_is_bid (p2 x) = s_is_bid ?s"
      "o_order_handle (p2 x) = of_nat x"
    using unlink_kept [OF u, of x] side_rep_order [OF side xk] side_rep_handle [OF side xm]
    by (auto simp: kept_def order_ok_def dest: view_eqD)
  let ?p = "OPtr (s_is_bid ?s) x"
  have idx: "(ot ++ side_ids ?s L) ?p = Some (o_order_id (side_store ?s x))"
    using xk by (auto simp: side_ids_def map_add_def)
  have ids: "ot ++ side_ids ?s' (L(k := [] @ xs)) = (ot ++ side_ids ?s L)(?p := None)"
    using ms_rep_other [OF rep, of ?p] by (intro ids_without [OF slots Lk' isb kp]) simp_all
  have "tables_ok (m_by_handle ms') (m_id_to_handle ms') (ot ++ side_ids ?s' (L(k := [] @ xs)))"
    using tables_remove [OF tabs idx] unat_encoded_handle [OF p2x(3) xm] p2x
    by (simp only: bh im ids)
  then show "ms_rep ot ms' (L(k := xs)) (x # F)"
    using drop rep isb by (simp add: ms_rep_def)
  have "y \<in> set (L j) \<Longrightarrow> j \<noteq> k \<Longrightarrow> y \<noteq> x" for y j using slots_ok_same [OF slots xk] by blast
  then show "same_but k ?s L ?s' (L(k := xs))" using vw isb lev by (simp add: same_but_def)
  show "m_incoming ms' = m_incoming ms - ?t" "m_events ms' = m_events ms @
      [trade_event (side_store ?s) x ?t oid cid tot (m_incoming ms) now]"
    by (simp_all add: eq)
qed

section \<open>Facts about the specification\<close>

lemma spec_match_zero: "spec_match ok 0 rs = ([], rs, 0)"
  by (cases rs) auto

lemma spec_match_stop: "rs \<noteq> [] \<Longrightarrow> \<not> ok (r_price (hd rs)) \<Longrightarrow> spec_match ok q rs = ([], rs, q)"
  by (cases rs) auto

lemma spec_match_cong:
  "(\<And>r. r \<in> set rs \<Longrightarrow> ok (r_price r) = ok' (r_price r)) \<Longrightarrow> spec_match ok q rs = spec_match ok' q rs"
proof (induction rs arbitrary: q)
  case Nil
  then show ?case by simp
next
  case (Cons r rs)
  then have "spec_match ok (q - r_remaining r) rs = spec_match ok' (q - r_remaining r) rs" by simp
  with Cons.prems [of r] show ?case by simp
qed

lemma spec_match_append:
  "spec_match ok q (as @ bs) =
     (case spec_match ok q as of
        (fs, rest, q') \<Rightarrow>
          if rest = [] then (case spec_match ok q' bs of (fs', rest', q'') \<Rightarrow> (fs @ fs', rest', q''))
          else (fs, rest @ bs, q'))"
  by (induction as arbitrary: q) (auto split: prod.splits)

lemma spec_trades_append:
  "spec_trades cid oid tot now q (fs @ fs') =
     spec_trades cid oid tot now q fs @ spec_trades cid oid tot now (q - sum_list (map snd fs)) fs'"
  by (induction fs arbitrary: q) (auto simp: algebra_simps)

lemma spec_match_left: "spec_match ok q rs = (fs, rest, q') \<Longrightarrow> q' = q - sum_list (map snd fs)"
proof (induction rs arbitrary: q fs)
  case Nil
  then show ?case by simp
next
  case (Cons r rs)
  then show ?case by (fastforce simp: algebra_simps split: if_splits prod.splits)
qed

text \<open>Nothing is lost: what is filled leaves the incoming quantity and the resting orders alike.\<close>

lemma spec_match_conserve:
  "spec_match ok q rs = (fs, rest, q') \<Longrightarrow>
   unat q = (\<Sum>f\<leftarrow>fs. unat (snd f)) + unat q' \<and>
   (\<Sum>r\<leftarrow>rs. unat (r_remaining r)) = (\<Sum>f\<leftarrow>fs. unat (snd f)) + (\<Sum>r\<leftarrow>rest. unat (r_remaining r))"
proof (induction rs arbitrary: q fs)
  case Nil
  then show ?case by simp
next
  case (Cons r rs)
  consider "q = 0 \<or> \<not> ok (r_price r)" | "q \<noteq> 0" "ok (r_price r)" "r_remaining r \<le> q"
    | "q \<noteq> 0" "ok (r_price r)" "\<not> r_remaining r \<le> q" by blast
  then show ?case
  proof cases
    case 1
    with Cons.prems show ?thesis by auto
  next
    case 2
    then obtain fs0 where m: "spec_match ok (q - r_remaining r) rs = (fs0, rest, q')"
      and fs: "fs = (fill r (r_remaining r), r_remaining r) # fs0"
      using Cons.prems by (auto split: prod.splits)
    have "unat q = unat (r_remaining r) + unat (q - r_remaining r)"
      using 2(3) by (simp add: unat_diff_le word_le_nat_alt)
    with Cons.IH [OF m] fs show ?thesis by simp
  next
    case 3
    then have "unat q < unat (r_remaining r)" by (simp add: word_le_nat_alt)
    with 3 Cons.prems show ?thesis by (auto simp: fill_def unat_diff_le word_le_nat_alt)
  qed
qed

lemma spec_match_rest_price: "spec_match ok q rs = (fs, rest, q') \<Longrightarrow> rest \<noteq> [] \<Longrightarrow> q' = 0 \<or> \<not> ok (r_price (hd rest))"
proof (induction rs arbitrary: q fs)
  case Nil
  then show ?case by simp
next
  case (Cons r rs)
  then show ?case by (fastforce split: if_splits prod.splits)
qed

section \<open>The interface between the loop and its side\<close>

definition queue :: "OrderBookSide \<Rightarrow> nat list \<Rightarrow> Resting list" where
  "queue s xs = map (\<lambda>x. view (side_store s x)) xs"

lemma queue_simps [simp]:
  "queue s [] = []" "queue s (x # xs) = view (side_store s x) # queue s xs"
  "queue s (xs @ ys) = queue s xs @ queue s ys" "queue s xs = [] \<longleftrightarrow> xs = []"
  by (simp_all add: queue_def)

lemma queue_cong:
  "(\<And>x. x \<in> set xs \<Longrightarrow> view (side_store s' x) = view (side_store s x)) \<Longrightarrow> queue s' xs = queue s xs"
  by (simp add: queue_def)

text \<open>No level's volume exceeds what its 32-bit total can hold.\<close>

definition fits :: "OrderBookSide \<Rightarrow> (nat \<Rightarrow> nat list) \<Rightarrow> bool" where
  "fits s L \<longleftrightarrow> (\<forall>i<NUM_BOOK_LEVELS. (\<Sum>r\<leftarrow>queue s (L i). unat (r_remaining r)) < 2 ^ 32)"

lemma unat_sum_list:
  "(\<Sum>w\<leftarrow>ws. unat w) < 2 ^ LENGTH('a) \<Longrightarrow> unat (sum_list ws) = (\<Sum>w\<leftarrow>ws. unat (w :: 'a::len word))"
  by (induction ws) (simp_all add: unat_add_bounded)

lemma level_total_unat:
  assumes rep: "side_rep s L F" and f: "fits s L" and i: "i < NUM_BOOK_LEVELS"
  shows "unat (l_total_quantity (levels s i)) = (\<Sum>r\<leftarrow>queue s (L i). unat (r_remaining r))"
  using side_rep_level [OF rep i] f i
    unat_sum_list [of "map (\<lambda>x. o_quantity_remaining (side_store s x)) (L i)"]
  by (simp add: level_ok_def fits_def queue_def comp_def)

lemma level_total_pos:
  assumes rep: "side_rep s L F" and f: "fits s L" and i: "i < NUM_BOOK_LEVELS"
  shows "0 < l_total_quantity (levels s i) \<longleftrightarrow> L i \<noteq> []"
proof
  show "0 < l_total_quantity (levels s i) \<Longrightarrow> L i \<noteq> []"
    by (rule level_total_nonempty [OF side_rep_level [OF rep i]])
  assume "L i \<noteq> []"
  then obtain x xs where L: "L i = x # xs" by (cases "L i") auto
  have "0 < unat (o_quantity_remaining (side_store s x))"
    using side_rep_order [OF rep, of x i] L by (simp add: order_ok_def word_less_nat_alt)
  then have "0 < unat (l_total_quantity (levels s i))"
    using level_total_unat [OF rep f i] L by simp
  then show "0 < l_total_quantity (levels s i)" by (simp add: word_less_nat_alt)
qed

text \<open>
  The best index is right: there is a level with orders only if the index names one, and then
  none of them is better.  And the orders of a side in priority order: the levels as \<open>prio\<close>
  lists them, each in time order.
\<close>

definition best_ok :: "(nat \<Rightarrow> nat \<Rightarrow> bool) \<Rightarrow> OrderBookSide \<Rightarrow> (nat \<Rightarrow> nat list) \<Rightarrow> bool" where
  "best_ok better s L \<longleftrightarrow> (\<forall>i<NUM_BOOK_LEVELS. L i \<noteq> [] \<longrightarrow>
     best_price_index s < NUM_BOOK_LEVELS \<and> \<not> better i (best_price_index s))"

definition book_queue :: "nat list \<Rightarrow> OrderBookSide \<Rightarrow> (nat \<Rightarrow> nat list) \<Rightarrow> Resting list" where
  "book_queue prio s L = concat (map (\<lambda>i. queue s (L i)) prio)"

text \<open>The inner loop on an empty level, with nothing left to fill, and on an order it cannot exhaust.\<close>

lemma match_level_empty:
  assumes "ms_rep ot ms L F" and "k < NUM_BOOK_LEVELS" and "L k = []"
  shows "match_level adv oid cid tot now k ms = Some ms"
proof -
  have "l_first (levels (m_side ms) k) = None"
    using level_ok_first [OF side_rep_level [OF ms_rep_side [OF assms(1)] assms(2)]] assms(3) by simp
  then show ?thesis by (subst match_level.simps) simp
qed

lemma match_level_zero: "m_incoming ms = 0 \<Longrightarrow> match_level adv oid cid tot now k ms = Some ms"
  by (subst match_level.simps) simp

lemma match_level_front:
  assumes "ms_rep ot ms L F" and "k < NUM_BOOK_LEVELS" and "L k = x # xs" and "0 < m_incoming ms"
  shows "match_level adv oid cid tot now k ms =
     match_level adv oid cid tot now k (fill_front adv oid cid tot now k x ms)"
proof -
  have "l_first (levels (m_side ms) k) = Some x"
    using level_ok_first [OF side_rep_level [OF ms_rep_side [OF assms(1)] assms(2)]] assms(3) by simp
  then show ?thesis using assms(4) by (subst match_level.simps) simp
qed

lemma trade_event_is_trade: "is_OnTrade (trade_event p x t oid cid tot q now)"
  by (simp add: trade_event_def)

lemma trades_of_trade_event:
  "trades_of [trade_event p x t oid cid tot q now] =
     spec_trades cid oid tot now q [(fill (view (p x)) t, t)]"
  by (simp add: trade_event_def view_traded del: traded_same) (simp add: fill_def)

lemma fill_front_partial_spec:
  assumes rep: "ms_rep ot ms L F" and Lk: "L k = x # xs"
    and lt: "m_incoming ms < o_quantity_remaining (side_store (m_side ms) x)"
    and ms': "ms' = fill_front adv oid cid tot now k x ms"
  shows "queue (m_side ms') (L k) =
      fill (view (side_store (m_side ms) x)) (m_incoming ms) # queue (m_side ms) xs"
    and "same_but k (m_side ms) L (m_side ms') L"
    and "m_incoming ms' = 0" and "best_price_index (m_side ms') = best_price_index (m_side ms)"
    and "m_events ms' = m_events ms @
      [trade_event (side_store (m_side ms)) x (m_incoming ms) oid cid tot (m_incoming ms) now]"
proof -
  note eq = fill_front_partial [OF lt, of adv oid cid tot now k, folded ms']
  show "m_incoming ms' = 0" "best_price_index (m_side ms') = best_price_index (m_side ms)"
    "m_events ms' = m_events ms @
      [trade_event (side_store (m_side ms)) x (m_incoming ms) oid cid tot (m_incoming ms) now]"
    by (simp_all add: eq)
  note slots = side_rep_slots [OF ms_rep_side [OF rep]]
  have nx: "x \<notin> set xs" using slots_ok_distinct [OF slots, of k] Lk by simp
  have nj: "j \<noteq> k \<Longrightarrow> x \<notin> set (L j)" for j using slots_ok_same [OF slots, of x k j] Lk by auto
  have st: "side_store (m_side ms') = traded (side_store (m_side ms)) x (m_incoming ms)"
    by (simp add: eq)
  have "queue (m_side ms') xs = queue (m_side ms) xs"
    using nx by (intro queue_cong) (auto simp: st traded_def upd_apply)
  then show "queue (m_side ms') (L k) =
      fill (view (side_store (m_side ms) x)) (m_incoming ms) # queue (m_side ms) xs"
    using view_traded [of "side_store (m_side ms)" x] by (simp add: Lk st del: traded_same)
  show "same_but k (m_side ms) L (m_side ms') L"
    using nj by (auto simp: same_but_def eq traded_def upd_apply)
qed

lemma fill_front_partial_ids:
  assumes "m_incoming ms < o_quantity_remaining (side_store (m_side ms) x)"
  shows "o_order_id (side_store (m_side (fill_front adv oid cid tot now k x ms)) y)
    = o_order_id (side_store (m_side ms) y)"
  by (simp add: fill_front_partial [OF assms] traded_def upd_apply)

text \<open>
  What the inner loop has done at level \<open>k\<close> when it has filled as \<open>fs\<close> says, left \<open>rest\<close> on the level
  and \<open>q'\<close> of the incoming quantity.
\<close>

definition level_matched where
  "level_matched ot nx oid cid tot now k L ms fs rest q' ms' \<longleftrightarrow>
     (\<exists>F' ys evs. ms_rep ot ms' (L(k := ys)) F' \<and> queue (m_side ms') ys = rest \<and> m_incoming ms' = q' \<and>
     same_but k (m_side ms) L (m_side ms') (L(k := ys)) \<and>
     suffix ys (L k) \<and> m_events ms' = m_events ms @ evs \<and> (\<forall>e \<in> set evs. is_OnTrade e) \<and>
     trades_of evs = spec_trades cid oid tot now (m_incoming ms) fs \<and>
     (\<forall>y \<in> set ys. o_order_id (side_store (m_side ms') y) = o_order_id (side_store (m_side ms) y)) \<and>
     (L k \<noteq> [] \<longrightarrow>
       best_price_index (m_side ms') = (if ys = [] then nx (levels (m_side ms')) k else k)))"

lemma level_matched_nothing:
  assumes "ms_rep ot ms L F" and "L k \<noteq> [] \<Longrightarrow> best_price_index (m_side ms) = k"
  shows "level_matched ot nx oid cid tot now k L ms [] (queue (m_side ms) (L k)) (m_incoming ms) ms"
  using assms same_but_refl unfolding level_matched_def
  by (intro exI [of _ F] exI [of _ "L k"] exI [of _ "[]"]) simp

lemma level_matched_partial:
  assumes rep: "ms_rep ot ms L F" and Lk: "L k = x # xs" and bk: "best_price_index (m_side ms) = k"
    and lt: "m_incoming ms < o_quantity_remaining (side_store (m_side ms) x)"
  shows "level_matched ot nx oid cid tot now k L ms
     [(fill (view (side_store (m_side ms) x)) (m_incoming ms), m_incoming ms)]
     (fill (view (side_store (m_side ms) x)) (m_incoming ms) # queue (m_side ms) xs) 0
     (fill_front adv oid cid tot now k x ms)"
proof -
  note p = fill_front_partial_spec [OF rep Lk lt refl, of adv oid cid tot now]
  have same: "L(k := x # xs) = L" using Lk by auto
  show ?thesis
    unfolding level_matched_def
    using p fill_front_partial_ids [OF lt, of adv oid cid tot now k] ms_rep_partial [OF rep Lk lt, of adv oid cid tot now]
      same bk Lk trades_of_trade_event [of "side_store (m_side ms)" x "m_incoming ms" oid cid tot "m_incoming ms" now]
    by (intro exI [of _ F] exI [of _ "x # xs"] exI) (auto simp: trade_event_is_trade)
qed

lemma level_matched_full:
  assumes rep: "ms_rep ot ms L F" and Lk: "L k = x # xs" and bk: "best_price_index (m_side ms) = k"
    and le: "o_quantity_remaining (side_store (m_side ms) x) \<le> m_incoming ms"
    and adv: "\<And>s. adv s = s\<lparr>best_price_index := nx (levels s) (best_price_index s)\<rparr>"
    and nx: "\<And>lv. nx lv k = NUM_BOOK_LEVELS \<or>
       nx lv k < NUM_BOOK_LEVELS \<and> nx lv k \<noteq> k \<and> 0 < l_total_quantity (lv (nx lv k))"
    and ms1: "ms1 = fill_front adv oid cid tot now k x ms"
    and IH: "level_matched ot nx oid cid tot now k (L(k := xs)) ms1 fs1 rest q' ms'"
    and nil: "xs = [] \<Longrightarrow> ms' = ms1 \<and> rest = []"
  shows "level_matched ot nx oid cid tot now k L ms
     ((fill (view (side_store (m_side ms) x)) (o_quantity_remaining (side_store (m_side ms) x)),
       o_quantity_remaining (side_store (m_side ms) x)) # fs1) rest q' ms'"
proof -
  let ?r = "side_store (m_side ms) x"
  note f = ms_rep_full [where adv = adv and nx = nx, OF rep Lk bk le adv nx ms1]
  have x: "x \<notin> set xs"
    using slots_ok_distinct [OF side_rep_slots [OF ms_rep_side [OF rep]], of k] Lk by simp
  obtain F' ys evs where m:
    "ms_rep ot ms' (L(k := ys)) F'" "queue (m_side ms') ys = rest" "m_incoming ms' = q'"
    "same_but k (m_side ms1) (L(k := xs)) (m_side ms') (L(k := ys))" "m_events ms' = m_events ms1 @ evs"
    "suffix ys xs" "\<forall>e \<in> set evs. is_OnTrade e" "trades_of evs = spec_trades cid oid tot now (m_incoming ms1) fs1"
    "xs \<noteq> [] \<longrightarrow> best_price_index (m_side ms') = (if ys = [] then nx (levels (m_side ms')) k else k)"
    "\<And>y. y \<in> set ys \<Longrightarrow> o_order_id (side_store (m_side ms') y) = o_order_id (side_store (m_side ms1) y)"
    using IH unfolding level_matched_def fun_upd_upd fun_upd_same by blast
  have "xs = [] \<Longrightarrow> ys = []" using m(6) by simp
  then have best: "best_price_index (m_side ms') = (if ys = [] then nx (levels (m_side ms')) k else k)"
    using m(9) f(6) nil by (cases "xs = []") auto
  have ids: "o_order_id (side_store (m_side ms') y) = o_order_id (side_store (m_side ms) y)" if "y \<in> set ys" for y
  proof -
    have "y \<noteq> x" using that x set_mono_suffix [OF m(6)] by blast
    then show ?thesis using m(10) [OF that] f(2) [of y] by (simp add: view_def)
  qed
  show ?thesis
    unfolding level_matched_def
    using m(1-5,7,8) suffix_ConsI [OF m(6), of x] Lk best ids f(5) same_but_trans [OF f(3) m(4)]
      trades_of_trade_event [of "side_store (m_side ms)" x "o_quantity_remaining ?r" oid cid tot "m_incoming ms" now]
    by (intro exI [of _ F'] exI [of _ ys]
        exI [of _ "trade_event (side_store (m_side ms)) x (o_quantity_remaining ?r) oid cid tot (m_incoming ms) now # evs"])
      (simp add: f(4) trade_event_is_trade)
qed

text \<open>
  The interface the template \<open>match_loop\<close> has to its side: \<open>better i j\<close> orders the level indices,
  \<open>prio\<close> lists them best first, \<open>adv\<close> is \<open>advance_best\<close>, which moves the best index to \<open>nx\<close>, and
  \<open>crosses\<close> compares a level price with the incoming price.
\<close>

locale direction =
  fixes better :: "nat \<Rightarrow> nat \<Rightarrow> bool"
    and prio :: "nat list"
    and adv :: "OrderBookSide \<Rightarrow> OrderBookSide"
    and nx :: "(nat \<Rightarrow> PriceLevel) \<Rightarrow> nat \<Rightarrow> nat"
    and crosses :: "Price_t \<Rightarrow> Price_t \<Rightarrow> bool"
  assumes adv_eq: "adv s = s\<lparr>best_price_index := nx (levels s) (best_price_index s)\<rparr>"
    and nx_worse: "k < NUM_BOOK_LEVELS \<Longrightarrow> nx lv k = NUM_BOOK_LEVELS \<or>
      nx lv k < NUM_BOOK_LEVELS \<and> better k (nx lv k) \<and> 0 < l_total_quantity (lv (nx lv k))"
    and nx_first: "k < NUM_BOOK_LEVELS \<Longrightarrow> i < NUM_BOOK_LEVELS \<Longrightarrow> better k i \<Longrightarrow>
      0 < l_total_quantity (lv i) \<Longrightarrow> nx lv k < NUM_BOOK_LEVELS \<and> \<not> better i (nx lv k)"
    and better_irrefl: "\<not> better i i"
    and better_trans: "better i j \<Longrightarrow> better j k \<Longrightarrow> better i k"
    and better_total: "i \<noteq> j \<Longrightarrow> better i j \<or> better j i"
    and prio_set: "set prio = {..<NUM_BOOK_LEVELS}"
    and prio_sorted: "sorted_wrt better prio"
    and crosses_better: "better i j \<Longrightarrow> crosses (MINIMUM_BID + int j) p \<Longrightarrow> crosses (MINIMUM_BID + int i) p"
begin

text \<open>The inner loop fills the level's orders as the specification does.\<close>

lemma match_level_spec:
  assumes "ms_rep ot ms L F" and "k < NUM_BOOK_LEVELS"
    and "L k \<noteq> [] \<Longrightarrow> best_price_index (m_side ms) = k"
    and "spec_match (\<lambda>_. True) (m_incoming ms) (queue (m_side ms) (L k)) = (fs, rest, q')"
  shows "\<exists>ms'. match_level adv oid cid tot now k ms = Some ms' \<and>
     level_matched ot nx oid cid tot now k L ms fs rest q' ms'"
  using assms
proof (induction "L k" arbitrary: ms L F fs)
  case Nil
  then show ?case
    using level_matched_nothing [OF Nil.prems(1,3)] match_level_empty [OF Nil.prems(1,2)] by fastforce
next
  case (Cons x xs)
  note rep = Cons.prems(1) and kN = Cons.prems(2) and Lk = Cons.hyps(2) [symmetric] and spec = Cons.prems(4)
  let ?r = "side_store (m_side ms) x" and ?ms1 = "fill_front adv oid cid tot now k x ms"
  have bk: "best_price_index (m_side ms) = k" using Cons.prems(3) Lk by simp
  consider (fin) "m_incoming ms = 0"
    | (full) "0 < m_incoming ms" "o_quantity_remaining ?r \<le> m_incoming ms"
    | (part) "0 < m_incoming ms" "m_incoming ms < o_quantity_remaining ?r"
    by (metis not_le word_gt_0)
  then show ?case
  proof cases
    case fin
    then show ?thesis
      using spec level_matched_nothing [OF rep Cons.prems(3)] match_level_zero [OF fin]
      by (auto simp: spec_match_zero)
  next
    case part
    have "fs = [(fill (view ?r) (m_incoming ms), m_incoming ms)]" "q' = 0"
      "rest = fill (view ?r) (m_incoming ms) # queue (m_side ms) xs"
      using spec part Lk by (auto simp: word_gt_0 not_le [symmetric])
    then show ?thesis
      using level_matched_partial [OF rep Lk bk part(2)] match_level_front [OF rep kN Lk part(1)]
        match_level_zero [OF fill_front_partial_spec(3) [OF rep Lk part(2) refl]] by simp
  next
    case full
    have nxk: "nx lv k = NUM_BOOK_LEVELS \<or> nx lv k < NUM_BOOK_LEVELS \<and> nx lv k \<noteq> k \<and>
        0 < l_total_quantity (lv (nx lv k))" for lv
      using nx_worse [OF kN, of lv] better_irrefl by metis
    note f = ms_rep_full [where adv = adv and nx = nx and oid = oid and cid = cid and tot = tot and now = now,
        OF rep Lk bk full(2) adv_eq nxk refl]
    have "x \<notin> set xs"
      using slots_ok_distinct [OF side_rep_slots [OF ms_rep_side [OF rep]], of k] Lk by simp
    then have q1: "queue (m_side ?ms1) xs = queue (m_side ms) xs" using f(2) by (intro queue_cong) metis
    obtain fs1 where s1: "spec_match (\<lambda>_. True) (m_incoming ?ms1) (queue (m_side ?ms1) ((L(k := xs)) k)) = (fs1, rest, q')"
      and fs: "fs = (fill (view ?r) (o_quantity_remaining ?r), o_quantity_remaining ?r) # fs1"
      using spec full Lk by (auto simp: f(4) q1 word_gt_0 split: prod.splits)
    have b1: "(L(k := xs)) k \<noteq> [] \<Longrightarrow> best_price_index (m_side ?ms1) = k" using f(6) by simp
    obtain ms' where IH: "match_level adv oid cid tot now k ?ms1 = Some ms'"
      "level_matched ot nx oid cid tot now k (L(k := xs)) ?ms1 fs1 rest q' ms'"
      using Cons.hyps(1) [OF fun_upd_same [symmetric] f(1) kN b1 s1] by blast
    have "ms' = ?ms1 \<and> rest = []" if "xs = []" using match_level_empty [OF f(1) kN] IH(1) s1 that by simp
    then show ?thesis
      using level_matched_full [where nx = nx and adv = adv, OF rep Lk bk full(2) adv_eq nxk refl IH(2)] IH(1)
        match_level_front [OF rep kN Lk full(1), of adv oid cid tot now] fs by simp
  qed
qed

end

end
