(* ===== verification/Match_Loop.thy ===== *)
theory Match_Loop
  imports Matching
begin

text \<open>
  The outer matching loop: it returns, keeps the structural invariant, trades in price-time
  priority, leaves no crossing order behind, and tells the feed the new total of every level it
  changed.  Proved once for any \<open>direction\<close>, then for the two instances the code uses.
\<close>

section \<open>What the feed learns\<close>

text \<open>
  The volume of every price as a level-update stream gives it, and as the side has it.
\<close>

type_synonym volumes = "Side \<Rightarrow> Price_t \<Rightarrow> Volume_t"

fun feed_step :: "volumes \<Rightarrow> BookEvent \<Rightarrow> volumes" where
  "feed_step v (OnLevelUpdate sd lv now) = v(sd := (v sd)(l_price lv := l_total_quantity lv))"
| "feed_step v _ = v"

definition feed :: "BookEvent list \<Rightarrow> volumes \<Rightarrow> volumes" where
  "feed evs v = foldl feed_step v evs"

definition totals :: "OrderBookSide \<Rightarrow> Price_t \<Rightarrow> Volume_t" where
  "totals s price = (if price_ok price then l_total_quantity (levels s (price_to_index price)) else 0)"

lemma feed_simps [simp]:
  "feed [] v = v" "feed (e # es) v = feed es (feed_step v e)" "feed (es @ es') v = feed es' (feed es v)"
  by (simp_all add: feed_def)

lemma feed_trades: "\<forall>e \<in> set evs. is_OnTrade e \<Longrightarrow> feed evs v = v"
proof (induction evs arbitrary: v)
  case Nil
  then show ?case by simp
next
  case (Cons e evs)
  then show ?case by (cases e) auto
qed

lemma price_ok_index: "i < NUM_BOOK_LEVELS \<Longrightarrow> price_ok (MINIMUM_BID + int i)"
  by (simp add: price_ok_def NUM_BOOK_LEVELS_eq MINIMUM_BID_def MAXIMUM_ASK_def)

lemma totals_upd:
  assumes "k < NUM_BOOK_LEVELS" and "\<And>j. j \<noteq> k \<Longrightarrow> levels s' j = levels s j"
  shows "totals s' = (totals s)(MINIMUM_BID + int k := l_total_quantity (levels s' k))"
proof
  fix price
  show "totals s' price = ((totals s)(MINIMUM_BID + int k := l_total_quantity (levels s' k))) price"
  proof (cases "price = MINIMUM_BID + int k")
    case True
    then show ?thesis using assms(1) by (simp add: totals_def price_ok_index price_to_index_of)
  next
    case False
    then have "price_ok price \<Longrightarrow> price_to_index price \<noteq> k" using index_price [of price] by auto
    then show ?thesis using False assms(2) by (auto simp: totals_def)
  qed
qed

lemma feed_level_update:
  assumes "k < NUM_BOOK_LEVELS" and "\<And>j. j \<noteq> k \<Longrightarrow> levels s' j = levels s j"
    and "l_price (levels s' k) = MINIMUM_BID + int k"
  shows "feed_step (v(sd := totals s)) (OnLevelUpdate sd (levels s' k) now) = v(sd := totals s')"
  using totals_upd [OF assms(1,2)] assms(3) by (auto simp: fun_eq_iff)

section \<open>The loop\<close>

lemma finite_levels:
  assumes "ms_rep ot ms L F"
  shows "finite {i. L i \<noteq> []}"
proof (rule finite_subset)
  show "{i. L i \<noteq> []} \<subseteq> {..<NUM_BOOK_LEVELS}"
    using slots_ok_beyond [OF side_rep_slots [OF ms_rep_side [OF assms]]] not_le by blast
qed simp

lemma ms_rep_events: "ms_rep ot (ms\<lparr>m_events := evs\<rparr>) L F = ms_rep ot ms L F"
  by (simp add: ms_rep_def)

lemma queue_price:
  assumes "side_rep s L F" and "r \<in> set (queue s (L i))"
  shows "r_price r = MINIMUM_BID + int i"
proof -
  obtain x where "x \<in> set (L i)" "r = view (side_store s x)" using assms(2) by (auto simp: queue_def)
  then show ?thesis using side_rep_order [OF assms(1)] by (auto simp: order_ok_def)
qed

lemma fits_level:
  assumes "fits s L" and "same_but k s L s' (L(k := ys))"
    and "(\<Sum>r\<leftarrow>queue s' ys. unat (r_remaining r)) \<le> (\<Sum>r\<leftarrow>queue s (L k). unat (r_remaining r))"
  shows "fits s' (L(k := ys))"
  unfolding fits_def
proof (intro allI impI)
  fix i assume i: "i < NUM_BOOK_LEVELS"
  show "(\<Sum>r\<leftarrow>queue s' ((L(k := ys)) i). unat (r_remaining r)) < 2 ^ 32"
  proof (cases "i = k")
    case True
    then show ?thesis using assms i by (auto simp: fits_def intro: le_less_trans)
  next
    case False
    then have "queue s' (L i) = queue s (L i)"
      using assms(2) by (intro queue_cong) (auto simp: same_but_def)
    then show ?thesis using assms(1) i False by (simp add: fits_def)
  qed
qed

text \<open>
  What the loop establishes from any state with the invariant: the invariant, only filled orders
  gone, and a feed whose volumes follow the totals.
\<close>

definition loop_post ::
  "(optr \<rightharpoonup> Id_t) \<Rightarrow> Side \<Rightarrow> MatchState \<Rightarrow> (nat \<Rightarrow> nat list) \<Rightarrow> MatchState \<Rightarrow> (nat \<Rightarrow> nat list) \<Rightarrow>
   nat list \<Rightarrow> BookEvent list \<Rightarrow> bool" where
  "loop_post ot sd ms L ms' L' F' evs \<longleftrightarrow>
     ms_rep ot ms' L' F' \<and> s_is_bid (m_side ms') = s_is_bid (m_side ms) \<and>
     unat (m_incoming ms') \<le> unat (m_incoming ms) \<and> (\<forall>i. suffix (L' i) (L i)) \<and>
     side_ids (m_side ms') L' \<subseteq>\<^sub>m side_ids (m_side ms) L \<and>
     m_events ms' = m_events ms @ evs \<and>
     (\<forall>v. feed evs (v(sd := totals (m_side ms))) = v(sd := totals (m_side ms')))"

lemma loop_post_refl: "ms_rep ot ms L F \<Longrightarrow> loop_post ot sd ms L ms L F []"
  by (simp add: loop_post_def)

lemma loop_post_trans:
  "loop_post ot sd ms L ms1 L1 F1 evs \<Longrightarrow> loop_post ot sd ms1 L1 ms2 L2 F2 evs' \<Longrightarrow>
   loop_post ot sd ms L ms2 L2 F2 (evs @ evs')"
  unfolding loop_post_def using suffix_order.trans map_le_trans by fastforce

context direction
begin

lemma prio_split:
  assumes "k < NUM_BOOK_LEVELS"
  obtains as bs where "prio = as @ k # bs" "\<And>i. i \<in> set as \<Longrightarrow> better i k" "\<And>i. i \<in> set bs \<Longrightarrow> better k i"
proof -
  have "k \<in> set prio" using assms prio_set by simp
  then obtain as bs where p: "prio = as @ k # bs" by (meson split_list)
  then show ?thesis using prio_sorted by (intro that [OF p]) (auto simp: sorted_wrt_append)
qed

lemma book_queue_empty:
  assumes rep: "side_rep s L F" and "best_ok better s L" and "best_price_index s = NUM_BOOK_LEVELS"
  shows "book_queue prio s L = []"
  using assms prio_set by (auto simp: book_queue_def best_ok_def)

text \<open>The best level comes first in the queue; the levels before it are empty.\<close>

lemma book_queue_best:
  assumes bo: "best_ok better s L" and k: "best_price_index s = k" "k < NUM_BOOK_LEVELS"
  obtains bs where "\<And>i. i \<in> set bs \<Longrightarrow> better k i"
    "book_queue prio s L = queue s (L k) @ concat (map (\<lambda>i. queue s (L i)) bs)"
    "\<And>s' L'. (\<And>i. i < NUM_BOOK_LEVELS \<Longrightarrow> better i k \<Longrightarrow> L' i = []) \<Longrightarrow>
       book_queue prio s' L' = queue s' (L' k) @ concat (map (\<lambda>i. queue s' (L' i)) bs)"
proof -
  obtain as bs where p: "prio = as @ k # bs" "\<And>i. i \<in> set as \<Longrightarrow> better i k" "\<And>i. i \<in> set bs \<Longrightarrow> better k i"
    using prio_split [OF k(2)] by blast
  have gen: "book_queue prio s' L' = queue s' (L' k) @ concat (map (\<lambda>i. queue s' (L' i)) bs)"
    if "\<And>i. i < NUM_BOOK_LEVELS \<Longrightarrow> better i k \<Longrightarrow> L' i = []" for s' L'
  proof -
    have "i < NUM_BOOK_LEVELS" if "i \<in> set as" for i using prio_set p(1) that by auto
    then have "concat (map (\<lambda>i. queue s' (L' i)) as) = []" using p(2) that by auto
    then show ?thesis by (simp add: book_queue_def p(1))
  qed
  have "L i = []" if "i < NUM_BOOK_LEVELS" "better i k" for i
    using bo k that by (auto simp: best_ok_def)
  then show ?thesis using that [OF p(3)] gen by blast
qed

text \<open>After a level is exhausted the new best index is right again.\<close>

lemma best_ok_next:
  assumes rep: "side_rep s' L' F'" and fit: "fits s' L'" and k: "k < NUM_BOOK_LEVELS"
    and none: "\<And>i. i < NUM_BOOK_LEVELS \<Longrightarrow> better i k \<or> i = k \<Longrightarrow> L' i = []"
    and best: "best_price_index s' = nx (levels s') k"
  shows "best_ok better s' L'"
  unfolding best_ok_def
proof (intro allI impI)
  fix i assume i: "i < NUM_BOOK_LEVELS" "L' i \<noteq> []"
  then have "better k i" using none better_total by blast
  moreover have "0 < l_total_quantity (levels s' i)" using level_total_pos [OF rep fit i(1)] i(2) by simp
  ultimately show "best_price_index s' < NUM_BOOK_LEVELS \<and> \<not> better i (best_price_index s')"
    using nx_first [OF k i(1)] best by simp
qed

lemma match_loop_stop:
  assumes "m_incoming ms = 0 \<or> best_price_index (m_side ms) = NUM_BOOK_LEVELS \<or>
    \<not> crosses (l_price (levels (m_side ms) (best_price_index (m_side ms)))) price"
  shows "match_loop price oid cid sd crosses adv tot now ms = Some ms"
  using assms by (subst match_loop.simps) (auto simp: Let_def)

lemma match_loop_level:
  assumes "0 < m_incoming ms" and "best_price_index (m_side ms) = k" and "k < NUM_BOOK_LEVELS"
    and "crosses (l_price (levels (m_side ms) k)) price"
    and "match_level adv oid cid tot now k ms = Some ms1"
  shows "match_loop price oid cid sd crosses adv tot now ms =
    match_loop price oid cid sd crosses adv tot now
      (ms1\<lparr>m_events := m_events ms1 @ [OnLevelUpdate sd (levels (m_side ms1) k) now]\<rparr>)"
  using assms by (subst match_loop.simps) (simp add: Let_def)


lemma loop_level:
  assumes rep: "ms_rep ot ms L F" and bk: "best_price_index (m_side ms) = k" and k: "k < NUM_BOOK_LEVELS"
    and spec: "spec_match (\<lambda>_. True) (m_incoming ms) (queue (m_side ms) (L k)) = (fs, rest, q')"
  obtains ms1 F' ys evs where
    "match_level adv oid cid tot now k ms = Some ms1"
    "loop_post ot sd ms L (ms1\<lparr>m_events := m_events ms1 @ [OnLevelUpdate sd (levels (m_side ms1) k) now]\<rparr>)
       (L(k := ys)) F' evs"
    "queue (m_side ms1) ys = rest" "m_incoming ms1 = q'"
    "same_but k (m_side ms) L (m_side ms1) (L(k := ys))"
    "trades_of evs = spec_trades cid oid tot now (m_incoming ms) fs"
    "best_price_index (m_side ms1) = (if ys = [] then nx (levels (m_side ms1)) k else k)"
proof -
  note side = ms_rep_side [OF rep]
  have Lk: "L k \<noteq> []" using side_rep_best [OF side] bk k by simp
  obtain ms1 F' ys evs where m: "match_level adv oid cid tot now k ms = Some ms1"
    "ms_rep ot ms1 (L(k := ys)) F'" "queue (m_side ms1) ys = rest" "m_incoming ms1 = q'"
    "same_but k (m_side ms) L (m_side ms1) (L(k := ys))" "suffix ys (L k)"
    "m_events ms1 = m_events ms @ evs" "\<forall>e \<in> set evs. is_OnTrade e"
    "trades_of evs = spec_trades cid oid tot now (m_incoming ms) fs"
    "\<forall>y \<in> set ys. o_order_id (side_store (m_side ms1) y) = o_order_id (side_store (m_side ms) y)"
    "best_price_index (m_side ms1) = (if ys = [] then nx (levels (m_side ms1)) k else k)"
    using match_level_spec [OF rep k bk spec, of oid cid tot now] Lk unfolding level_matched_def by blast
  have le: "side_ids (m_side ms1) (L(k := ys)) \<subseteq>\<^sub>m side_ids (m_side ms) L"
    using m(5,10) set_mono_suffix [OF m(6)]
    by (intro side_ids_le) (auto simp: same_but_def view_def split: if_splits)
  let ?u = "OnLevelUpdate sd (levels (m_side ms1) k) now"
  have "l_price (levels (m_side ms1) k) = MINIMUM_BID + int k"
    using side_rep_level [OF ms_rep_side [OF m(2)] k] by (simp add: level_ok_def)
  then have "feed (evs @ [?u]) (v(sd := totals (m_side ms))) = v(sd := totals (m_side ms1))" for v
    using feed_level_update [OF k, of "m_side ms1" "m_side ms"] m(5) feed_trades [OF m(8)]
    by (simp add: same_but_def)
  moreover have "unat q' \<le> unat (m_incoming ms)" using spec_match_conserve [OF spec] by simp
  ultimately have "loop_post ot sd ms L (ms1\<lparr>m_events := m_events ms1 @ [?u]\<rparr>) (L(k := ys)) F' (evs @ [?u])"
    using m(2,4-7) le by (simp add: loop_post_def ms_rep_events same_but_def)
  then show ?thesis using that [OF m(1)] m by simp
qed

text \<open>What the loop establishes when, moreover, the best index is right and no total overflows.\<close>

definition refines where
  "refines price oid cid tot now ms L ms' L' evs \<longleftrightarrow>
     best_ok better (m_side ms') L' \<and> fits (m_side ms') L' \<and>
     (\<exists>fs. spec_match (\<lambda>p. crosses p price) (m_incoming ms) (book_queue prio (m_side ms) L) =
            (fs, book_queue prio (m_side ms') L', m_incoming ms') \<and>
          trades_of evs = spec_trades cid oid tot now (m_incoming ms) fs) \<and>
     (0 < m_incoming ms' \<longrightarrow>
        (\<forall>i<NUM_BOOK_LEVELS. L' i \<noteq> [] \<longrightarrow> \<not> crosses (MINIMUM_BID + int i) price))"

lemma refines_stop:
  assumes rep: "ms_rep ot ms L F" and bo: "best_ok better (m_side ms) L" and fit: "fits (m_side ms) L"
    and stop: "m_incoming ms = 0 \<or> best_price_index (m_side ms) = NUM_BOOK_LEVELS \<or>
      \<not> crosses (l_price (levels (m_side ms) (best_price_index (m_side ms)))) price"
  shows "refines price oid cid tot now ms L ms L []"
proof -
  let ?s = "m_side ms" and ?k = "best_price_index (m_side ms)"
  note side = ms_rep_side [OF rep]
  have none: "\<not> crosses (MINIMUM_BID + int i) price"
    if "0 < m_incoming ms" "i < NUM_BOOK_LEVELS" "L i \<noteq> []" for i
  proof -
    have k: "?k < NUM_BOOK_LEVELS" and nb: "\<not> better i ?k" using bo that by (auto simp: best_ok_def)
    then have "\<not> crosses (MINIMUM_BID + int ?k) price"
      using stop that(1) side_rep_level [OF side k] by (auto simp: level_ok_def)
    then show ?thesis using nb better_total [of i ?k] crosses_better [of ?k i price] by auto
  qed
  have "spec_match (\<lambda>p. crosses p price) (m_incoming ms) (book_queue prio ?s L) =
      ([], book_queue prio ?s L, m_incoming ms)"
  proof (cases "m_incoming ms = 0 \<or> book_queue prio ?s L = []")
    case True
    then show ?thesis by (auto simp: spec_match_zero)
  next
    case False
    then have "hd (book_queue prio ?s L) \<in> set (book_queue prio ?s L)" by simp
    then obtain i where i: "i < NUM_BOOK_LEVELS" "hd (book_queue prio ?s L) \<in> set (queue ?s (L i))"
      using prio_set by (auto simp: book_queue_def simp del: list.set_sel)
    then have "L i \<noteq> []" by auto
    then have "\<not> crosses (r_price (hd (book_queue prio ?s L))) price"
      using none [of i] False queue_price [OF side i(2)] i(1) by (simp add: word_gt_0)
    then show ?thesis using False by (simp add: spec_match_stop)
  qed
  then show ?thesis using bo fit none by (simp add: refines_def)
qed

text \<open>The level is matched: the best index is right again, and the rest of the side comes after it in the specification.\<close>

lemma best_ok_level:
  fixes ms ms2 :: MatchState
  assumes bo: "best_ok better (m_side ms) L" and bk: "best_price_index (m_side ms) = k" and k: "k < NUM_BOOK_LEVELS"
    and rep2: "side_rep (m_side ms2) (L(k := ys)) F'" and fit2: "fits (m_side ms2) (L(k := ys))"
    and best: "best_price_index (m_side ms2) = (if ys = [] then nx (levels (m_side ms2)) k else k)"
  shows "best_ok better (m_side ms2) (L(k := ys))"
proof (cases "ys = []")
  case True
  have "L i = []" if "i < NUM_BOOK_LEVELS" "better i k" for i
    using bo bk that by (auto simp: best_ok_def)
  then show ?thesis
    by (intro best_ok_next [OF rep2 fit2 k]) (use True best in auto)
next
  case False
  then show ?thesis
    using bo best bk k by (auto simp: best_ok_def better_irrefl)
qed

lemma spec_match_level:
  fixes ms ms2 :: MatchState
  assumes side: "side_rep (m_side ms) L F" and bo: "best_ok better (m_side ms) L"
    and bk: "best_price_index (m_side ms) = k" and k: "k < NUM_BOOK_LEVELS"
    and cr: "crosses (MINIMUM_BID + int k) price"
    and spec: "spec_match (\<lambda>_. True) (m_incoming ms) (queue (m_side ms) (L k)) = (fs, rest, q')"
    and ys: "queue (m_side ms2) ys = rest" and same: "same_but k (m_side ms) L (m_side ms2) (L(k := ys))"
    and later: "spec_match (\<lambda>p. crosses p price) q' (book_queue prio (m_side ms2) (L(k := ys))) = (fs', rs, q'')"
  shows "spec_match (\<lambda>p. crosses p price) (m_incoming ms) (book_queue prio (m_side ms) L) = (fs @ fs', rs, q'')"
proof -
  obtain bs where bs: "\<And>i. i \<in> set bs \<Longrightarrow> better k i"
    "book_queue prio (m_side ms) L = queue (m_side ms) (L k) @ concat (map (\<lambda>i. queue (m_side ms) (L i)) bs)"
    "\<And>s' L'. (\<And>i. i < NUM_BOOK_LEVELS \<Longrightarrow> better i k \<Longrightarrow> L' i = []) \<Longrightarrow>
       book_queue prio s' L' = queue s' (L' k) @ concat (map (\<lambda>i. queue s' (L' i)) bs)"
    using book_queue_best [OF bo bk k] by metis
  have "queue (m_side ms2) ((L(k := ys)) i) = queue (m_side ms) (L i)" if "i \<in> set bs" for i
    using same bs(1) [OF that] better_irrefl
    by (auto simp: same_but_def intro!: queue_cong)
  then have others: "concat (map (\<lambda>i. queue (m_side ms2) ((L(k := ys)) i)) bs)
      = concat (map (\<lambda>i. queue (m_side ms) (L i)) bs)" by (metis (no_types, lifting) map_eq_conv)
  have "(L(k := ys)) i = []" if "i < NUM_BOOK_LEVELS" "better i k" for i
    using bo bk that better_irrefl by (auto simp: best_ok_def)
  then have bq2: "book_queue prio (m_side ms2) (L(k := ys))
      = rest @ concat (map (\<lambda>i. queue (m_side ms) (L i)) bs)"
    using bs(3) [of "L(k := ys)" "m_side ms2"] ys others by simp
  have lvl: "spec_match (\<lambda>p. crosses p price) (m_incoming ms) (queue (m_side ms) (L k)) = (fs, rest, q')"
    using spec_match_cong [of "queue (m_side ms) (L k)" "\<lambda>p. crosses p price" "\<lambda>_. True"]
      queue_price [OF side, of _ k] cr spec by simp
  show ?thesis
  proof (cases "rest = []")
    case True
    then show ?thesis using lvl later bq2 by (simp add: bs(2) spec_match_append)
  next
    case False
    then have "q' = 0" using spec_match_rest_price [OF spec] by simp
    with False show ?thesis using lvl later bq2 by (simp add: bs(2) spec_match_append spec_match_zero)
  qed
qed

lemma refines_level:
  assumes rep: "ms_rep ot ms L F" and bo: "best_ok better (m_side ms) L" and fit: "fits (m_side ms) L"
    and bk: "best_price_index (m_side ms) = k" and k: "k < NUM_BOOK_LEVELS"
    and cr: "crosses (MINIMUM_BID + int k) price"
    and spec: "spec_match (\<lambda>_. True) (m_incoming ms) (queue (m_side ms) (L k)) = (fs, rest, q')"
    and post: "loop_post ot sd ms L ms2 (L(k := ys)) F' evs"
    and ys: "queue (m_side ms2) ys = rest" and q': "m_incoming ms2 = q'"
    and same: "same_but k (m_side ms) L (m_side ms2) (L(k := ys))"
    and tr: "trades_of evs = spec_trades cid oid tot now (m_incoming ms) fs"
    and best: "best_price_index (m_side ms2) = (if ys = [] then nx (levels (m_side ms2)) k else k)"
    and later: "best_ok better (m_side ms2) (L(k := ys)) \<Longrightarrow> fits (m_side ms2) (L(k := ys)) \<Longrightarrow>
      refines price oid cid tot now ms2 (L(k := ys)) ms' L' evs'"
  shows "refines price oid cid tot now ms L ms' L' (evs @ evs')"
proof -
  have rep2: "side_rep (m_side ms2) (L(k := ys)) F'" using post ms_rep_side by (auto simp: loop_post_def)
  have fit2: "fits (m_side ms2) (L(k := ys))"
    using fits_level [OF fit same] spec_match_conserve [OF spec] ys by simp
  note later' = later [OF best_ok_level [OF bo bk k rep2 fit2 best] fit2]
  obtain fs' where sp2: "spec_match (\<lambda>p. crosses p price) q' (book_queue prio (m_side ms2) (L(k := ys)))
        = (fs', book_queue prio (m_side ms') L', m_incoming ms')"
    and tr2: "trades_of evs' = spec_trades cid oid tot now q' fs'"
    using later' q' by (auto simp: refines_def)
  have "trades_of (evs @ evs') = spec_trades cid oid tot now (m_incoming ms) (fs @ fs')"
    using tr tr2 spec_match_left [OF spec] by (simp add: spec_trades_append)
  then show ?thesis
    using later' spec_match_level [OF ms_rep_side [OF rep] bo bk k cr spec ys same sp2] by (auto simp: refines_def)
qed

text \<open>One turn of the outer loop; whatever the rest of the loop refines, the whole does.\<close>

lemma match_loop_turn:
  assumes rep: "ms_rep ot ms L F"
    and go: "\<not> (m_incoming ms = 0 \<or> best_price_index (m_side ms) = NUM_BOOK_LEVELS \<or>
      \<not> crosses (l_price (levels (m_side ms) (best_price_index (m_side ms)))) price)"
  obtains ms2 k ys F' evs where
    "match_loop price oid cid sd crosses adv tot now ms = match_loop price oid cid sd crosses adv tot now ms2"
    "loop_post ot sd ms L ms2 (L(k := ys)) F' evs" "L k \<noteq> []" "ys = [] \<or> m_incoming ms2 = 0"
    "\<And>(ms' :: MatchState) L' evs'. best_ok better (m_side ms) L \<Longrightarrow> fits (m_side ms) L \<Longrightarrow>
       (best_ok better (m_side ms2) (L(k := ys)) \<Longrightarrow> fits (m_side ms2) (L(k := ys)) \<Longrightarrow>
         refines price oid cid tot now ms2 (L(k := ys)) ms' L' evs') \<Longrightarrow>
       refines price oid cid tot now ms L ms' L' (evs @ evs')"
proof -
  let ?s = "m_side ms" and ?k = "best_price_index (m_side ms)"
  have k: "?k < NUM_BOOK_LEVELS" and Lk: "L ?k \<noteq> []"
    using side_rep_best [OF ms_rep_side [OF rep]] go by auto
  have pos: "0 < m_incoming ms" using go by (simp add: word_gt_0)
  have cr: "crosses (MINIMUM_BID + int ?k) price"
    using go side_rep_level [OF ms_rep_side [OF rep] k] by (simp add: level_ok_def)
  obtain fs rest q' where spec:
    "spec_match (\<lambda>_. True) (m_incoming ms) (queue ?s (L ?k)) = (fs, rest, q')" by (metis prod_cases3)
  from loop_level [OF rep refl k spec, of oid cid tot now sd]
  obtain ms1 F1 ys evs1 where l: "match_level adv oid cid tot now ?k ms = Some ms1"
    "loop_post ot sd ms L (ms1\<lparr>m_events := m_events ms1 @ [OnLevelUpdate sd (levels (m_side ms1) ?k) now]\<rparr>)
       (L(?k := ys)) F1 evs1"
    "queue (m_side ms1) ys = rest" "m_incoming ms1 = q'"
    "same_but ?k ?s L (m_side ms1) (L(?k := ys))"
    "trades_of evs1 = spec_trades cid oid tot now (m_incoming ms) fs"
    "best_price_index (m_side ms1) = (if ys = [] then nx (levels (m_side ms1)) ?k else ?k)" by metis
  let ?ms2 = "ms1\<lparr>m_events := m_events ms1 @ [OnLevelUpdate sd (levels (m_side ms1) ?k) now]\<rparr>"
  have "match_loop price oid cid sd crosses adv tot now ms = match_loop price oid cid sd crosses adv tot now ?ms2"
    using match_loop_level [OF pos refl k _ l(1)] go by simp
  moreover have "ys = [] \<or> m_incoming ?ms2 = 0" using spec_match_rest_price [OF spec] l(3,4) by (cases "ys = []") auto
  ultimately show ?thesis
    by (rule that [OF _ l(2) Lk]) (rule refines_level [OF rep _ _ refl k cr spec l(2)]; use l in simp)
qed

theorem match_loop_spec:
  assumes "ms_rep ot ms L F"
  shows "\<exists>ms' L' F' evs. match_loop price oid cid sd crosses adv tot now ms = Some ms' \<and>
     loop_post ot sd ms L ms' L' F' evs \<and>
     (best_ok better (m_side ms) L \<longrightarrow> fits (m_side ms) L \<longrightarrow>
        refines price oid cid tot now ms L ms' L' evs)"
  using assms
proof (induction "card {i. L i \<noteq> []}" arbitrary: ms L F rule: less_induct)
  case less
  note rep = less.prems
  show ?case
  proof (cases "m_incoming ms = 0 \<or> best_price_index (m_side ms) = NUM_BOOK_LEVELS \<or>
      \<not> crosses (l_price (levels (m_side ms) (best_price_index (m_side ms)))) price")
    case True
    then show ?thesis
      using match_loop_stop [OF True] loop_post_refl [OF rep] refines_stop [OF rep _ _ True] by blast
  next
    case False
    obtain ms2 k ys F2 evs1 where
      step: "match_loop price oid cid sd crosses adv tot now ms = match_loop price oid cid sd crosses adv tot now ms2"
      and post: "loop_post ot sd ms L ms2 (L(k := ys)) F2 evs1" and Lk: "L k \<noteq> []" and fin: "ys = [] \<or> m_incoming ms2 = 0"
      and whole: "\<And>(ms' :: MatchState) L' evs'. best_ok better (m_side ms) L \<Longrightarrow> fits (m_side ms) L \<Longrightarrow>
         (best_ok better (m_side ms2) (L(k := ys)) \<Longrightarrow> fits (m_side ms2) (L(k := ys)) \<Longrightarrow>
           refines price oid cid tot now ms2 (L(k := ys)) ms' L' evs') \<Longrightarrow>
         refines price oid cid tot now ms L ms' L' (evs1 @ evs')"
      by (rule match_loop_turn [OF rep False, of oid cid sd tot now]) blast
    have rep2: "ms_rep ot ms2 (L(k := ys)) F2" using post by (simp add: loop_post_def)
    show ?thesis
    proof (cases "m_incoming ms2 = 0")
      case True
      then show ?thesis
        using step match_loop_stop [of ms2] post whole [of ms2 "L(k := ys)" "[]"] refines_stop [OF rep2] by fastforce
    next
      case False
      then have "{i. (L(k := ys)) i \<noteq> []} \<subset> {i. L i \<noteq> []}" using Lk fin by auto
      then have "card {i. (L(k := ys)) i \<noteq> []} < card {i. L i \<noteq> []}"
        using finite_levels [OF rep] psubset_card_mono by blast
      from less.hyps [OF this rep2] obtain ms' L' F' evs' where IH:
        "match_loop price oid cid sd crosses adv tot now ms2 = Some ms'"
        "loop_post ot sd ms2 (L(k := ys)) ms' L' F' evs'"
        "best_ok better (m_side ms2) (L(k := ys)) \<Longrightarrow> fits (m_side ms2) (L(k := ys)) \<Longrightarrow>
           refines price oid cid tot now ms2 (L(k := ys)) ms' L' evs'" by blast
      show ?thesis using step IH(1) loop_post_trans [OF post IH(2)] whole [OF _ _ IH(3)] by auto
    qed
  qed
qed

end

section \<open>The two instances\<close>

definition next_ask :: "(nat \<Rightarrow> PriceLevel) \<Rightarrow> nat \<Rightarrow> nat" where
  "next_ask lv k = (case scan_up lv (k + 1) of Some i \<Rightarrow> i | None \<Rightarrow> NUM_BOOK_LEVELS)"

definition next_bid :: "(nat \<Rightarrow> PriceLevel) \<Rightarrow> nat \<Rightarrow> nat" where
  "next_bid lv k = (case scan_down lv k of Some i \<Rightarrow> i | None \<Rightarrow> NUM_BOOK_LEVELS)"

lemma scan_up_Some:
  "scan_up lv i = Some j \<Longrightarrow> i \<le> j \<and> j < NUM_BOOK_LEVELS \<and> 0 < l_total_quantity (lv j) \<and>
     (\<forall>m. i \<le> m \<and> m < j \<longrightarrow> l_total_quantity (lv m) = 0)"
proof (induction lv i rule: scan_up.induct)
  case (1 lv i)
  show ?case
  proof (cases "i < NUM_BOOK_LEVELS \<and> \<not> 0 < l_total_quantity (lv i)")
    case True
    then have "scan_up lv (i + 1) = Some j" using "1.prems" scan_up.simps [of lv i] by simp
    with "1.IH" True have j: "i + 1 \<le> j \<and> j < NUM_BOOK_LEVELS \<and> 0 < l_total_quantity (lv j) \<and>
      (\<forall>m. i + 1 \<le> m \<and> m < j \<longrightarrow> l_total_quantity (lv m) = 0)" by blast
    moreover have "l_total_quantity (lv m) = 0" if "i \<le> m" "m < j" for m
      using j True that by (cases "m = i") (auto simp: word_gt_0)
    ultimately show ?thesis by simp
  next
    case False
    then show ?thesis using "1.prems" scan_up.simps [of lv i] by (auto split: if_splits)
  qed
qed

lemma scan_up_None: "scan_up lv i = None \<Longrightarrow> i \<le> m \<Longrightarrow> m < NUM_BOOK_LEVELS \<Longrightarrow> l_total_quantity (lv m) = 0"
proof (induction lv i rule: scan_up.induct)
  case (1 lv i)
  then have i: "i < NUM_BOOK_LEVELS" by simp
  then have z: "\<not> 0 < l_total_quantity (lv i)" "scan_up lv (i + 1) = None"
    using "1.prems"(1) scan_up.simps [of lv i] by (auto split: if_splits)
  show ?case
  proof (cases "m = i")
    case True
    then show ?thesis using z by (simp add: word_gt_0)
  next
    case False
    then show ?thesis using "1.IH" [OF i z] "1.prems" by simp
  qed
qed

lemma scan_down_Some:
  "scan_down lv i = Some j \<Longrightarrow> j < i \<and> 0 < l_total_quantity (lv j) \<and>
     (\<forall>m. j < m \<and> m < i \<longrightarrow> l_total_quantity (lv m) = 0)"
  by (induction i) (auto simp: word_gt_0 less_Suc_eq split: if_splits)

lemma scan_down_None: "scan_down lv i = None \<Longrightarrow> m < i \<Longrightarrow> l_total_quantity (lv m) = 0"
  by (induction i) (auto simp: word_gt_0 less_Suc_eq split: if_splits)

lemma next_ask_first:
  assumes "k < i" and "i < NUM_BOOK_LEVELS" and "0 < l_total_quantity (lv i)"
  shows "next_ask lv k < NUM_BOOK_LEVELS \<and> \<not> i < next_ask lv k"
proof (cases "scan_up lv (k + 1)")
  case None
  then show ?thesis using scan_up_None [OF None, of i] assms by simp
next
  case (Some j)
  then show ?thesis using scan_up_Some [OF Some] assms by (auto simp: next_ask_def)
qed

lemma next_bid_first:
  assumes "i < k" and "k < NUM_BOOK_LEVELS" and "0 < l_total_quantity (lv i)"
  shows "next_bid lv k < NUM_BOOK_LEVELS \<and> \<not> next_bid lv k < i"
proof (cases "scan_down lv k")
  case None
  then show ?thesis using scan_down_None [OF None, of i] assms by simp
next
  case (Some j)
  then show ?thesis using scan_down_Some [OF Some] assms by (auto simp: next_bid_def)
qed

interpretation asks_dir: direction "(<)" "[0..<NUM_BOOK_LEVELS]" update_best_ask_after_empty next_ask "(\<le>)"
proof
  fix s lv k i
  show "update_best_ask_after_empty s = s\<lparr>best_price_index := next_ask (levels s) (best_price_index s)\<rparr>"
    by (simp add: update_best_ask_after_empty_def next_ask_def split: option.splits)
  show "k < NUM_BOOK_LEVELS \<Longrightarrow> next_ask lv k = NUM_BOOK_LEVELS \<or> next_ask lv k < NUM_BOOK_LEVELS \<and>
      k < next_ask lv k \<and> 0 < l_total_quantity (lv (next_ask lv k))"
    by (auto simp: next_ask_def dest: scan_up_Some split: option.splits)
  show "k < NUM_BOOK_LEVELS \<Longrightarrow> i < NUM_BOOK_LEVELS \<Longrightarrow> k < i \<Longrightarrow> 0 < l_total_quantity (lv i) \<Longrightarrow>
      next_ask lv k < NUM_BOOK_LEVELS \<and> \<not> i < next_ask lv k"
    by (rule next_ask_first)
qed auto

interpretation bids_dir: direction "(>)" "rev [0..<NUM_BOOK_LEVELS]" update_best_bid_after_empty next_bid "(\<ge>)"
proof
  fix s lv k i
  show "update_best_bid_after_empty s = s\<lparr>best_price_index := next_bid (levels s) (best_price_index s)\<rparr>"
    by (simp add: update_best_bid_after_empty_def next_bid_def split: option.splits)
  show "k < NUM_BOOK_LEVELS \<Longrightarrow> next_bid lv k = NUM_BOOK_LEVELS \<or> next_bid lv k < NUM_BOOK_LEVELS \<and>
      k > next_bid lv k \<and> 0 < l_total_quantity (lv (next_bid lv k))"
    by (auto simp: next_bid_def dest: scan_down_Some split: option.splits)
  show "k < NUM_BOOK_LEVELS \<Longrightarrow> i < NUM_BOOK_LEVELS \<Longrightarrow> k > i \<Longrightarrow> 0 < l_total_quantity (lv i) \<Longrightarrow>
      next_bid lv k < NUM_BOOK_LEVELS \<and> \<not> i > next_bid lv k"
    by (rule next_bid_first)
qed (auto simp: sorted_wrt_rev)

end
