(* ===== verification/Order_Book.thy ===== *)
theory Order_Book
  imports Match_Loop
begin

text \<open>
  \<open>OrderBook\<close> (src/order_book.hpp, src/order_book.cpp): the two sides, the lookup tables, and the
  operations the exchange calls.  An operation returns the new book and the callbacks made;
  \<open>submit_order\<close> returns \<open>None\<close> if its matching loop does not end.
\<close>

section \<open>The book and its operations\<close>

record OrderBook =
  bids :: OrderBookSide
  asks :: OrderBookSide
  ob_order_id :: Id_t
  ob_trade_id :: Id_t
  order_by_handle :: "nat \<Rightarrow> optr option"
  order_id_to_handle :: "Id_t \<rightharpoonup> Id_t"

definition OrderBook_init :: "store \<Rightarrow> store \<Rightarrow> OrderBook" where
  "OrderBook_init mem_bids mem_asks =
     \<lparr>bids = OrderBookSide_init mem_bids True, asks = OrderBookSide_init mem_asks False,
      ob_order_id = 0, ob_trade_id = 0,
      order_by_handle = (\<lambda>_. None), order_id_to_handle = Map.empty\<rparr>"

text \<open>\<open>is_bid ? bids : asks\<close>, read and written.\<close>

definition side_of :: "OrderBook \<Rightarrow> bool \<Rightarrow> OrderBookSide" where
  "side_of b d = (if d then bids b else asks b)"

definition set_side :: "OrderBook \<Rightarrow> bool \<Rightarrow> OrderBookSide \<Rightarrow> OrderBook" where
  "set_side b d s = (if d then b\<lparr>bids := s\<rparr> else b\<lparr>asks := s\<rparr>)"

definition side_tag :: "bool \<Rightarrow> Side" where
  "side_tag d = (if d then BUY else SELL)"

text \<open>\<open>unordered_map::emplace\<close> leaves an existing entry alone.\<close>

definition emplace :: "('k \<rightharpoonup> 'v) \<Rightarrow> 'k \<Rightarrow> 'v \<Rightarrow> ('k \<rightharpoonup> 'v)" where
  "emplace m k v = (case m k of None \<Rightarrow> m(k \<mapsto> v) | Some _ \<Rightarrow> m)"

text \<open>
  Resting what is left of an order on its own side \<open>d\<close>: the bodies of the two \<open>if (remaining > 0)\<close>
  statements of \<open>submit_order\<close>, which differ in the side and the low bit of the handle.
\<close>

definition rest_order ::
  "OrderBook \<Rightarrow> bool \<Rightarrow> Price_t \<Rightarrow> Volume_t \<Rightarrow> Volume_t \<Rightarrow> Id_t \<Rightarrow> Id_t \<Rightarrow> Id_t \<Rightarrow> Time_t \<Rightarrow> Time_t \<Rightarrow>
   OrderBook \<times> BookEvent list" where
  "rest_order b d price quantity remaining order_id client_id client_request_id now now_add =
     (case add_order (side_of b d) price quantity remaining order_id client_id client_request_id now_add of
        (None, s, evs) \<Rightarrow> (set_side b d s, evs)
      | (Some resting_order, s, evs) \<Rightarrow>
          let r = pool (s_pool s) resting_order;
              encoded = o_order_handle r * 2 + (if d then 0 else 1)
          in ((set_side b d s)\<lparr>
                order_by_handle := (order_by_handle b)(unat encoded := Some (OPtr d resting_order)),
                order_id_to_handle := emplace (order_id_to_handle b) order_id encoded\<rparr>,
              evs @ [OnOrderInserted client_request_id r now]))"

definition match_start :: "OrderBook \<Rightarrow> bool \<Rightarrow> Volume_t \<Rightarrow> MatchState" where
  "match_start b d quantity =
     \<lparr>m_side = side_of b d, m_by_handle = order_by_handle b,
      m_id_to_handle = order_id_to_handle b, m_incoming = quantity, m_events = []\<rparr>"

definition match_finish :: "OrderBook \<Rightarrow> bool \<Rightarrow> MatchState \<Rightarrow> OrderBook" where
  "match_finish b d ms =
     (set_side b d (m_side ms))\<lparr>order_by_handle := m_by_handle ms,
                                order_id_to_handle := m_id_to_handle ms\<rparr>"

definition submit_order ::
  "OrderBook \<Rightarrow> Price_t \<Rightarrow> Volume_t \<Rightarrow> bool \<Rightarrow> Id_t \<Rightarrow> Id_t \<Rightarrow> Time_t \<Rightarrow> Time_t \<Rightarrow> Time_t \<Rightarrow>
   (OrderBook \<times> BookEvent list) option" where
  "submit_order b price quantity is_bid client_id client_request_id now now_match now_add =
     (if quantity = 0
      then Some (b, [OnError client_id client_request_id (error_code INVALID_VOLUME)
                       ''Invalid order size.'' now])
      else if price < MINIMUM_BID \<or> price > MAXIMUM_ASK
      then Some (b, [OnError client_id client_request_id (error_code INVALID_PRICE)
                       ''Invalid price.'' now])
      else let order_id = ob_order_id b;
               b1 = b\<lparr>ob_order_id := order_id + 1\<rparr>
           in do {
             ms \<leftarrow> (if is_bid
                   then match_buy price order_id client_id now_match (match_start b1 False quantity)
                   else match_sell price order_id client_id now_match (match_start b1 True quantity));
             let b2 = match_finish b1 (\<not> is_bid) ms;
             if 0 < m_incoming ms
             then let (b3, evs) = rest_order b2 is_bid price quantity (m_incoming ms) order_id
                                    client_id client_request_id now now_add
                  in Some (b3, m_events ms @ evs)
             else Some (b2, m_events ms)
           })"

text \<open>
  Removing an order from level \<open>idx\<close> of side \<open>d\<close>.  The code names the order by pointer and the
  side by reference; every caller passes the side whose pool holds the order.
\<close>

definition remove_order :: "OrderBook \<Rightarrow> bool \<Rightarrow> nat \<Rightarrow> nat \<Rightarrow> OrderBook" where
  "remove_order b d idx order =
     (let s = side_of b d;
          (p, level) = unlink (pool (s_pool s)) (levels s idx) order;
          order_id = o_order_id (p order);
          encoded = encoded_handle (p order);
          s1 = s\<lparr>levels := (levels s)(idx := level),
                 s_pool := deallocate ((s_pool s)\<lparr>pool := p\<rparr>) order\<rparr>
      in (set_side b d s1)\<lparr>
           order_by_handle := (order_by_handle b)(unat encoded := None),
           order_id_to_handle := (order_id_to_handle b)(order_id := None)\<rparr>)"

definition update_best_after_empty :: "bool \<Rightarrow> OrderBookSide \<Rightarrow> OrderBookSide" where
  "update_best_after_empty d s =
     (if d then update_best_bid_after_empty s else update_best_ask_after_empty s)"

text \<open>The lookup both requests start with: the pointer, or \<open>None\<close> where the code answers "not found".\<close>

definition find_order :: "OrderBook \<Rightarrow> Id_t \<Rightarrow> optr option" where
  "find_order b order_id =
     (case order_id_to_handle b order_id of
        None \<Rightarrow> None
      | Some order_handle \<Rightarrow> order_by_handle b (unat order_handle))"

definition deref :: "OrderBook \<Rightarrow> optr \<Rightarrow> Order" where
  "deref b p = pool (s_pool (side_of b (in_bids p))) (slot p)"

definition cancel_order :: "OrderBook \<Rightarrow> Id_t \<Rightarrow> Id_t \<Rightarrow> Id_t \<Rightarrow> Time_t \<Rightarrow> OrderBook \<times> BookEvent list" where
  "cancel_order b client_id client_request_id order_id now =
     (case find_order b order_id of
        None \<Rightarrow> (b, [OnError client_id client_request_id (error_code ORDER_NOT_FOUND)
                      ''Order ID not found.'' now])
      | Some p \<Rightarrow>
          let order = deref b p in
          if o_client_id order \<noteq> client_id
          then (b, [OnError client_id client_request_id (error_code UNAUTHORISED)
                      ''Unauthorised request.'' now])
          else let d = o_is_bid order;
                   s = side_of b d;
                   idx = price_to_index (o_price order);
                   level = (levels s idx)\<lparr>l_total_quantity :=
                              l_total_quantity (levels s idx) - o_quantity_remaining order\<rparr>;
                   b1 = remove_order (set_side b d (s\<lparr>levels := (levels s)(idx := level)\<rparr>)) d idx (slot p);
                   s1 = side_of b1 d;
                   s2 = (if l_first (levels s1 idx) = None \<and> best_price_index s1 = l_idx (levels s1 idx)
                         then update_best_after_empty (o_is_bid (pool (s_pool s1) (slot p))) s1
                         else s1)
               in (set_side b1 d s2,
                   [OnLevelUpdate (if o_is_bid order then BUY else SELL) (levels s2 idx) now,
                    OnOrderCancelled client_request_id order now]))"

definition amend_order ::
  "OrderBook \<Rightarrow> Id_t \<Rightarrow> Id_t \<Rightarrow> Id_t \<Rightarrow> Volume_t \<Rightarrow> Time_t \<Rightarrow> OrderBook \<times> BookEvent list" where
  "amend_order b client_id client_request_id order_id quantity_new now =
     (let err = (\<lambda>e msg. (b, [OnError client_id client_request_id (error_code e) msg now])) in
      case find_order b order_id of
        None \<Rightarrow> err ORDER_NOT_FOUND ''Order ID not found.''
      | Some p \<Rightarrow>
          let order = deref b p in
          if o_client_id order \<noteq> client_id then err UNAUTHORISED ''Unauthorised request.''
          else if quantity_new < o_quantity_cumulative order then err INVALID_VOLUME ''Invalid order size.''
          else let quantity_old_total = o_quantity order;
                   quantity_old_remaining = o_quantity_remaining order;
                   quantity_new_remaining = quantity_new - o_quantity_cumulative order
               in
               if quantity_old_remaining < quantity_new_remaining then err INVALID_VOLUME ''Invalid order size.''
               else if quantity_new_remaining = quantity_old_remaining
               then (b, [OnOrderAmended client_request_id quantity_old_total order now])
               else let delta = quantity_old_remaining - quantity_new_remaining;
                        d = o_is_bid order;
                        s = side_of b d;
                        idx = price_to_index (o_price order);
                        level = (levels s idx)\<lparr>l_total_quantity := l_total_quantity (levels s idx) - delta\<rparr>;
                        s1 = s\<lparr>s_pool := (s_pool s)\<lparr>pool := upd (pool (s_pool s)) (slot p)
                                 (\<lambda>r. r\<lparr>o_quantity := quantity_new,
                                        o_quantity_remaining := quantity_new_remaining\<rparr>)\<rparr>,
                               levels := (levels s)(idx := level)\<rparr>;
                        order_snapshot = pool (s_pool s1) (slot p);
                        s2 = (if l_total_quantity (levels s1 idx) = 0
                              then update_best_after_empty (o_is_bid order_snapshot) s1 else s1);
                        b2 = set_side b d s2;
                        b3 = (if quantity_new_remaining = 0 then remove_order b2 d idx (slot p) else b2)
                    in (b3,
                        [OnOrderAmended client_request_id quantity_old_total order_snapshot now,
                         OnLevelUpdate (if o_is_bid order_snapshot then BUY else SELL) (levels s2 idx) now]))"

section \<open>Snapshots\<close>

text \<open>The bid loop: from index \<open>idx\<close> down, at most \<open>n\<close> levels with volume.\<close>

fun snapshot_down :: "(nat \<Rightarrow> PriceLevel) \<Rightarrow> nat \<Rightarrow> nat \<Rightarrow> (Price_t \<times> Volume_t) list" where
  "snapshot_down lv idx n =
     (if idx < NUM_BOOK_LEVELS \<and> 0 < n
      then let here = (if 0 < l_total_quantity (lv idx)
                       then [(l_price (lv idx), l_total_quantity (lv idx))] else [])
           in here @ (if idx = 0 then [] else snapshot_down lv (idx - 1) (n - length here))
      else [])"

text \<open>The ask loop: from index \<open>idx\<close> up.\<close>

function snapshot_up :: "(nat \<Rightarrow> PriceLevel) \<Rightarrow> nat \<Rightarrow> nat \<Rightarrow> (Price_t \<times> Volume_t) list" where
  "snapshot_up lv idx n =
     (if idx < NUM_BOOK_LEVELS \<and> 0 < n
      then let here = (if 0 < l_total_quantity (lv idx)
                       then [(l_price (lv idx), l_total_quantity (lv idx))] else [])
           in here @ snapshot_up lv (idx + 1) (n - length here)
      else [])"
  by pat_completeness auto
termination
  by (relation "measure (\<lambda>(lv, idx, n). NUM_BOOK_LEVELS - idx)") auto

declare snapshot_down.simps [simp del] snapshot_up.simps [simp del]

text \<open>The arrays of the message: the levels found, then zeros.\<close>

definition pad_levels :: "(Price_t \<times> Volume_t) list \<Rightarrow> (Price_t \<times> Volume_t) list" where
  "pad_levels xs = xs @ replicate (ORDER_BOOK_MESSAGE_DEPTH - length xs) (0, 0)"

record BookSnapshot =
  bid_volumes :: "Volume_t list"
  bid_prices :: "Price_t list"
  ask_volumes :: "Volume_t list"
  ask_prices :: "Price_t list"

definition build_snapshot :: "OrderBook \<Rightarrow> BookSnapshot" where
  "build_snapshot b =
     (let bs = pad_levels (snapshot_down (levels (bids b)) (best_price_index (bids b)) ORDER_BOOK_MESSAGE_DEPTH);
          as = pad_levels (snapshot_up (levels (asks b)) (best_price_index (asks b)) ORDER_BOOK_MESSAGE_DEPTH)
      in \<lparr>bid_volumes = map snd bs, bid_prices = map fst bs,
          ask_volumes = map snd as, ask_prices = map fst as\<rparr>)"

end
