(* ===== verification/Book_Rep.thy ===== *)
theory Book_Rep
  imports Order_Book
begin

text \<open>
  What the whole book represents.  The order lists of the levels are read off the store by
  following the links, so that the invariant \<open>wf_book\<close> and the abstract content \<open>orders\<close> are
  functions of the book; the structural lemmas carry the lists as an argument.
\<close>

section \<open>Reading the lists off the store\<close>

fun walk :: "store \<Rightarrow> nat \<Rightarrow> nat option \<Rightarrow> nat list" where
  "walk p 0 f = []"
| "walk p (Suc n) None = []"
| "walk p (Suc n) (Some x) = x # walk p n (o_next (p x))"

definition lists :: "OrderBookSide \<Rightarrow> nat \<Rightarrow> nat list" where
  "lists s i = (if i < NUM_BOOK_LEVELS
                then walk (side_store s) MAX_ORDERS (l_first (levels s i)) else [])"

lemma walk_seg: "seg p pr f xs l None \<Longrightarrow> length xs \<le> n \<Longrightarrow> walk p n f = xs"
proof (induction xs arbitrary: pr f n)
  case Nil
  then show ?case by (cases n) auto
next
  case (Cons x xs)
  then show ?case by (cases n) auto
qed

lemma level_length:
  assumes "slots_ok L F"
  shows "length (L i) \<le> MAX_ORDERS"
proof -
  have "set (L i) \<subseteq> {..<MAX_ORDERS}" using slots_ok_less [OF assms] by auto
  then have "card (set (L i)) \<le> MAX_ORDERS" using card_mono [of "{..<MAX_ORDERS}"] by fastforce
  then show ?thesis by (simp add: distinct_card slots_ok_distinct [OF assms])
qed

lemma lists_rep:
  assumes "side_rep s L F"
  shows "lists s = L"
proof
  fix i
  show "lists s i = L i"
  proof (cases "i < NUM_BOOK_LEVELS")
    case True
    have "seg (side_store s) None (l_first (levels s i)) (L i) (l_last (levels s i)) None"
      using side_rep_level [OF assms True] by (simp add: level_ok_def)
    then show ?thesis using True level_length [OF side_rep_slots [OF assms]] by (simp add: lists_def walk_seg)
  next
    case False
    then show ?thesis using slots_ok_beyond [OF side_rep_slots [OF assms]] by (simp add: lists_def)
  qed
qed

section \<open>The sides of the book\<close>

lemma side_of_simps [simp]:
  "side_of (set_side b d s) d' = (if d' = d then s else side_of b d')"
  "order_by_handle (set_side b d s) = order_by_handle b"
  "order_id_to_handle (set_side b d s) = order_id_to_handle b"
  "ob_order_id (set_side b d s) = ob_order_id b"
  "side_of (b\<lparr>order_by_handle := bh\<rparr>) d' = side_of b d'"
  "side_of (b\<lparr>order_id_to_handle := im\<rparr>) d' = side_of b d'"
  "side_of (b\<lparr>ob_order_id := n\<rparr>) d' = side_of b d'"
  by (auto simp: side_of_def set_side_def)

lemma side_of_bids [simp]: "side_of b True = bids b" "side_of b False = asks b"
  by (simp_all add: side_of_def)

definition book_ids :: "OrderBook \<Rightarrow> (bool \<Rightarrow> nat \<Rightarrow> nat list) \<Rightarrow> optr \<rightharpoonup> Id_t" where
  "book_ids b L p = side_ids (side_of b (in_bids p)) (L (in_bids p)) p"

text \<open>
  The invariant: both sides are well formed, the tables name exactly the live orders, and their
  ids are among those handed out.
\<close>

definition book_rep :: "OrderBook \<Rightarrow> (bool \<Rightarrow> nat \<Rightarrow> nat list) \<Rightarrow> (bool \<Rightarrow> nat list) \<Rightarrow> bool" where
  "book_rep b L F \<longleftrightarrow>
     (\<forall>d. side_rep (side_of b d) (L d) (F d) \<and> s_is_bid (side_of b d) = d) \<and>
     tables_ok (order_by_handle b) (order_id_to_handle b) (book_ids b L) \<and>
     (\<forall>p i. book_ids b L p = Some i \<longrightarrow> i < ob_order_id b)"

lemma book_repD:
  assumes "book_rep b L F"
  shows book_rep_side: "side_rep (side_of b d) (L d) (F d)"
    and book_rep_bid: "s_is_bid (side_of b d) = d"
    and book_rep_tables: "tables_ok (order_by_handle b) (order_id_to_handle b) (book_ids b L)"
    and book_rep_ids: "book_ids b L p = Some i \<Longrightarrow> i < ob_order_id b"
  using assms by (auto simp: book_rep_def)

lemma book_ids_split:
  assumes "\<And>d. s_is_bid (side_of b d) = d"
  shows "book_ids b L = side_ids (side_of b (\<not> d)) (L (\<not> d)) ++ side_ids (side_of b d) (L d)"
proof
  fix p
  show "book_ids b L p = (side_ids (side_of b (\<not> d)) (L (\<not> d)) ++ side_ids (side_of b d) (L d)) p"
    using assms by (cases "in_bids p = d") (auto simp: book_ids_def map_add_def side_ids_def)
qed

lemma side_ids_other: "in_bids p \<noteq> s_is_bid s \<Longrightarrow> side_ids s L p = None"
  by (simp add: side_ids_def)

text \<open>Replacing one side and the tables.\<close>

lemma book_rep_set:
  assumes rep: "book_rep b L F"
    and side: "side_rep s l f" "s_is_bid s = d"
    and sd: "side_of b' d = s" "side_of b' (\<not> d) = side_of b (\<not> d)"
    and tabs: "tables_ok (order_by_handle b') (order_id_to_handle b')
      (side_ids (side_of b (\<not> d)) (L (\<not> d)) ++ side_ids s l)"
    and ids: "\<And>p i. (side_ids (side_of b (\<not> d)) (L (\<not> d)) ++ side_ids s l) p = Some i \<Longrightarrow> i < ob_order_id b'"
  shows "book_rep b' (L(d := l)) (F(d := f))"
proof -
  have bid: "s_is_bid (side_of b' e) = e" for e
    using side(2) sd book_rep_bid [OF rep, of e] by (cases "e = d") auto
  have s: "side_rep (side_of b' e) ((L(d := l)) e) ((F(d := f)) e)" for e
    using side(1) sd book_rep_side [OF rep, of e] by (cases "e = d") auto
  have "book_ids b' (L(d := l)) = side_ids (side_of b (\<not> d)) (L (\<not> d)) ++ side_ids s l"
    using book_ids_split [of b' "L(d := l)" d] bid sd by simp
  then show ?thesis using bid s tabs ids by (simp add: book_rep_def)
qed

lemma book_rep_start:
  assumes rep: "book_rep b L F"
  shows "ms_rep (side_ids (side_of b (\<not> d)) (L (\<not> d))) (match_start b d q) (L d) (F d)"
proof -
  note bid = book_rep_bid [OF rep]
  show ?thesis
    using book_rep_side [OF rep, of d] book_rep_tables [OF rep] book_ids_split [of b L d] bid
    by (simp add: ms_rep_def match_start_def side_ids_other)
qed

lemma match_finish_simps [simp]:
  "side_of (match_finish b d ms) d' = (if d' = d then m_side ms else side_of b d')"
  "order_by_handle (match_finish b d ms) = m_by_handle ms"
  "order_id_to_handle (match_finish b d ms) = m_id_to_handle ms"
  "ob_order_id (match_finish b d ms) = ob_order_id b"
  by (simp_all add: match_finish_def)

section \<open>Matching against one side of the book\<close>

definition better :: "bool \<Rightarrow> nat \<Rightarrow> nat \<Rightarrow> bool" where
  "better d i j = (if d then j < i else i < j)"

definition prio :: "bool \<Rightarrow> nat list" where
  "prio d = (if d then rev [0..<NUM_BOOK_LEVELS] else [0..<NUM_BOOK_LEVELS])"

definition crosses :: "bool \<Rightarrow> Price_t \<Rightarrow> Price_t \<Rightarrow> bool" where
  "crosses d level_price price = (if d then price \<le> level_price else level_price \<le> price)"

definition next_best :: "bool \<Rightarrow> (nat \<Rightarrow> PriceLevel) \<Rightarrow> nat \<Rightarrow> nat" where
  "next_best d = (if d then next_bid else next_ask)"

lemma direction_eq:
  "better True = (>)" "better False = (<)" "crosses True = (\<ge>)" "crosses False = (\<le>)"
  "prio True = rev [0..<NUM_BOOK_LEVELS]" "prio False = [0..<NUM_BOOK_LEVELS]"
  "next_best True = next_bid" "next_best False = next_ask"
  "update_best_after_empty True = update_best_bid_after_empty"
  "update_best_after_empty False = update_best_ask_after_empty"
  by (auto simp: better_def crosses_def prio_def next_best_def update_best_after_empty_def fun_eq_iff)

interpretation dir: direction "better d" "prio d" "update_best_after_empty d" "next_best d" "crosses d" for d
proof (cases d)
  case True
  then show "direction (better d) (prio d) (update_best_after_empty d) (next_best d) (crosses d)"
    using bids_dir.direction_axioms by (simp add: direction_eq)
next
  case False
  then show "direction (better d) (prio d) (update_best_after_empty d) (next_best d) (crosses d)"
    using asks_dir.direction_axioms by (simp add: direction_eq)
qed

text \<open>Matching an order against side \<open>d\<close>: a sell order meets the bids, a buy order the asks.\<close>

definition match_side ::
  "bool \<Rightarrow> Price_t \<Rightarrow> Id_t \<Rightarrow> Id_t \<Rightarrow> Time_t \<Rightarrow> MatchState \<Rightarrow> MatchState option" where
  "match_side d price order_id client_id now =
     (if d then match_sell price order_id client_id now else match_buy price order_id client_id now)"

lemma match_side_spec:
  assumes "ms_rep ot ms L F"
  shows "\<exists>ms' L' F' evs. match_side d price oid cid now ms = Some ms' \<and>
     loop_post ot (side_tag d) ms L ms' L' F' evs \<and>
     (best_ok (better d) (m_side ms) L \<longrightarrow> fits (m_side ms) L \<longrightarrow>
        dir.refines d price oid cid (m_incoming ms) now ms L ms' L' evs)"
  using dir.match_loop_spec [OF assms, where d = d and price = price and oid = oid and cid = cid
      and sd = "side_tag d" and tot = "m_incoming ms" and now = now]
  by (cases d) (simp_all add: match_side_def match_sell_def match_buy_def side_tag_def direction_eq)

section \<open>The content of the book\<close>

definition orders :: "OrderBook \<Rightarrow> bool \<Rightarrow> Resting list" where
  "orders b d = book_queue (prio d) (side_of b d) (lists (side_of b d))"

lemma orders_rep: "book_rep b L F \<Longrightarrow> orders b d = book_queue (prio d) (side_of b d) (L d)"
  by (simp add: orders_def lists_rep [OF book_rep_side])

text \<open>The volume resting at a price.\<close>

definition volume_at :: "Resting list \<Rightarrow> Price_t \<Rightarrow> nat" where
  "volume_at rs price = (\<Sum>r\<leftarrow>filter (\<lambda>r. r_price r = price) rs. unat (r_remaining r))"

lemma volume_at_simps [simp]:
  "volume_at [] p = 0" "volume_at (xs @ ys) p = volume_at xs p + volume_at ys p"
  "volume_at (r # rs) p = (if r_price r = p then unat (r_remaining r) else 0) + volume_at rs p"
  by (simp_all add: volume_at_def)

lemma volume_at_none: "(\<And>r. r \<in> set rs \<Longrightarrow> r_price r \<noteq> p) \<Longrightarrow> volume_at rs p = 0"
  by (induction rs) auto

lemma volume_at_all: "(\<And>r. r \<in> set rs \<Longrightarrow> r_price r = p) \<Longrightarrow> volume_at rs p = (\<Sum>r\<leftarrow>rs. unat (r_remaining r))"
  by (induction rs) auto

text \<open>Where a new order goes: behind every order of a price at least as good.\<close>

definition place :: "bool \<Rightarrow> Resting \<Rightarrow> Resting list \<Rightarrow> Resting list" where
  "place d r rs =
     (let ahead = (\<lambda>r'. if d then r_price r \<le> r_price r' else r_price r' \<le> r_price r)
      in takeWhile ahead rs @ r # dropWhile ahead rs)"

lemma takeWhile_dropWhile_split:
  assumes "\<And>x. x \<in> set xs \<Longrightarrow> P x" and "\<And>y. y \<in> set ys \<Longrightarrow> \<not> P y"
  shows "takeWhile P (xs @ ys) = xs" "dropWhile P (xs @ ys) = ys"
proof -
  have "takeWhile P ys = []" "dropWhile P ys = ys" using assms(2) by (cases ys; simp)+
  then show "takeWhile P (xs @ ys) = xs" "dropWhile P (xs @ ys) = ys"
    using takeWhile_append2 [of xs P ys] dropWhile_append2 [of xs P ys] assms(1) by simp_all
qed

lemma book_queue_split:
  assumes i: "i < NUM_BOOK_LEVELS"
  obtains as bs where
    "\<And>s L. book_queue (prio d) s L =
       concat (map (\<lambda>j. queue s (L j)) as) @ queue s (L i) @ concat (map (\<lambda>j. queue s (L j)) bs)"
    "\<And>j. j \<in> set as \<Longrightarrow> better d j i" "\<And>j. j \<in> set bs \<Longrightarrow> better d i j"
proof -
  obtain as bs where "prio d = as @ i # bs" "\<And>j. j \<in> set as \<Longrightarrow> better d j i" "\<And>j. j \<in> set bs \<Longrightarrow> better d i j"
    using dir.prio_split [OF i] by blast
  then show ?thesis by (intro that [of as bs]) (auto simp: book_queue_def)
qed

lemma queue_levels_cong:
  assumes "\<And>j y. j \<in> set js \<Longrightarrow> L' j = L j" "\<And>j y. j \<in> set js \<Longrightarrow> y \<in> set (L j) \<Longrightarrow>
      view (side_store s' y) = view (side_store s y)"
  shows "concat (map (\<lambda>j. queue s' (L' j)) js) = concat (map (\<lambda>j. queue s (L j)) js)"
proof -
  have "queue s' (L' j) = queue s (L j)" if "j \<in> set js" for j
    using assms(1) [OF that] assms(2) [OF that] by (auto intro: queue_cong)
  then show ?thesis by (simp cong: map_cong)
qed

lemma book_queue_add:
  assumes rep: "side_rep s L F" and i: "i < NUM_BOOK_LEVELS" and pr: "o_price (side_store s' x) = MINIMUM_BID + int i"
    and kp: "\<And>j y. y \<in> set (L j) \<Longrightarrow> view (side_store s' y) = view (side_store s y)"
  shows "book_queue (prio d) s' (L(i := L i @ [x])) = place d (view (side_store s' x)) (book_queue (prio d) s L)"
proof -
  obtain as bs where q: "\<And>s L. book_queue (prio d) s L =
       concat (map (\<lambda>j. queue s (L j)) as) @ queue s (L i) @ concat (map (\<lambda>j. queue s (L j)) bs)"
    and as: "\<And>j. j \<in> set as \<Longrightarrow> better d j i" and bs: "\<And>j. j \<in> set bs \<Longrightarrow> better d i j"
    using book_queue_split [OF i] by blast
  let ?r = "view (side_store s' x)"
  let ?P = "\<lambda>r'. if d then r_price ?r \<le> r_price r' else r_price r' \<le> r_price ?r"
  let ?A = "concat (map (\<lambda>j. queue s (L j)) as)" and ?B = "concat (map (\<lambda>j. queue s (L j)) bs)"
  have "i \<notin> set as" "i \<notin> set bs" using as bs dir.better_irrefl by blast+
  then have "concat (map (\<lambda>j. queue s' ((L(i := L i @ [x])) j)) as) = ?A"
    "concat (map (\<lambda>j. queue s' ((L(i := L i @ [x])) j)) bs) = ?B"
    using kp by (intro queue_levels_cong; auto)+
  moreover have "queue s' (L i @ [x]) = queue s (L i) @ [?r]" using kp by (auto simp: intro: queue_cong)
  ultimately have 1: "book_queue (prio d) s' (L(i := L i @ [x])) = (?A @ queue s (L i)) @ ?r # ?B"
    by (simp add: q)
  have "?P r" if r: "r \<in> set (?A @ queue s (L i))" for r
  proof -
    obtain j where "better d j i \<or> j = i" "r \<in> set (queue s (L j))" using r as by auto
    then show ?thesis using queue_price [OF rep, of r j] pr by (auto simp: better_def)
  qed
  moreover have "\<not> ?P r" if r: "r \<in> set ?B" for r
  proof -
    obtain j where "better d i j" "r \<in> set (queue s (L j))" using r bs by auto
    then show ?thesis using queue_price [OF rep, of r j] pr by (auto simp: better_def)
  qed
  ultimately have "takeWhile ?P ((?A @ queue s (L i)) @ ?B) = ?A @ queue s (L i)"
    "dropWhile ?P ((?A @ queue s (L i)) @ ?B) = ?B"
    by (rule takeWhile_dropWhile_split; blast)+
  then show ?thesis unfolding 1 place_def Let_def q [of s L] by (simp only: append_assoc)
qed

lemma volume_at_queue:
  assumes rep: "side_rep s L F" and i: "i < NUM_BOOK_LEVELS"
  shows "volume_at (book_queue (prio d) s L) (MINIMUM_BID + int i) = (\<Sum>r\<leftarrow>queue s (L i). unat (r_remaining r))"
proof -
  obtain as bs where q: "\<And>s L. book_queue (prio d) s L =
       concat (map (\<lambda>j. queue s (L j)) as) @ queue s (L i) @ concat (map (\<lambda>j. queue s (L j)) bs)"
    and as: "\<And>j. j \<in> set as \<Longrightarrow> better d j i" and bs: "\<And>j. j \<in> set bs \<Longrightarrow> better d i j"
    using book_queue_split [OF i] by blast
  have out: "i \<notin> set js \<Longrightarrow> volume_at (concat (map (\<lambda>j. queue s (L j)) js)) (MINIMUM_BID + int i) = 0" for js
    using queue_price [OF rep] by (intro volume_at_none) fastforce
  have "i \<notin> set as" "i \<notin> set bs" using as bs dir.better_irrefl by blast+
  then show ?thesis using out queue_price [OF rep, of _ i] by (simp add: q volume_at_all)
qed

lemma fits_volume:
  assumes rep: "side_rep s L F"
  shows "fits s L \<longleftrightarrow> (\<forall>p. volume_at (book_queue (prio d) s L) p < 2 ^ 32)"
proof
  assume f: "fits s L"
  show "\<forall>p. volume_at (book_queue (prio d) s L) p < 2 ^ 32"
  proof
    fix p
    show "volume_at (book_queue (prio d) s L) p < 2 ^ 32"
    proof (cases "price_ok p")
      case True
      then show ?thesis
        using f volume_at_queue [OF rep price_to_index_less [OF True], of d] price_to_index_less [OF True]
        by (simp add: fits_def index_price)
    next
      case False
      have "r_price r \<noteq> p" if r: "r \<in> set (book_queue (prio d) s L)" for r
      proof -
        obtain j where "j < NUM_BOOK_LEVELS" "r \<in> set (queue s (L j))"
          using r dir.prio_set [of d] by (auto simp: book_queue_def)
        then show ?thesis using False queue_price [OF rep, of r j] price_ok_index by auto
      qed
      then show ?thesis by (simp add: volume_at_none)
    qed
  qed
next
  assume "\<forall>p. volume_at (book_queue (prio d) s L) p < 2 ^ 32"
  then show "fits s L" unfolding fits_def by (metis volume_at_queue [OF rep])
qed

text \<open>The free list and the orders share out the slots.\<close>

lemma length_levels:
  assumes ok: "slots_ok L F" and ps: "distinct js" "set js = {..<NUM_BOOK_LEVELS}"
  shows "length F + length (concat (map L js)) = MAX_ORDERS"
proof -
  let ?U = "\<Union>j<NUM_BOOK_LEVELS. set (L j)"
  have "length (concat (map L js)) = (\<Sum>j\<leftarrow>js. length (L j))" by (simp add: length_concat comp_def)
  also have "\<dots> = (\<Sum>j<NUM_BOOK_LEVELS. card (set (L j)))"
    using ps by (simp add: sum_list_distinct_conv_sum_set distinct_card slots_ok_distinct [OF ok])
  also have "\<dots> = card ?U"
    using slots_ok_same [OF ok] by (intro card_UN_disjoint [symmetric]) auto
  finally have U: "length (concat (map L js)) = card ?U" .
  have "set F \<union> ?U = {..<MAX_ORDERS}" using ok slots_ok_idx [OF ok] unfolding slots_ok_def by blast
  moreover have "set F \<inter> ?U = {}" using slots_ok_not_free [OF ok] by auto
  ultimately have "card (set F) + card ?U = MAX_ORDERS"
    by (metis card_Un_disjoint card_lessThan finite_Un finite_lessThan)
  then show ?thesis by (simp add: U distinct_card slots_ok_free_distinct [OF ok])
qed

lemma capacity:
  assumes "side_rep s L F"
  shows "length F + length (book_queue (prio d) s L) = MAX_ORDERS"
proof -
  have "length (book_queue (prio d) s L) = length (concat (map L (prio d)))"
    by (simp add: book_queue_def queue_def length_concat comp_def)
  then show ?thesis
    using length_levels [OF side_rep_slots [OF assms], of "prio d"] dir.prio_set [of d]
    by (simp add: prio_def)
qed

text \<open>The best index is right exactly when it is the index of the first order in the queue.\<close>

definition best_index :: "Resting list \<Rightarrow> nat" where
  "best_index rs = (case rs of [] \<Rightarrow> NUM_BOOK_LEVELS | r # _ \<Rightarrow> price_to_index (r_price r))"

lemma best_ok_head:
  assumes rep: "side_rep s L F" and bo: "best_ok (better d) s L"
  shows "best_price_index s = best_index (book_queue (prio d) s L)"
proof (cases "best_price_index s = NUM_BOOK_LEVELS")
  case True
  then show ?thesis using dir.book_queue_empty [OF rep bo True] by (simp add: best_index_def)
next
  case False
  let ?k = "best_price_index s"
  have k: "?k < NUM_BOOK_LEVELS" "L ?k \<noteq> []" using side_rep_best [OF rep False] by auto
  obtain x xs where Lk: "L ?k = x # xs" using k(2) by (cases "L ?k") auto
  obtain bs where "book_queue (prio d) s L = queue s (L ?k) @ bs"
    using dir.book_queue_best [OF bo refl k(1)] by metis
  then show ?thesis
    using Lk queue_price [OF rep, of "view (side_store s x)" ?k] k(1)
    by (simp add: best_index_def price_to_index_of)
qed

lemma head_best_ok:
  assumes rep: "side_rep s L F" and best: "best_price_index s = best_index (book_queue (prio d) s L)"
  shows "best_ok (better d) s L"
  unfolding best_ok_def
proof (intro allI impI)
  fix i assume i: "i < NUM_BOOK_LEVELS" "L i \<noteq> []"
  obtain as bs where q: "\<And>s L. book_queue (prio d) s L =
       concat (map (\<lambda>j. queue s (L j)) as) @ queue s (L i) @ concat (map (\<lambda>j. queue s (L j)) bs)"
    and as: "\<And>j. j \<in> set as \<Longrightarrow> better d j i" and bs: "\<And>j. j \<in> set bs \<Longrightarrow> better d i j"
    using book_queue_split [OF i(1)] by blast
  let ?xs = "concat (map (\<lambda>j. queue s (L j)) as) @ queue s (L i)"
  have "?xs \<noteq> []" using i(2) by simp
  then obtain r rs where xs: "?xs = r # rs" by (meson neq_Nil_conv)
  then have "r \<in> set ?xs" by (metis list.set_intros(1))
  then obtain j where j: "better d j i \<or> j = i" "r \<in> set (queue s (L j))" using as by auto
  then have "L j \<noteq> []" by auto
  then have jN: "j < NUM_BOOK_LEVELS" using slots_ok_beyond [OF side_rep_slots [OF rep], of j] not_le by blast
  have "book_queue (prio d) s L = r # (rs @ concat (map (\<lambda>j. queue s (L j)) bs))"
    using xs by (metis q append.assoc append_Cons)
  then have "best_price_index s = j"
    using best queue_price [OF rep j(2)] jN by (simp add: best_index_def price_to_index_of)
  then show "best_price_index s < NUM_BOOK_LEVELS \<and> \<not> better d i (best_price_index s)"
    using j(1) jN by (auto simp: better_def split: if_splits)
qed

lemma best_ok_iff:
  "side_rep s L F \<Longrightarrow>
   best_ok (better d) s L \<longleftrightarrow> best_price_index s = best_index (book_queue (prio d) s L)"
  using best_ok_head head_best_ok by blast

section \<open>Well-formed and sound books\<close>

definition wf_book :: "OrderBook \<Rightarrow> bool" where
  "wf_book b \<longleftrightarrow> (\<exists>L F. book_rep b L F)"

text \<open>
  A sound book: well formed, both best indices right, no level total beyond 32 bits, and no bid
  at or above an ask.
\<close>

definition best_right :: "OrderBook \<Rightarrow> bool" where
  "best_right b \<longleftrightarrow> (\<forall>d. best_price_index (side_of b d) = best_index (orders b d))"

definition within_range :: "OrderBook \<Rightarrow> bool" where
  "within_range b \<longleftrightarrow> (\<forall>d p. volume_at (orders b d) p < 2 ^ 32)"

definition uncrossed :: "OrderBook \<Rightarrow> bool" where
  "uncrossed b \<longleftrightarrow> (\<forall>r \<in> set (orders b True). \<forall>r' \<in> set (orders b False). r_price r < r_price r')"

definition sound_book :: "OrderBook \<Rightarrow> bool" where
  "sound_book b \<longleftrightarrow> wf_book b \<and> best_right b \<and> within_range b \<and> uncrossed b"

lemma best_right_rep: "book_rep b L F \<Longrightarrow> best_right b \<longleftrightarrow> (\<forall>d. best_ok (better d) (side_of b d) (L d))"
  by (simp add: best_right_def best_ok_iff [OF book_rep_side] orders_rep)

lemma within_range_rep: "book_rep b L F \<Longrightarrow> within_range b \<longleftrightarrow> (\<forall>d. fits (side_of b d) (L d))"
  using fits_volume [OF book_rep_side] by (simp add: within_range_def orders_rep)

lemma side_rep_init: "side_rep (OrderBookSide_init mem d) (\<lambda>_. []) [0..<MAX_ORDERS]"
proof (rule side_repI)
  show "chain (side_store (OrderBookSide_init mem d)) (next_free (s_pool (OrderBookSide_init mem d))) [0..<MAX_ORDERS]"
    using chain_init [of mem] by (simp add: OrderBookSide_init_def)
qed (auto simp: slots_ok_def OrderBookSide_init_def OrderPool_init_def level_ok_def)

lemma book_rep_init: "book_rep (OrderBook_init mb ma) (\<lambda>_ _. []) (\<lambda>_. [0..<MAX_ORDERS])"
proof -
  have s: "side_of (OrderBook_init mb ma) d = OrderBookSide_init (if d then mb else ma) d" for d
    by (simp add: OrderBook_init_def side_of_def)
  have "book_ids (OrderBook_init mb ma) (\<lambda>_ _. []) = Map.empty"
    by (simp add: book_ids_def side_ids_def fun_eq_iff)
  then show ?thesis
    by (auto simp: book_rep_def s side_rep_init tables_ok_def)
      (auto simp: OrderBookSide_init_def OrderBook_init_def)
qed

lemma orders_init [simp]: "orders (OrderBook_init mb ma) d = []"
  by (simp add: orders_rep [OF book_rep_init] book_queue_def)

lemma best_init [simp]: "best_price_index (side_of (OrderBook_init mb ma) d) = NUM_BOOK_LEVELS"
  by (simp add: OrderBook_init_def OrderBookSide_init_def side_of_def)

lemma sound_book_init: "sound_book (OrderBook_init mb ma)"
  using book_rep_init
  by (auto simp: sound_book_def wf_book_def best_right_def within_range_def uncrossed_def best_index_def)

end
