(* ===== verification/Book_Submit.thy ===== *)
theory Book_Submit
  imports Book_Rep
begin

text \<open>
  Submitting an order: the operation returns from every well-formed book, keeps it well formed,
  and refines the list-level specification of a limit order book with price-time priority.
\<close>

section \<open>Resting what is left\<close>

lemma set_side_of [simp]: "set_side b d (side_of b d) = b"
  by (simp add: set_side_def)

lemma rest_order_full:
  assumes "book_rep b L F" and "F d = []"
  shows "rest_order b d price q rm oid cid rid now now_add =
    (b, [OnError cid rid (error_code ORDER_BOOK_FULL) ''Order book is full.'' now_add])"
proof -
  have "side_rep (side_of b d) (L d) []" using book_rep_side [OF assms(1), of d] assms(2) by simp
  from add_order_None [OF this] show ?thesis by (simp add: rest_order_def)
qed

text \<open>The order as it rests.\<close>

definition resting :: "Id_t \<Rightarrow> Id_t \<Rightarrow> Price_t \<Rightarrow> Volume_t \<Rightarrow> Volume_t \<Rightarrow> Resting" where
  "resting oid cid price q rm =
     \<lparr>r_order_id = oid, r_client_id = cid, r_price = price, r_quantity = q, r_remaining = rm,
      r_cumulative = q - rm\<rparr>"

lemma resting_sel [simp]:
  "r_order_id (resting oid cid price q rm) = oid" "r_client_id (resting oid cid price q rm) = cid"
  "r_price (resting oid cid price q rm) = price" "r_remaining (resting oid cid price q rm) = rm"
  "r_quantity (resting oid cid price q rm) = q" "r_cumulative (resting oid cid price q rm) = q - rm"
  by (simp_all add: resting_def)

lemma best_ok_add:
  assumes bo: "best_ok (better d) s L" and bid: "s_is_bid s = d" and i: "i < NUM_BOOK_LEVELS"
    and rep: "side_rep s L F"
    and best: "best_price_index s' = best_price_index (after_order s i)"
  shows "best_ok (better d) s' (L(i := L i @ [x]))"
  unfolding best_ok_def
proof (intro allI impI)
  fix j assume j: "j < NUM_BOOK_LEVELS" "(L(i := L i @ [x])) j \<noteq> []"
  let ?k = "best_price_index s"
  have k: "?k = NUM_BOOK_LEVELS \<or> ?k < NUM_BOOK_LEVELS" using side_rep_best [OF rep] by blast
  have k': "best_price_index s' = (if ?k = NUM_BOOK_LEVELS \<or> better d i ?k then i else ?k)"
    using bid by (simp add: best after_order_best better_def)
  have "j \<noteq> i \<Longrightarrow> ?k < NUM_BOOK_LEVELS \<and> \<not> better d j ?k" using bo j by (simp add: best_ok_def)
  then show "best_price_index s' < NUM_BOOK_LEVELS \<and> \<not> better d j (best_price_index s')"
    unfolding k' using k i dir.better_irrefl dir.better_trans by (cases "j = i") auto
qed

text \<open>The book with one side replaced by the side with \<open>x\<close> added, and the entries of \<open>x\<close> in the tables.\<close>

lemma book_rep_insert:
  assumes rep: "book_rep b L F" and xm: "x < MAX_ORDERS" and xL: "\<And>j. x \<notin> set (L d j)"
    and fresh: "order_id_to_handle b oid = None" "oid < ob_order_id b"
    and side': "side_rep s' ((L d)(i := L d i @ [x])) f" "s_is_bid s' = s_is_bid (side_of b d)"
      "o_order_id (side_store s' x) = oid"
    and kept': "\<And>y. y \<noteq> x \<Longrightarrow> kept (side_store (side_of b d) y) (side_store s' y)"
    and b': "b' = (set_side b d s')\<lparr>
      order_by_handle := (order_by_handle b)(enc (OPtr d x) := Some (OPtr d x)),
      order_id_to_handle := (order_id_to_handle b)(oid \<mapsto> of_nat (enc (OPtr d x)))\<rparr>"
  shows "book_rep b' (L(d := (L d)(i := L d i @ [x]))) (F(d := f))"
proof -
  let ?s = "side_of b d" and ?p = "OPtr d x"
  let ?ids = "side_ids (side_of b (\<not> d)) (L (\<not> d)) ++ side_ids ?s (L d)"
  note bid = book_rep_bid [OF rep, of d]
  have bi: "?ids = book_ids b L" by (rule book_ids_split [OF book_rep_bid [OF rep], symmetric])
  have tabs: "tables_ok (order_by_handle b) (order_id_to_handle b) ?ids"
    unfolding bi by (rule book_rep_tables [OF rep])
  have lt: "\<And>p i. ?ids p = Some i \<Longrightarrow> i < ob_order_id b"
    unfolding bi by (rule book_rep_ids [OF rep])
  have "?ids ?p = None"
    using xL book_rep_bid [OF rep, of "\<not> d"] by (simp add: map_add_None side_ids_def)
  note ins = tables_insert [OF tabs this _ fresh(1)]
  have "side_ids s' ((L d)(i := L d i @ [x])) = (side_ids ?s (L d))(?p \<mapsto> oid)"
    using side_ids_add [of s' ?s x "L d" i, OF side'(2) kept_id [OF kept']] side'(3) bid by simp
  then have ids': "side_ids (side_of b (\<not> d)) (L (\<not> d)) ++ side_ids s' ((L d)(i := L d i @ [x])) = ?ids(?p \<mapsto> oid)"
    by simp
  show ?thesis
    by (rule book_rep_set [OF rep side'(1)])
      (use side'(2) bid ins xm lt fresh(2) in \<open>auto simp: b' ids' split: if_splits\<close>)
qed

lemma rest_order_rep:
  assumes rep: "book_rep b L F" and Fd: "F d = x # f"
    and pr: "price_ok price" and rm: "0 < rm" "rm \<le> q"
    and fresh: "order_id_to_handle b oid = None" "oid < ob_order_id b"
  defines "i \<equiv> price_to_index price"
  defines "L' \<equiv> L(d := (L d)(i := L d i @ [x]))"
  obtains b' r where
    "rest_order b d price q rm oid cid rid now now_add =
       (b', [OnLevelUpdate (side_tag d) (levels (side_of b' d) i) now_add, OnOrderInserted rid r now])"
    "book_rep b' L' (F(d := f))" "view r = resting oid cid price q rm"
    "book_queue (prio d) (side_of b' d) (L' d) =
       place d (resting oid cid price q rm) (book_queue (prio d) (side_of b d) (L d))"
    "side_of b' (\<not> d) = side_of b (\<not> d)" "ob_order_id b' = ob_order_id b"
    "\<And>j. j \<noteq> i \<Longrightarrow> levels (side_of b' d) j = levels (side_of b d) j"
    "best_ok (better d) (side_of b d) (L d) \<Longrightarrow> best_ok (better d) (side_of b' d) (L' d)"
proof -
  let ?s = "side_of b d" and ?p = "OPtr d x"
  have side: "side_rep ?s (L d) (x # f)" and bid: "s_is_bid ?s = d"
    using book_rep_side [OF rep, of d] book_rep_bid [OF rep, of d] Fd by simp_all
  have iN: "i < NUM_BOOK_LEVELS" unfolding i_def by (rule price_to_index_less [OF pr])
  note slots = side_rep_slots [OF side]
  have xm: "x < MAX_ORDERS" using slots_ok_free_less [OF slots] by simp
  have xL: "x \<notin> set (L d j)" for j using slots_ok_not_free [OF slots, of x] by fastforce
  obtain s' where s': "add_order ?s price q rm oid cid rid now_add =
       (Some x, s', [OnLevelUpdate (if s_is_bid ?s then BUY else SELL) (levels s' i) now_add])"
    "side_rep s' ((L d)(i := L d i @ [x])) f" "view (side_store s' x) = resting oid cid price q rm"
    "\<And>y. y \<noteq> x \<Longrightarrow> kept (side_store ?s y) (side_store s' y)" "s_is_bid s' = s_is_bid ?s"
    "\<And>j. j \<noteq> i \<Longrightarrow> levels s' j = levels ?s j"
    "best_price_index s' = best_price_index (after_order ?s i)"
    using add_order_rep [OF side pr rm, of oid cid rid now_add] unfolding i_def resting_def by metis
  let ?r = "side_store s' x"
  have enc: "o_order_handle ?r * 2 + (if d then 0 else 1) = of_nat (enc ?p)"
    using side_rep_handle [OF s'(2) xm] by (simp add: enc_def mult.commute)
  define b' where "b' = (set_side b d s')\<lparr>
      order_by_handle := (order_by_handle b)(enc ?p := Some ?p),
      order_id_to_handle := (order_id_to_handle b)(oid \<mapsto> of_nat (enc ?p))\<rparr>"
  have eq: "rest_order b d price q rm oid cid rid now now_add =
      (b', [OnLevelUpdate (side_tag d) (levels (side_of b' d) i) now_add, OnOrderInserted rid ?r now])"
    using fresh(1) xm
    by (simp add: rest_order_def s'(1) bid Let_def enc unat_enc emplace_def b'_def side_tag_def)
  have "o_order_id ?r = oid" using arg_cong [OF s'(3), of r_order_id] by simp
  then have rep': "book_rep b' L' (F(d := f))"
    unfolding L'_def using book_rep_insert [OF rep xm xL fresh s'(2,5) _ s'(4) b'_def] by simp
  have kp: "view (side_store s' y) = view (side_store ?s y)" if "y \<in> set (L d j)" for j y
    using s'(4) [of y] xL that by (auto simp: kept_def)
  have "o_price ?r = MINIMUM_BID + int i" 
    using arg_cong [OF s'(3), of r_price] index_price [OF pr] by (simp add: i_def)
  note q = book_queue_add [where d = d, OF side iN this kp]
  show ?thesis
    using best_ok_add [OF _ bid iN side s'(7)] s'(3,6) q
    by (intro that [OF eq rep']) (simp_all add: b'_def L'_def)
qed

section \<open>Matching, then resting\<close>

lemma match_start_id [simp]: "match_start (b\<lparr>ob_order_id := n\<rparr>) d q = match_start b d q"
  by (simp add: match_start_def)

lemma match_start_sel [simp]:
  "m_side (match_start b d q) = side_of b d" "m_incoming (match_start b d q) = q"
  "m_events (match_start b d q) = []" "m_by_handle (match_start b d q) = order_by_handle b"
  "m_id_to_handle (match_start b d q) = order_id_to_handle b"
  by (simp_all add: match_start_def)

text \<open>\<open>submit_order\<close> on a valid order, with the two directions named by \<open>match_side\<close>.\<close>

lemma submit_eq:
  assumes "q \<noteq> 0" and "price_ok price"
  shows "submit_order b price q d cid rid now now_match now_add =
    (case match_side (\<not> d) price (ob_order_id b) cid now_match (match_start b (\<not> d) q) of
       None \<Rightarrow> None
     | Some ms \<Rightarrow>
         let b2 = match_finish (b\<lparr>ob_order_id := ob_order_id b + 1\<rparr>) (\<not> d) ms in
         if 0 < m_incoming ms
         then (case rest_order b2 d price q (m_incoming ms) (ob_order_id b) cid rid now now_add of
                 (b3, evs) \<Rightarrow> Some (b3, m_events ms @ evs))
         else Some (b2, m_events ms))"
proof -
  have "\<not> (price < MINIMUM_BID \<or> price > MAXIMUM_ASK)" using assms(2) by (auto simp: price_ok_def)
  then show ?thesis using assms(1)
    by (cases d) (simp_all add: submit_order_def match_side_def Let_def
        split: option.split Option.bind_split)
qed

lemma submit_match:
  assumes rep: "book_rep b L F" and lt: "unat (ob_order_id b) + 1 < 2 ^ 32"
  obtains ms l f evs where
    "match_side e price oid cid now (match_start b e q) = Some ms"
    "book_rep (match_finish (b\<lparr>ob_order_id := ob_order_id b + 1\<rparr>) e ms) (L(e := l)) (F(e := f))"
    "m_id_to_handle ms (ob_order_id b) = None" "m_events ms = evs"
    "\<And>v. feed evs (v(side_tag e := totals (side_of b e))) = v(side_tag e := totals (m_side ms))"
    "m_incoming ms \<le> q"
    "best_ok (better e) (side_of b e) (L e) \<Longrightarrow> fits (side_of b e) (L e) \<Longrightarrow>
       dir.refines e price oid cid q now (match_start b e q) (L e) ms l evs"
proof -
  let ?ot = "side_ids (side_of b (\<not> e)) (L (\<not> e))" and ?s = "side_of b e"
  from match_side_spec [OF book_rep_start [OF rep, of e q], where d = e and price = price and oid = oid and
      cid = cid and now = now]
  obtain ms l f evs where m: "match_side e price oid cid now (match_start b e q) = Some ms"
    "loop_post ?ot (side_tag e) (match_start b e q) (L e) ms l f evs"
    "best_ok (better e) ?s (L e) \<Longrightarrow> fits ?s (L e) \<Longrightarrow>
       dir.refines e price oid cid q now (match_start b e q) (L e) ms l evs"
    by auto
  have post: "ms_rep ?ot ms l f" "s_is_bid (m_side ms) = e" "m_incoming ms \<le> q" "m_events ms = evs"
    "side_ids (m_side ms) l \<subseteq>\<^sub>m side_ids ?s (L e)"
    "\<And>v. feed evs (v(side_tag e := totals ?s)) = v(side_tag e := totals (m_side ms))"
    using m(2) book_rep_bid [OF rep, of e] by (auto simp: loop_post_def word_le_nat_alt)
  have bi: "?ot ++ side_ids ?s (L e) = book_ids b L"
    by (rule book_ids_split [OF book_rep_bid [OF rep], symmetric])
  have sub: "i < ob_order_id b" if "(?ot ++ side_ids (m_side ms) l) p = Some i" for p i
  proof -
    have "(?ot ++ side_ids ?s (L e)) p = Some i"
    proof (cases "in_bids p = e")
      case True
      then have "side_ids (m_side ms) l p = Some i"
        using that side_ids_other [of p "side_of b (\<not> e)"] book_rep_bid [OF rep, of "\<not> e"]
        by (auto simp: map_add_Some_iff)
      then have "side_ids ?s (L e) p = Some i" using post(5) by (metis domI map_le_def)
      then show ?thesis by (simp add: map_add_Some_iff)
    next
      case False
      then show ?thesis
        using that side_ids_other [of p ?s] side_ids_other [of p "m_side ms"] post(2) book_rep_bid [OF rep, of e]
        by (simp add: map_add_Some_iff)
    qed
    then show ?thesis unfolding bi by (rule book_rep_ids [OF rep])
  qed
  have lt': "i < ob_order_id b \<Longrightarrow> i < ob_order_id b + 1" for i
    using lt by (simp add: word_less_nat_alt unat_add_bounded)
  have "book_rep (match_finish (b\<lparr>ob_order_id := ob_order_id b + 1\<rparr>) e ms) (L(e := l)) (F(e := f))"
    by (rule book_rep_set [OF rep ms_rep_side [OF post(1)] post(2)])
      (use ms_rep_tables [OF post(1)] sub lt' in auto)
  moreover have "m_id_to_handle ms (ob_order_id b) = None"
    using tables_None [OF ms_rep_tables [OF post(1)], of "ob_order_id b"] sub [of _ "ob_order_id b"]
    by (metis less_irrefl)
  ultimately show ?thesis using that m(1,3) post by blast
qed

section \<open>The specification of a submission\<close>

text \<open>
  On the two queues: match against the other side, then place what is left, if there is room.
  The result is the new queues, the fills, and the quantity left.
\<close>

definition spec_submit ::
  "(bool \<Rightarrow> Resting list) \<Rightarrow> Id_t \<Rightarrow> Id_t \<Rightarrow> Price_t \<Rightarrow> Volume_t \<Rightarrow> bool \<Rightarrow>
   (bool \<Rightarrow> Resting list) \<times> (Resting \<times> Volume_t) list \<times> Volume_t" where
  "spec_submit os oid cid price q d =
     (case spec_match (\<lambda>p. crosses (\<not> d) p price) q (os (\<not> d)) of
        (fs, rest, q') \<Rightarrow>
          (if 0 < q' \<and> length (os d) < MAX_ORDERS
           then os(\<not> d := rest, d := place d (resting oid cid price q q') (os d))
           else os(\<not> d := rest), fs, q'))"

lemma orders_fun: "book_rep b L F \<Longrightarrow> orders b = (\<lambda>d. book_queue (prio d) (side_of b d) (L d))"
  using orders_rep by blast

text \<open>The volume at every price, as the feed of the book reports it.\<close>

definition volumes_of :: "OrderBook \<Rightarrow> volumes" where
  "volumes_of b sd = totals (side_of b (sd = BUY))"

lemma volumes_of_set:
  assumes "side_of b' (\<not> d) = side_of b (\<not> d)"
  shows "volumes_of b' = (volumes_of b)(side_tag d := totals (side_of b' d))"
proof
  fix sd
  show "volumes_of b' sd = ((volumes_of b)(side_tag d := totals (side_of b' d))) sd"
    using assms by (cases sd; cases d) (simp_all add: volumes_of_def side_tag_def)
qed

lemma volumes_of_same: "(volumes_of b)(side_tag d := totals (side_of b d)) = volumes_of b"
  using volumes_of_set [of b d b] by simp

lemma set_book_queue: "r \<in> set (book_queue (prio d) s L) \<longleftrightarrow> (\<exists>i<NUM_BOOK_LEVELS. r \<in> set (queue s (L i)))"
  using dir.prio_set [of d] by (auto simp: book_queue_def)

lemma match_book:
  assumes rep: "book_rep b L F" and lt: "unat (ob_order_id b) + 1 < 2 ^ 32"
  obtains ms b2 l f where
    "match_side e price oid cid now (match_start b e q) = Some ms"
    "b2 = match_finish (b\<lparr>ob_order_id := ob_order_id b + 1\<rparr>) e ms"
    "book_rep b2 (L(e := l)) (F(e := f))" "order_id_to_handle b2 (ob_order_id b) = None" "m_incoming ms \<le> q"
    "feed (m_events ms) (volumes_of b) = volumes_of b2" "orders b2 (\<not> e) = orders b (\<not> e)"
    "best_right b \<Longrightarrow> within_range b \<Longrightarrow> best_right b2 \<and> within_range b2 \<and>
       (\<exists>fs. spec_match (\<lambda>p. crosses e p price) q (orders b e) = (fs, orders b2 e, m_incoming ms) \<and>
         trades_of (m_events ms) = spec_trades cid oid q now q fs) \<and>
       (0 < m_incoming ms \<longrightarrow> (\<forall>r \<in> set (orders b2 e). \<not> crosses e (r_price r) price))"
proof -
  obtain ms l f evs where m: "match_side e price oid cid now (match_start b e q) = Some ms"
    "book_rep (match_finish (b\<lparr>ob_order_id := ob_order_id b + 1\<rparr>) e ms) (L(e := l)) (F(e := f))"
    "m_id_to_handle ms (ob_order_id b) = None" "m_events ms = evs"
    "\<And>v. feed evs (v(side_tag e := totals (side_of b e))) = v(side_tag e := totals (m_side ms))"
    "m_incoming ms \<le> q"
    "best_ok (better e) (side_of b e) (L e) \<Longrightarrow> fits (side_of b e) (L e) \<Longrightarrow>
       dir.refines e price oid cid q now (match_start b e q) (L e) ms l evs"
    using submit_match [OF assms, where e = e and price = price and oid = oid and cid = cid and now = now and q = q]
    by metis
  define b2 where "b2 = match_finish (b\<lparr>ob_order_id := ob_order_id b + 1\<rparr>) e ms"
  have side: "side_of b2 e = m_side ms" "side_of b2 (\<not> e) = side_of b (\<not> e)" by (simp_all add: b2_def)
  have rep2: "book_rep b2 (L(e := l)) (F(e := f))" using m(2) by (simp add: b2_def)
  have o: "orders b2 e = book_queue (prio e) (m_side ms) l" "orders b2 (\<not> e) = orders b (\<not> e)"
    using side by (simp_all add: orders_rep [OF rep] orders_rep [OF rep2])
  have "feed (m_events ms) (volumes_of b) = volumes_of b2"
    using m(4,5) volumes_of_set [OF side(2)] side(1) volumes_of_same [of b e] by metis
  moreover have "best_right b2 \<and> within_range b2 \<and>
       (\<exists>fs. spec_match (\<lambda>p. crosses e p price) q (orders b e) = (fs, orders b2 e, m_incoming ms) \<and>
         trades_of (m_events ms) = spec_trades cid oid q now q fs) \<and>
       (0 < m_incoming ms \<longrightarrow> (\<forall>r \<in> set (orders b2 e). \<not> crosses e (r_price r) price))"
    if br: "best_right b" and wr: "within_range b"
  proof -
    have bo: "\<And>d. best_ok (better d) (side_of b d) (L d)" "\<And>d. fits (side_of b d) (L d)"
      using br wr best_right_rep [OF rep] within_range_rep [OF rep] by auto
    note r = m(7) [OF bo, unfolded dir.refines_def]
    then have c: "0 < m_incoming ms \<Longrightarrow> \<forall>i<NUM_BOOK_LEVELS. l i \<noteq> [] \<longrightarrow> \<not> crosses e (MINIMUM_BID + int i) price"
      by blast
    have "best_ok (better d) (side_of b2 d) ((L(e := l)) d) \<and> fits (side_of b2 d) ((L(e := l)) d)" for d
      using r bo side by (cases "d = e") auto
    then have 1: "best_right b2" "within_range b2"
      using best_right_rep [OF rep2] within_range_rep [OF rep2] by auto
    have "\<not> crosses e (r_price r) price" if in0: "0 < m_incoming ms" and x: "r \<in> set (orders b2 e)" for r
    proof -
      obtain i where i: "i < NUM_BOOK_LEVELS" "r \<in> set (queue (side_of b2 e) ((L(e := l)) e i))"
        using x by (auto simp: orders_rep [OF rep2] set_book_queue)
      then have "l i \<noteq> []" by auto
      then show ?thesis using c in0 i(1) queue_price [OF book_rep_side [OF rep2] i(2)] by simp
    qed
    then show ?thesis using 1 r m(4) by (auto simp: o orders_rep [OF rep])
  qed
  ultimately show ?thesis using m(1,3,6) rep2 o(2) by (intro that [OF m(1) b2_def rep2]) (simp_all add: b2_def)
qed

text \<open>The same for resting what is left, on a book whose tables do not know the new id.\<close>

lemma trade_events_none:
  "trades_of [OnLevelUpdate sd lv t, OnOrderInserted rid r t'] = []"
  "trades_of [OnError c rid' e msg t] = []"
  by simp_all

lemma rest_book:
  assumes rep: "book_rep b L F" and pr: "price_ok price" and rm: "0 < rm" "rm \<le> q"
    and fresh: "order_id_to_handle b oid = None" "oid < ob_order_id b"
  obtains b' L' F' evs where
    "rest_order b d price q rm oid cid rid now now_add = (b', evs)"
    "book_rep b' L' F'" "ob_order_id b' = ob_order_id b" "trades_of evs = []"
    "feed evs (volumes_of b) = volumes_of b'"
    "orders b' = (if length (orders b d) < MAX_ORDERS
        then (orders b)(d := place d (resting oid cid price q rm) (orders b d)) else orders b)"
    "best_right b \<Longrightarrow> best_right b'"
proof (cases "F d")
  case Nil
  have "length (orders b d) = MAX_ORDERS"
    using capacity [OF book_rep_side [OF rep, of d], of d] Nil orders_rep [OF rep] by simp
  then show ?thesis by (intro that [OF rest_order_full [OF rep Nil] rep]) simp_all
next
  case (Cons x f)
  let ?i = "price_to_index price"
  let ?L = "L(d := (L d)(?i := L d ?i @ [x]))"
  obtain b' r where b': "rest_order b d price q rm oid cid rid now now_add =
       (b', [OnLevelUpdate (side_tag d) (levels (side_of b' d) ?i) now_add, OnOrderInserted rid r now])"
    "book_rep b' ?L (F(d := f))" "view r = resting oid cid price q rm"
    "book_queue (prio d) (side_of b' d) (?L d) =
       place d (resting oid cid price q rm) (book_queue (prio d) (side_of b d) (L d))"
    "side_of b' (\<not> d) = side_of b (\<not> d)" "ob_order_id b' = ob_order_id b"
    "\<And>j. j \<noteq> ?i \<Longrightarrow> levels (side_of b' d) j = levels (side_of b d) j"
    "best_ok (better d) (side_of b d) (L d) \<Longrightarrow> best_ok (better d) (side_of b' d) (?L d)"
    using rest_order_rep [OF rep Cons pr rm fresh] by metis
  have iN: "?i < NUM_BOOK_LEVELS" by (rule price_to_index_less [OF pr])
  have "l_price (levels (side_of b' d) ?i) = MINIMUM_BID + int ?i"
    using side_rep_level [OF book_rep_side [OF b'(2), of d] iN] by (simp add: level_ok_def)
  then have feed: "feed [OnLevelUpdate (side_tag d) (levels (side_of b' d) ?i) now_add, OnOrderInserted rid r now]
      (volumes_of b) = volumes_of b'"
    using feed_level_update [OF iN b'(7), where v = "volumes_of b" and sd = "side_tag d" and now = now_add]
      volumes_of_set [OF b'(5)] volumes_of_same [of b d] by simp
  have len: "length (orders b d) < MAX_ORDERS"
    using capacity [OF book_rep_side [OF rep, of d], of d] Cons orders_rep [OF rep] by simp
  have o: "orders b' e = ((orders b)(d := place d (resting oid cid price q rm) (orders b d))) e" for e
    using b'(4,5) by (cases "e = d") (simp_all add: orders_rep [OF rep] orders_rep [OF b'(2)])
  have "best_right b'" if "best_right b"
  proof -
    have "best_ok (better e) (side_of b' e) (?L e)" for e
      using that best_right_rep [OF rep] b'(5,8) by (cases "e = d") auto
    then show ?thesis using best_right_rep [OF b'(2)] by blast
  qed
  then show ?thesis using that [OF b'(1,2,6) trade_events_none(1) feed] len o by (auto simp: fun_eq_iff)
qed

text \<open>
  From any well-formed book a valid submission returns, to a well-formed book; and if the best
  indices are right and no total overflows, it is the specified one.
\<close>

lemma submit_valid:
  assumes rep: "book_rep b L F" and lt: "unat (ob_order_id b) + 1 < 2 ^ 32"
    and q: "q \<noteq> 0" and pr: "price_ok price"
  obtains b' L' F' evs where
    "submit_order b price q d cid rid now now_match now_add = Some (b', evs)"
    "book_rep b' L' F'" "ob_order_id b' = ob_order_id b + 1"
    "feed evs (volumes_of b) = volumes_of b'"
    "best_right b \<Longrightarrow> within_range b \<Longrightarrow> best_right b' \<and>
       (\<exists>fs q'. spec_submit (orders b) (ob_order_id b) cid price q d = (orders b', fs, q') \<and>
          trades_of evs = spec_trades cid (ob_order_id b) q now_match q fs \<and>
          (0 < q' \<longrightarrow> (\<forall>r \<in> set (orders b' (\<not> d)). \<not> crosses (\<not> d) (r_price r) price)))"
proof -
  obtain ms b2 l f where m:
    "match_side (\<not> d) price (ob_order_id b) cid now_match (match_start b (\<not> d) q) = Some ms"
    "b2 = match_finish (b\<lparr>ob_order_id := ob_order_id b + 1\<rparr>) (\<not> d) ms"
    "book_rep b2 (L(\<not> d := l)) (F(\<not> d := f))" "order_id_to_handle b2 (ob_order_id b) = None" "m_incoming ms \<le> q"
    "feed (m_events ms) (volumes_of b) = volumes_of b2" "orders b2 d = orders b d"
    "best_right b \<Longrightarrow> within_range b \<Longrightarrow> best_right b2 \<and> within_range b2 \<and>
       (\<exists>fs. spec_match (\<lambda>p. crosses (\<not> d) p price) q (orders b (\<not> d)) = (fs, orders b2 (\<not> d), m_incoming ms) \<and>
         trades_of (m_events ms) = spec_trades cid (ob_order_id b) q now_match q fs) \<and>
       (0 < m_incoming ms \<longrightarrow> (\<forall>r \<in> set (orders b2 (\<not> d)). \<not> crosses (\<not> d) (r_price r) price))"
    using match_book [OF rep lt, where e = "\<not> d" and price = price and oid = "ob_order_id b" and cid = cid
        and now = now_match and q = q] unfolding not_not by metis
  note sub = submit_eq [OF q pr, of b d cid rid now now_match now_add, unfolded m(1) option.case Let_def m(2) [symmetric]]
  have id2: "ob_order_id b2 = ob_order_id b + 1" by (simp add: m(2))
  have o2: "orders b2 = (orders b)(\<not> d := orders b2 (\<not> d))" using m(7) by (auto simp: fun_eq_iff)
  show ?thesis
  proof (cases "0 < m_incoming ms")
    case True
    have "ob_order_id b < ob_order_id b2" using lt by (simp add: id2 word_less_nat_alt unat_add_bounded)
    from rest_book [OF m(3) pr True m(5,4) this, where d = d and cid = cid and rid = rid and now = now and now_add = now_add]
    obtain b' L' F' evs where r: "rest_order b2 d price q (m_incoming ms) (ob_order_id b) cid rid now now_add = (b', evs)"
      "book_rep b' L' F'" "ob_order_id b' = ob_order_id b2" "trades_of evs = []"
      "feed evs (volumes_of b2) = volumes_of b'"
      "orders b' = (if length (orders b2 d) < MAX_ORDERS
        then (orders b2)(d := place d (resting (ob_order_id b) cid price q (m_incoming ms)) (orders b2 d)) else orders b2)"
      "best_right b2 \<Longrightarrow> best_right b'" by metis
    have nd: "orders b' (\<not> d) = orders b2 (\<not> d)" by (simp add: r(6))
    show ?thesis
    proof (rule that [OF _ r(2)])
      show "submit_order b price q d cid rid now now_match now_add = Some (b', m_events ms @ evs)"
        using sub True by (simp add: r(1))
      show "feed (m_events ms @ evs) (volumes_of b) = volumes_of b'" by (simp add: m(6) r(5))
      assume br: "best_right b" "within_range b"
      note mm = m(8) [OF br]
      then obtain fs where fs: "spec_match (\<lambda>p. crosses (\<not> d) p price) q (orders b (\<not> d)) = (fs, orders b2 (\<not> d), m_incoming ms)"
        "trades_of (m_events ms) = spec_trades cid (ob_order_id b) q now_match q fs" by blast
      have "spec_submit (orders b) (ob_order_id b) cid price q d = (orders b', fs, m_incoming ms)"
        using True m(7) o2 by (auto simp: spec_submit_def fs(1) r(6))
      then show "best_right b' \<and> (\<exists>fs q'. spec_submit (orders b) (ob_order_id b) cid price q d = (orders b', fs, q') \<and>
          trades_of (m_events ms @ evs) = spec_trades cid (ob_order_id b) q now_match q fs \<and>
          (0 < q' \<longrightarrow> (\<forall>r \<in> set (orders b' (\<not> d)). \<not> crosses (\<not> d) (r_price r) price)))"
        using r(4,7) fs(2) mm nd True by auto
    qed (simp add: r(3) id2)
  next
    case False
    show ?thesis
    proof (rule that [OF _ m(3) id2 m(6)])
      show "submit_order b price q d cid rid now now_match now_add = Some (b2, m_events ms)"
        using sub False by simp
    qed (use m(8) o2 False in \<open>auto simp: spec_submit_def\<close>)
  qed
qed

end
