(* ===== verification/Book_Requests.thy ===== *)
theory Book_Requests
  imports Book_Submit
begin

text \<open>
  Cancelling and amending an order, refined to operations on the two queues, with every error
  answer.
\<close>

section \<open>Looking an order up\<close>

lemma find_order_rep:
  assumes rep: "book_rep b L F"
  shows "find_order b oid = Some p \<longleftrightarrow> book_ids b L p = Some oid"
proof -
  note t = book_rep_tables [OF rep]
  show ?thesis
  proof (cases "order_id_to_handle b oid")
    case None
    then show ?thesis using tables_None [OF t, of oid] by (simp add: find_order_def)
  next
    case (Some h)
    then obtain p' where p': "book_ids b L p' = Some oid" "h = of_nat (enc p')" using tables_id [OF t] by auto
    then have "find_order b oid = Some p'"
      using Some tables_handle [OF t, of p'] by (simp add: find_order_def unat_enc [OF tables_less [OF t]])
    then show ?thesis using tables_inj [OF t p'(1), of p] p'(1) by auto
  qed
qed

lemma book_ids_live:
  assumes "book_rep b L F" and "book_ids b L p = Some oid"
  obtains i where "slot p \<in> set (L (in_bids p) i)" "o_order_id (deref b p) = oid"
  using assms book_rep_bid [OF assms(1)]
  by (auto simp: book_ids_def side_ids_def deref_def split: if_splits)

lemma live_book_ids:
  assumes "book_rep b L F" and "x \<in> set (L d i)"
  shows "book_ids b L (OPtr d x) = Some (o_order_id (side_store (side_of b d) x))"
  using assms book_rep_bid [OF assms(1)] by (auto simp: book_ids_def side_ids_def)

lemma live_unique:
  assumes rep: "book_rep b L F" and x: "x \<in> set (L d i)" and y: "y \<in> set (L e j)"
    and eq: "o_order_id (side_store (side_of b e) y) = o_order_id (side_store (side_of b d) x)"
  shows "e = d \<and> y = x"
proof -
  have "book_ids b L (OPtr e y) = Some (o_order_id (side_store (side_of b d) x))"
    using live_book_ids [where d = e, OF rep y] eq by simp
  from tables_inj [OF book_rep_tables [OF rep] live_book_ids [OF rep x] this] show ?thesis by simp
qed

section \<open>Removing an order\<close>

text \<open>Looking the order up in its level, for both requests.\<close>

lemma find_live:
  assumes rep: "book_rep b L F" and p: "find_order b oid = Some p"
  shows "slot p \<in> set (L (in_bids p) (price_to_index (o_price (deref b p))))"
    and "price_to_index (o_price (deref b p)) < NUM_BOOK_LEVELS"
    and "o_price (deref b p) = MINIMUM_BID + int (price_to_index (o_price (deref b p)))"
    and "o_is_bid (deref b p) = in_bids p" and "o_order_id (deref b p) = oid"
proof -
  obtain i where i: "slot p \<in> set (L (in_bids p) i)" and oid: "o_order_id (deref b p) = oid"
    using book_ids_live [OF rep] find_order_rep [OF rep, of oid p] p by blast
  note ok = side_rep_order [OF book_rep_side [OF rep] i] and iN = slots_ok_idx [OF side_rep_slots [OF book_rep_side [OF rep]] i]
  have pr: "o_price (deref b p) = MINIMUM_BID + int i" using ok by (simp add: order_ok_def deref_def)
  then have ii: "price_to_index (o_price (deref b p)) = i" using iN by (simp add: price_to_index_of)
  show "slot p \<in> set (L (in_bids p) (price_to_index (o_price (deref b p))))"
    "price_to_index (o_price (deref b p)) < NUM_BOOK_LEVELS"
    "o_price (deref b p) = MINIMUM_BID + int (price_to_index (o_price (deref b p)))"
    unfolding ii by (rule i iN pr)+
  show "o_is_bid (deref b p) = in_bids p" "o_order_id (deref b p) = oid"
    using ok book_rep_bid [OF rep] oid by (simp_all add: order_ok_def deref_def)
qed

lemma filter_neq [simp]: "x \<notin> set xs \<Longrightarrow> filter (\<lambda>y. y \<noteq> x) xs = xs"
  by (auto simp: filter_id_conv)

lemma book_queue_drop:
  assumes slots: "slots_ok L F" and Li: "L i = as @ x # bs"
    and kp: "\<And>y. y \<noteq> x \<Longrightarrow> view (side_store s' y) = view (side_store s y)"
    and uq: "\<And>y j. y \<in> set (L j) \<Longrightarrow> o_order_id (side_store s y) = o_order_id (side_store s x) \<Longrightarrow> y = x"
  shows "book_queue ps s' (L(i := as @ bs)) =
    filter (\<lambda>r. r_order_id r \<noteq> o_order_id (side_store s x)) (book_queue ps s L)"
proof -
  have xi: "x \<in> set (L i)" using Li by simp
  have L': "(L(i := as @ bs)) j = filter (\<lambda>y. y \<noteq> x) (L j)" for j
  proof (cases "j = i")
    case True
    then show ?thesis using slots_ok_distinct [OF slots, of i] Li by auto
  next
    case False
    then have "x \<notin> set (L j)" using slots_ok_same [OF slots xi] by blast
    then show ?thesis using False by simp
  qed
  have "queue s' ((L(i := as @ bs)) j) =
      filter (\<lambda>r. r_order_id r \<noteq> o_order_id (side_store s x)) (queue s (L j))" for j
  proof -
    have "filter (\<lambda>y. y \<noteq> x) (L j) = filter (\<lambda>y. o_order_id (side_store s y) \<noteq> o_order_id (side_store s x)) (L j)"
      using uq by (intro filter_cong) auto
    then show ?thesis
      unfolding L' queue_def filter_map by (auto simp: comp_def intro!: kp)
  qed
  then show ?thesis by (simp add: book_queue_def filter_concat comp_def del: fun_upd_apply)
qed

lemma orders_drop:
  assumes rep: "book_rep b L F" and Li: "L d i = as @ x # bs"
    and rep': "book_rep b' (L(d := (L d)(i := as @ bs))) F'"
    and sd: "side_of b' d = s'" "side_of b' (\<not> d) = side_of b (\<not> d)"
    and kp: "\<And>y. y \<noteq> x \<Longrightarrow> kept (side_store (side_of b d) y) (side_store s' y)"
  shows "orders b' = (\<lambda>e. filter (\<lambda>r. r_order_id r \<noteq> o_order_id (side_store (side_of b d) x)) (orders b e))"
proof
  fix e
  let ?s = "side_of b d"
  note slots = side_rep_slots [OF book_rep_side [OF rep, of d]]
  have xi: "x \<in> set (L d i)" using Li by simp
  show "orders b' e = filter (\<lambda>r. r_order_id r \<noteq> o_order_id (side_store ?s x)) (orders b e)"
  proof (cases "e = d")
    case True
    then show ?thesis
      using book_queue_drop [OF slots Li, where s' = s' and s = ?s and ps = "prio d"] kp live_unique [OF rep xi]
      by (simp add: orders_rep [OF rep'] orders_rep [OF rep] sd kept_def)
  next
    case False
    have "r_order_id r \<noteq> o_order_id (side_store ?s x)" if r: "r \<in> set (orders b e)" for r
    proof -
      obtain j y where "y \<in> set (L e j)" "r = view (side_store (side_of b e) y)"
        using r by (auto simp: orders_rep [OF rep] set_book_queue queue_def)
      then show ?thesis using live_unique [OF rep xi] False by auto
    qed
    then have "filter (\<lambda>r. r_order_id r \<noteq> o_order_id (side_store ?s x)) (orders b e) = orders b e"
      by (simp add: filter_id_conv)
    moreover have "e = (\<not> d)" using False by blast
    ultimately show ?thesis using sd(2) by (simp add: orders_rep [OF rep'] orders_rep [OF rep])
  qed
qed

text \<open>The book with one side replaced by the side without \<open>x\<close>, and the entries of \<open>x\<close> gone from the tables.\<close>

lemma book_rep_drop:
  assumes rep: "book_rep b L F" and Li: "L d i = as @ x # bs"
    and side2: "side_rep s2 ((L d)(i := as @ bs)) (x # F d)" "s_is_bid s2 = s_is_bid (side_of b d)"
    and kept2: "\<And>y. y \<noteq> x \<Longrightarrow> kept (side_store (side_of b d) y) (side_store s2 y)"
    and b2: "side_of b2 d = s2" "side_of b2 (\<not> d) = side_of b (\<not> d)" "ob_order_id b2 = ob_order_id b"
      "order_by_handle b2 = (order_by_handle b)(enc (OPtr d x) := None)"
      "order_id_to_handle b2 = (order_id_to_handle b)(o_order_id (side_store (side_of b d) x) := None)"
  shows "book_rep b2 (L(d := (L d)(i := as @ bs))) (F(d := x # F d))"
proof -
  let ?s = "side_of b d" and ?p = "OPtr d x" and ?ot = "side_ids (side_of b (\<not> d)) (L (\<not> d))"
  note bid = book_rep_bid [OF rep, of d]
  have xi: "x \<in> set (L d i)" using Li by simp
  have bi: "?ot ++ side_ids ?s (L d) = book_ids b L" by (rule book_ids_split [OF book_rep_bid [OF rep], symmetric])
  have "?ot ?p = None" using book_rep_bid [OF rep, of "\<not> d"] by (simp add: side_ids_other)
  then have ids2: "?ot ++ side_ids s2 ((L d)(i := as @ bs)) = (book_ids b L)(?p := None)"
    using ids_without [OF side_rep_slots [OF book_rep_side [OF rep]] Li side2(2) kept2, of ?ot] bid by (simp add: bi)
  show ?thesis
    by (rule book_rep_set [OF rep side2(1)])
      (use side2(2) bid tables_remove [OF book_rep_tables [OF rep] live_book_ids [OF rep xi]] book_rep_ids [OF rep] b2 in
        \<open>auto simp: ids2 split: if_splits\<close>)
qed

lemma remove_rep:
  assumes rep: "book_rep b L F" and Li: "L d i = as @ x # bs"
    and q: "\<And>y. y \<noteq> x \<Longrightarrow> q y = side_store (side_of b d) y"
      "o_next (q x) = o_next (side_store (side_of b d) x)"
      "o_previous (q x) = o_previous (side_store (side_of b d) x)"
      "o_order_handle (q x) = o_order_handle (side_store (side_of b d) x)"
      "o_order_id (q x) = o_order_id (side_store (side_of b d) x)" "o_is_bid (q x) = d"
    and s0: "levels s0 = (levels (side_of b d))(i := (levels (side_of b d) i)\<lparr>l_total_quantity :=
          l_total_quantity (levels (side_of b d) i) - o_quantity_remaining (side_store (side_of b d) x)\<rparr>)"
      "side_store s0 = q" "next_free (s_pool s0) = next_free (s_pool (side_of b d))"
      "s_is_bid s0 = s_is_bid (side_of b d)" "best_price_index s0 = k0"
    and b1: "b1 = remove_order (set_side b d s0) d i x"
  shows "\<And>k. k = NUM_BOOK_LEVELS \<or> k < NUM_BOOK_LEVELS \<and> ((L d)(i := as @ bs)) k \<noteq> [] \<Longrightarrow>
      book_rep (set_side b1 d ((side_of b1 d)\<lparr>best_price_index := k\<rparr>))
        (L(d := (L d)(i := as @ bs))) (F(d := x # F d))"
    and "\<And>k. k = NUM_BOOK_LEVELS \<or> k < NUM_BOOK_LEVELS \<and> ((L d)(i := as @ bs)) k \<noteq> [] \<Longrightarrow>
      orders (set_side b1 d ((side_of b1 d)\<lparr>best_price_index := k\<rparr>)) =
        (\<lambda>e. filter (\<lambda>r. r_order_id r \<noteq> o_order_id (side_store (side_of b d) x)) (orders b e))"
    and "\<And>j. j \<noteq> i \<Longrightarrow> levels (side_of b1 d) j = levels (side_of b d) j"
    and "side_of b1 (\<not> d) = side_of b (\<not> d)" "ob_order_id b1 = ob_order_id b"
    and "l_total_quantity (levels (side_of b1 d) i) =
      l_total_quantity (levels (side_of b d) i) - o_quantity_remaining (side_store (side_of b d) x)"
    and "l_first (levels (side_of b1 d) i) = None \<longleftrightarrow> as @ bs = []" "l_idx (levels (side_of b1 d) i) = i"
    and "best_price_index (side_of b1 d) = k0" "o_is_bid (side_store (side_of b1 d) x) = d"
proof -
  let ?s = "side_of b d" and ?s1 = "side_of b1 d" and ?p = "OPtr d x"
  let ?lv = "(levels ?s i)\<lparr>l_total_quantity := l_total_quantity (levels ?s i) - o_quantity_remaining (side_store ?s x)\<rparr>"
  note side = book_rep_side [OF rep, of d] and bid = book_rep_bid [OF rep, of d]
  note slots = side_rep_slots [OF side]
  have xi: "x \<in> set (L d i)" using Li by simp
  have iN: "i < NUM_BOOK_LEVELS" and xm: "x < MAX_ORDERS"
    using slots_ok_idx [OF slots xi] slots_ok_less [OF slots xi] by auto
  obtain p' lv' where u: "unlink q ?lv x = (p', lv')" by fastforce
  have kp: "kept (q y) (p' y)" for y by (rule unlink_kept [OF u])
  have h: "encoded_handle (p' x) = of_nat (enc ?p)" "o_order_id (p' x) = o_order_id (side_store ?s x)"
    "o_is_bid (p' x) = d"
    using kp [of x] q(4,5,6) side_rep_handle [OF side xm]
    by (auto simp: kept_def encoded_handle_enc dest: view_eqD)
  have pl: "(s_pool s0)\<lparr>pool := p'\<rparr> = (s_pool ?s)\<lparr>pool := p'\<rparr>"
    using s0(3) by (cases "s_pool s0"; cases "s_pool ?s") simp
  have s1: "?s1 = s0\<lparr>levels := (levels ?s)(i := lv'), s_pool := deallocate ((s_pool ?s)\<lparr>pool := p'\<rparr>) x\<rparr>"
    and tab1: "order_by_handle b1 = (order_by_handle b)(enc ?p := None)"
      "order_id_to_handle b1 = (order_id_to_handle b)(o_order_id (side_store ?s x) := None)"
    and other: "side_of b1 (\<not> d) = side_of b (\<not> d)" "ob_order_id b1 = ob_order_id b"
    by (simp_all add: b1 s0 remove_order_def Let_def u h unat_enc xm pl)
  have core: "side_rep s2 ((L d)(i := as @ bs)) (x # F d) \<and>
      (\<forall>y. y \<noteq> x \<longrightarrow> kept (side_store ?s y) (side_store s2 y)) \<and> book_rep b2 (L(d := (L d)(i := as @ bs))) (F(d := x # F d))"
    if best: "k = NUM_BOOK_LEVELS \<or> k < NUM_BOOK_LEVELS \<and> ((L d)(i := as @ bs)) k \<noteq> []"
      and s2: "s2 = ?s1\<lparr>best_price_index := k\<rparr>" and b2: "b2 = set_side b1 d s2" for k s2 b2
  proof -
    have best2: "best_price_index s2 \<noteq> NUM_BOOK_LEVELS \<Longrightarrow> best_price_index s2 < NUM_BOOK_LEVELS \<and>
        ((L d)(i := as @ bs)) (best_price_index s2) \<noteq> []" using best by (simp add: s2)
    have fr: "levels s2 = (levels ?s)(i := lv')" "s_pool s2 = deallocate ((s_pool ?s)\<lparr>pool := p'\<rparr>) x"
      "s_is_bid s2 = s_is_bid ?s" by (simp_all add: s2 s1 s0)
    note dr = side_rep_drop [OF side Li q(1-4) _ _ _ _ _ u fr best2]
    have rep2: "side_rep s2 ((L d)(i := as @ bs)) (x # F d)" by (rule dr(1)) simp_all
    have kept2: "\<And>y. y \<noteq> x \<Longrightarrow> kept (side_store ?s y) (side_store s2 y)" by (rule dr(2)) simp_all
    have "book_rep b2 (L(d := (L d)(i := as @ bs))) (F(d := x # F d))"
      by (rule book_rep_drop [OF rep Li rep2 fr(3) kept2]) (use other in \<open>simp_all add: b2 tab1\<close>)
    then show ?thesis using rep2 kept2 by blast
  qed
  have lvl: "level_ok (side_store ?s1) i (levels ?s1 i) (as @ bs)"
    using side_rep_level [OF conjunct1 [OF core [OF _ refl refl, of NUM_BOOK_LEVELS]] iN] by simp
  show "levels ?s1 j = levels ?s j" if "j \<noteq> i" for j using that by (simp add: s1 s0)
  show "side_of b1 (\<not> d) = side_of b (\<not> d)" "ob_order_id b1 = ob_order_id b" by (simp_all add: other)
  show "l_total_quantity (levels ?s1 i) =
      l_total_quantity (levels ?s i) - o_quantity_remaining (side_store ?s x)"
    using unlink_frame [OF u] by (simp add: s1 s0)
  show "l_first (levels ?s1 i) = None \<longleftrightarrow> as @ bs = []" "l_idx (levels ?s1 i) = i"
    using level_ok_first [OF lvl] lvl by (auto simp: level_ok_def split: list.splits)
  show "best_price_index ?s1 = k0" "o_is_bid (side_store ?s1 x) = d"
    using h(3) by (simp_all add: s1 s0 deallocate_def)
  fix k assume best: "k = NUM_BOOK_LEVELS \<or> k < NUM_BOOK_LEVELS \<and> ((L d)(i := as @ bs)) k \<noteq> []"
  let ?s2 = "?s1\<lparr>best_price_index := k\<rparr>"
  let ?b2 = "set_side b1 d ?s2"
  have rep': "book_rep ?b2 (L(d := (L d)(i := as @ bs))) (F(d := x # F d))"
    and kept2: "\<And>y. y \<noteq> x \<Longrightarrow> kept (side_store ?s y) (side_store ?s2 y)"
    using core [OF best refl refl] by auto
  show "book_rep ?b2 (L(d := (L d)(i := as @ bs))) (F(d := x # F d))" by (rule rep')
  show "orders ?b2 = (\<lambda>e. filter (\<lambda>r. r_order_id r \<noteq> o_order_id (side_store ?s x)) (orders b e))"
    by (rule orders_drop [OF rep Li rep' _ _ kept2]) (simp_all add: other)
qed

section \<open>Cancelling\<close>

lemma volume_at_filter: "volume_at (filter P rs) p \<le> volume_at rs p"
  by (induction rs) auto

lemma within_range_filter: "within_range b \<Longrightarrow> orders b' = (\<lambda>e. filter P (orders b e)) \<Longrightarrow> within_range b'"
  using le_less_trans [OF volume_at_filter] by (simp add: within_range_def)

lemma sound_lists:
  assumes "book_rep b L F" and "best_right b" and "within_range b"
  shows "best_ok (better d) (side_of b d) (L d)" "fits (side_of b d) (L d)"
  using assms best_right_rep within_range_rep by blast+

lemma best_right_set:
  assumes "book_rep b L F" and "best_right b" and "within_range b" and "book_rep b' (L(d := l)) F'"
    and "side_of b' (\<not> d) = side_of b (\<not> d)" and "best_ok (better d) (side_of b' d) l"
  shows "best_right b'"
proof -
  have "best_ok (better e) (side_of b' e) ((L(d := l)) e)" for e
  proof (cases "e = d")
    case False
    then have "e = (\<not> d)" by blast
    then show ?thesis using assms(5) sound_lists(1) [OF assms(1-3), of e] by simp
  qed (simp add: assms(6))
  then show ?thesis using best_right_rep [OF assms(4)] by blast
qed

lemma feed_one_level:
  assumes rep: "book_rep b' L' F'" and i: "i < NUM_BOOK_LEVELS"
    and same: "\<And>j. j \<noteq> i \<Longrightarrow> levels (side_of b' d) j = levels (side_of b d) j"
    and other: "side_of b' (\<not> d) = side_of b (\<not> d)"
    and tot: "l_total_quantity lv = l_total_quantity (levels (side_of b' d) i)" "l_price lv = MINIMUM_BID + int i"
  shows "feed_step (volumes_of b) (OnLevelUpdate (side_tag d) lv now) = volumes_of b'"
proof -
  have "l_price (levels (side_of b' d) i) = l_price lv"
    using side_rep_level [OF book_rep_side [OF rep] i] tot(2) by (simp add: level_ok_def)
  then show ?thesis
    using feed_level_update [OF i same, where v = "volumes_of b" and sd = "side_tag d" and now = now]
      volumes_of_set [OF other] volumes_of_same [of b d] tot by simp
qed

text \<open>The best index after a level is emptied, or an order is taken off it.\<close>

lemma next_best_cases:
  assumes "side_rep s L F" and "k < NUM_BOOK_LEVELS" and "\<And>j. j \<noteq> k \<Longrightarrow> lv j = levels s j"
  shows "next_best d lv k = NUM_BOOK_LEVELS \<or>
     next_best d lv k < NUM_BOOK_LEVELS \<and> next_best d lv k \<noteq> k \<and> L (next_best d lv k) \<noteq> []"
proof -
  let ?n = "next_best d lv k"
  have "?n \<noteq> k" if "better d k ?n" using that by (auto simp: better_def split: if_splits)
  then show ?thesis
    using dir.nx_worse [where d = d and lv = lv, OF assms(2)] assms(3) [of ?n]
      level_total_nonempty [OF side_rep_level [OF assms(1)], of ?n] by auto
qed

lemma best_ok_drop:
  assumes bo: "best_ok (better d) s L" and rep: "side_rep s L F" and k: "k = best_price_index s" and Li: "L i = as @ x # bs"
    and rep': "side_rep s' (L(i := as @ bs)) F'" and fit': "fits s' (L(i := as @ bs))"
    and best: "best_price_index s' = (if as @ bs = [] \<and> k = i then next_best d (levels s') k else k)"
  shows "best_ok (better d) s' (L(i := as @ bs))"
proof (cases "as @ bs = [] \<and> k = i")
  case True
  then have kN: "k < NUM_BOOK_LEVELS" using slots_ok_idx [OF side_rep_slots [OF rep], of x i] Li by simp
  show ?thesis
    by (rule dir.best_ok_next [OF rep' fit' kN])
      (use True bo k best in \<open>auto simp: best_ok_def\<close>)
next
  case False
  then show ?thesis using bo k best Li by (auto simp: best_ok_def split: if_splits)
qed

lemma best_drop_cases:
  assumes side: "side_rep s L F" and i: "i < NUM_BOOK_LEVELS" and same: "\<And>j. j \<noteq> i \<Longrightarrow> lv j = levels s j"
    and Li: "L i = as @ x # bs"
    and k: "k = (if as @ bs = [] \<and> best_price_index s = i then next_best d lv (best_price_index s) else best_price_index s)"
  shows "k = NUM_BOOK_LEVELS \<or> k < NUM_BOOK_LEVELS \<and> (L(i := as @ bs)) k \<noteq> []"
proof (cases "as @ bs = [] \<and> best_price_index s = i")
  case True
  then show ?thesis using next_best_cases [where d = d, OF side i same] by (auto simp: k)
next
  case False
  then show ?thesis using side_rep_best [OF side] by (auto simp: k)
qed

lemma cancel_rep:
  assumes rep: "book_rep b L F" and p: "find_order b oid = Some p" and c: "o_client_id (deref b p) = cid"
  obtains b' L' F' lv where
    "cancel_order b cid rid oid now =
       (b', [OnLevelUpdate (side_tag (in_bids p)) lv now, OnOrderCancelled rid (deref b p) now])"
    "book_rep b' L' F'" "ob_order_id b' = ob_order_id b"
    "orders b' = (\<lambda>e. filter (\<lambda>r. r_order_id r \<noteq> oid) (orders b e))"
    "feed_step (volumes_of b) (OnLevelUpdate (side_tag (in_bids p)) lv now) = volumes_of b'"
    "best_right b \<Longrightarrow> within_range b \<Longrightarrow> best_right b'"
proof -
  obtain d x where pd: "p = OPtr d x" by (cases p)
  obtain i where xi: "x \<in> set (L d i)" and oid: "o_order_id (deref b p) = oid"
    using book_ids_live [OF rep, of p oid] p find_order_rep [OF rep, of oid p] pd by auto
  obtain as bs where Li: "L d i = as @ x # bs" using xi by (meson split_list)
  let ?s = "side_of b d" and ?r = "side_store (side_of b d) x"
  note side = book_rep_side [OF rep, of d] and bid = book_rep_bid [OF rep, of d]
  have r: "deref b p = ?r" by (simp add: deref_def pd)
  have iN: "i < NUM_BOOK_LEVELS" using slots_ok_idx [OF side_rep_slots [OF side] xi] .
  have ok: "o_is_bid ?r = d" "price_to_index (o_price ?r) = i"
    using side_rep_order [OF side xi] bid iN by (auto simp: order_ok_def price_to_index_of)
  let ?k = "best_price_index ?s"
  let ?lv = "(levels ?s i)\<lparr>l_total_quantity := l_total_quantity (levels ?s i) - o_quantity_remaining ?r\<rparr>"
  let ?base = "?s\<lparr>levels := (levels ?s)(i := ?lv)\<rparr>"
  define b1 where "b1 = remove_order (set_side b d ?base) d i x"
  define k where "k = (if as @ bs = [] \<and> ?k = i then next_best d (levels (side_of b1 d)) ?k else ?k)"
  define b2 where "b2 = set_side b1 d ((side_of b1 d)\<lparr>best_price_index := k\<rparr>)"
  let ?s1 = "side_of b1 d"
  note rm = remove_rep [where ?s0.0 = ?base and ?k0.0 = ?k, OF rep Li refl refl refl refl refl ok(1) _ _ _ _ _ b1_def, simplified]
  have kok: "k = NUM_BOOK_LEVELS \<or> k < NUM_BOOK_LEVELS \<and> ((L d)(i := as @ bs)) k \<noteq> []"
    by (rule best_drop_cases [OF side iN rm(3) Li k_def])
  note rm2 = rm(1,2) [OF kok [unfolded fun_upd_apply], folded b2_def]
  have sd2: "side_of b2 d = ?s1\<lparr>best_price_index := k\<rparr>" "side_of b2 (\<not> d) = side_of b (\<not> d)"
    using rm(4) by (simp_all add: b2_def)
  have same: "?s1\<lparr>best_price_index := ?k\<rparr> = ?s1" unfolding rm(9) [symmetric] by simp
  have eq: "cancel_order b cid rid oid now =
      (b2, [OnLevelUpdate (side_tag d) (levels (side_of b2 d) i) now, OnOrderCancelled rid (deref b p) now])"
    unfolding cancel_order_def p option.case Let_def r [unfolded pd] pd optr.sel ok b1_def [symmetric] rm(7-10)
    using c by (simp add: dir.adv_eq k_def b2_def side_tag_def r [unfolded pd] pd rm(9) same)
  have fr: "levels (side_of b2 d) j = levels ?s j" if "j \<noteq> i" for j using rm(3) [OF that] that by (simp add: sd2)
  have id2: "ob_order_id b2 = ob_order_id b" using rm(5) by (simp add: b2_def)
  have o2: "orders b2 = (\<lambda>e. filter (\<lambda>r. r_order_id r \<noteq> oid) (orders b e))" using rm2(2) oid r by simp
  have "l_price (levels (side_of b2 d) i) = MINIMUM_BID + int i"
    using side_rep_level [OF book_rep_side [OF rm2(1), of d] iN] by (simp add: level_ok_def)
  then have fd: "feed_step (volumes_of b) (OnLevelUpdate (side_tag d) (levels (side_of b2 d) i) now) = volumes_of b2"
    by (intro feed_one_level [OF rm2(1) iN fr sd2(2) refl])
  have br: "best_right b2" if "best_right b" "within_range b"
  proof -
    have wr: "within_range b2" by (rule within_range_filter [OF that(2) o2])
    have side2: "side_rep (side_of b2 d) ((L d)(i := as @ bs)) (x # F d)" and fit2: "fits (side_of b2 d) ((L d)(i := as @ bs))"
      using book_rep_side [OF rm2(1), of d] spec [OF iffD1 [OF within_range_rep [OF rm2(1)] wr], of d] by simp_all
    have "best_ok (better d) (side_of b2 d) ((L d)(i := as @ bs))"
      by (rule best_ok_drop [OF sound_lists(1) [OF rep that] side refl Li side2 fit2]) (simp add: sd2 k_def)
    then show ?thesis by (rule best_right_set [OF rep that rm2(1) sd2(2)])
  qed
  show ?thesis using eq fd by (intro that [OF _ rm2(1) id2 o2 _ br]) (simp_all add: pd)
qed

section \<open>Amending\<close>

lemma next_best_pos:
  assumes "k \<le> NUM_BOOK_LEVELS"
  shows "next_best d lv k = NUM_BOOK_LEVELS \<or>
     next_best d lv k < NUM_BOOK_LEVELS \<and> 0 < l_total_quantity (lv (next_best d lv k))"
  using assms
  by (cases d) (auto simp: direction_eq next_bid_def next_ask_def dest: scan_up_Some scan_down_Some split: option.splits)

lemma scan_up_cong:
  "(\<And>j. l_total_quantity (lv j) = l_total_quantity (lv' j)) \<Longrightarrow> scan_up lv i = scan_up lv' i"
proof (induction lv i rule: scan_up.induct)
  case (1 lv i)
  then show ?case by (simp add: scan_up.simps [of lv i] scan_up.simps [of lv' i])
qed

lemma scan_down_cong:
  "(\<And>j. l_total_quantity (lv j) = l_total_quantity (lv' j)) \<Longrightarrow> scan_down lv i = scan_down lv' i"
  by (induction i) auto

lemma next_best_cong:
  "(\<And>j. l_total_quantity (lv j) = l_total_quantity (lv' j)) \<Longrightarrow> next_best d lv k = next_best d lv' k"
  using scan_up_cong [of lv lv'] scan_down_cong [of lv lv']
  by (simp add: next_best_def next_bid_def next_ask_def)

text \<open>The two fields an amendment writes, and the queue it leaves: an order with nothing left goes.\<close>

definition requantify :: "Volume_t \<Rightarrow> Volume_t \<Rightarrow> Order \<Rightarrow> Order" where
  "requantify qn rm r = r\<lparr>o_quantity := qn, o_quantity_remaining := rm\<rparr>"

definition amend_queue :: "Id_t \<Rightarrow> Volume_t \<Rightarrow> Resting list \<Rightarrow> Resting list" where
  "amend_queue oid qn rs =
     filter (\<lambda>r. 0 < r_remaining r)
       (map (\<lambda>r. if r_order_id r = oid then r\<lparr>r_quantity := qn, r_remaining := qn - r_cumulative r\<rparr> else r) rs)"

lemma order_ok_requantify:
  assumes "order_ok d i r" and "o_quantity_cumulative r \<le> qn" and "0 < qn - o_quantity_cumulative r"
  shows "order_ok d i (requantify qn (qn - o_quantity_cumulative r) r)"
  using assms by (auto simp: order_ok_def requantify_def unat_diff_le word_le_nat_alt)

lemma resting_pos:
  assumes "book_rep b L F" and "r \<in> set (orders b e)"
  shows "0 < r_remaining r"
proof -
  obtain j y where "y \<in> set (L e j)" "r = view (side_store (side_of b e) y)"
    using assms by (auto simp: orders_rep [OF assms(1)] set_book_queue queue_def)
  then show ?thesis using side_rep_order [OF book_rep_side [OF assms(1), of e]] by (auto simp: order_ok_def)
qed

lemma live_view_unique:
  assumes rep: "book_rep b L F" and x: "x \<in> set (L d i)" and r: "r \<in> set (orders b e)"
    and eq: "r_order_id r = o_order_id (side_store (side_of b d) x)"
  shows "e = d \<and> r = view (side_store (side_of b d) x)"
proof -
  obtain j y where "y \<in> set (L e j)" "r = view (side_store (side_of b e) y)"
    using r by (auto simp: orders_rep [OF rep] set_book_queue queue_def)
  then show ?thesis using live_unique [OF rep x] eq by auto
qed

lemma amend_queue_zero:
  assumes rep: "book_rep b L F" and x: "x \<in> set (L d i)"
    and "o_order_id (side_store (side_of b d) x) = oid" "o_quantity_cumulative (side_store (side_of b d) x) = qn"
  shows "amend_queue oid qn (orders b e) = filter (\<lambda>r. r_order_id r \<noteq> oid) (orders b e)"
proof -
  have gen: "(\<forall>r \<in> set rs. 0 < r_remaining r \<and> (r_order_id r = oid \<longrightarrow> r_cumulative r = qn)) \<Longrightarrow>
      amend_queue oid qn rs = filter (\<lambda>r. r_order_id r \<noteq> oid) rs" for rs
    by (induction rs) (auto simp: amend_queue_def)
  show ?thesis
  proof (rule gen, intro ballI conjI impI)
    fix r assume r: "r \<in> set (orders b e)"
    show "0 < r_remaining r" by (rule resting_pos [OF rep r])
    show "r_cumulative r = qn" if "r_order_id r = oid"
      using live_view_unique [OF rep x r] that assms(3,4) by simp
  qed
qed

lemma amend_queue_pos:
  assumes "\<And>r. r \<in> set rs \<Longrightarrow> 0 < r_remaining r" "\<And>r. r \<in> set rs \<Longrightarrow> r_order_id r = oid \<Longrightarrow> r_cumulative r < qn"
  shows "amend_queue oid qn rs =
    map (\<lambda>r. if r_order_id r = oid then r\<lparr>r_quantity := qn, r_remaining := qn - r_cumulative r\<rparr> else r) rs"
  using assms by (induction rs) (auto simp: amend_queue_def word_gt_0)

text \<open>The queue after two fields of one order are written.\<close>

lemma book_queue_modify:
  assumes kp: "\<And>y. y \<noteq> x \<Longrightarrow> side_store s' y = side_store s y"
    and vx: "view (side_store s' x) = f (view (side_store s x))"
    and uq: "\<And>y j. y \<in> set (L j) \<Longrightarrow> o_order_id (side_store s y) = o_order_id (side_store s x) \<Longrightarrow> y = x"
  shows "book_queue ps s' L =
    map (\<lambda>r. if r_order_id r = o_order_id (side_store s x) then f r else r) (book_queue ps s L)"
proof -
  have "queue s' (L j) = map (\<lambda>r. if r_order_id r = o_order_id (side_store s x) then f r else r) (queue s (L j))" for j
    using kp vx uq [of _ j] by (auto simp: queue_def) metis+
  then show ?thesis by (simp add: book_queue_def map_concat comp_def)
qed

lemma modify_rep:
  assumes rep: "book_rep b L F" and xi: "x \<in> set (L d i)"
    and cum: "o_quantity_cumulative (side_store (side_of b d) x) < qn"
    and rm: "rm = qn - o_quantity_cumulative (side_store (side_of b d) x)"
    and s': "levels s' = (levels (side_of b d))(i := (levels (side_of b d) i)\<lparr>l_total_quantity :=
          l_total_quantity (levels (side_of b d) i) - (o_quantity_remaining (side_store (side_of b d) x) - rm)\<rparr>)"
      "s_pool s' = (s_pool (side_of b d))\<lparr>pool := upd (side_store (side_of b d)) x (requantify qn rm)\<rparr>"
      "s_is_bid s' = s_is_bid (side_of b d)"
    and best: "best_price_index s' = NUM_BOOK_LEVELS \<or>
      best_price_index s' < NUM_BOOK_LEVELS \<and> L d (best_price_index s') \<noteq> []"
  shows "book_rep (set_side b d s') L F"
    and "orders (set_side b d s') = (\<lambda>e. amend_queue (o_order_id (side_store (side_of b d) x)) qn (orders b e))"
proof -
  let ?s = "side_of b d" and ?b' = "set_side b d s'"
  note side = book_rep_side [OF rep, of d] and bid = book_rep_bid [OF rep, of d]
  have pos: "0 < qn - o_quantity_cumulative (side_store ?s x)" using cum by (simp add: word_gt_0)
  have side': "side_rep s' (L d) (F d)"
    by (rule side_rep_modify [OF side xi, where g = "requantify qn rm" and t = "o_quantity_remaining (side_store ?s x) - rm"])
      (use best order_ok_requantify [OF side_rep_order [OF side xi] less_imp_le [OF cum] pos] in
        \<open>simp_all add: s' rm, simp_all add: requantify_def\<close>)
  have ids: "side_ids s' (L d) = side_ids ?s (L d)"
    by (rule side_ids_kept) (simp_all add: s' upd_apply requantify_def)
  have bi: "side_ids (side_of b (\<not> d)) (L (\<not> d)) ++ side_ids ?s (L d) = book_ids b L"
    by (rule book_ids_split [OF book_rep_bid [OF rep], symmetric])
  have "book_rep ?b' (L(d := L d)) (F(d := F d))"
    by (rule book_rep_set [OF rep side'])
      (use s'(3) bid book_rep_tables [OF rep] book_rep_ids [OF rep] in \<open>simp_all add: ids bi\<close>)
  then show rep': "book_rep ?b' L F" by simp
  show "orders ?b' = (\<lambda>e. amend_queue (o_order_id (side_store ?s x)) qn (orders b e))"
  proof
    fix e
    let ?f = "\<lambda>r. r\<lparr>r_quantity := qn, r_remaining := qn - r_cumulative r\<rparr>"
    have "amend_queue (o_order_id (side_store ?s x)) qn (orders b e) =
        map (\<lambda>r. if r_order_id r = o_order_id (side_store ?s x) then ?f r else r) (orders b e)"
    proof (rule amend_queue_pos)
      fix r assume r: "r \<in> set (orders b e)"
      show "0 < r_remaining r" by (rule resting_pos [OF rep r])
      show "r_cumulative r < qn" if "r_order_id r = o_order_id (side_store ?s x)"
        using live_view_unique [OF rep xi r that] cum by simp
    qed
    moreover have "orders ?b' e = map (\<lambda>r. if r_order_id r = o_order_id (side_store ?s x) then ?f r else r) (orders b e)"
    proof (cases "e = d")
      case True
      have "view (side_store s' x) = ?f (view (side_store ?s x))" by (simp add: s' requantify_def view_def rm)
      then show ?thesis
        using True book_queue_modify [of x s' ?s ?f "L d" "prio d"] live_unique [OF rep xi] s'(2)
        by (simp add: orders_rep [OF rep'] orders_rep [OF rep])
    next
      case False
      then have "r_order_id r \<noteq> o_order_id (side_store ?s x)" if "r \<in> set (orders b e)" for r
        using live_view_unique [OF rep xi that] by blast
      then have "map (\<lambda>r. if r_order_id r = o_order_id (side_store ?s x) then ?f r else r) (orders b e) = orders b e"
        by (intro map_idI) simp
      then show ?thesis using False by (simp add: orders_rep [OF rep'] orders_rep [OF rep])
    qed
    ultimately show "orders ?b' e = amend_queue (o_order_id (side_store ?s x)) qn (orders b e)" by simp
  qed
qed

text \<open>The level total once every quantity is in: what is left when \<open>x\<close> is alone on its level.\<close>

lemma level_total_alone:
  assumes "side_rep s L F" and "i < NUM_BOOK_LEVELS" and "L i = [x]"
  shows "l_total_quantity (levels s i) = o_quantity_remaining (side_store s x)"
  using side_rep_level [OF assms(1,2)] assms(3) by (simp add: level_ok_def)

text \<open>
  What an amendment leaves, in the order the code writes it: the level's total, the order's quantities,
  the best index if the level is empty, and the order taken out if nothing of it is left.
\<close>

definition amended_level :: "OrderBookSide \<Rightarrow> nat \<Rightarrow> nat \<Rightarrow> Volume_t \<Rightarrow> PriceLevel" where
  "amended_level s i x rm = (levels s i)\<lparr>l_total_quantity :=
     l_total_quantity (levels s i) - (o_quantity_remaining (side_store s x) - rm)\<rparr>"

definition amended_side :: "bool \<Rightarrow> OrderBookSide \<Rightarrow> nat \<Rightarrow> nat \<Rightarrow> Volume_t \<Rightarrow> Volume_t \<Rightarrow> OrderBookSide" where
  "amended_side d s i x qn rm =
    (let lv = amended_level s i x rm;
         base = s\<lparr>s_pool := (s_pool s)\<lparr>pool := upd (side_store s) x (requantify qn rm)\<rparr>, levels := (levels s)(i := lv)\<rparr>
     in base\<lparr>best_price_index := if l_total_quantity lv = 0 then next_best d (levels base) (best_price_index s)
                                else best_price_index s\<rparr>)"

definition amended_book :: "OrderBook \<Rightarrow> bool \<Rightarrow> nat \<Rightarrow> nat \<Rightarrow> Volume_t \<Rightarrow> Volume_t \<Rightarrow> OrderBook" where
  "amended_book b d i x qn rm =
    (let b' = set_side b d (amended_side d (side_of b d) i x qn rm)
     in if rm = 0 then remove_order b' d i x else b')"

lemma amended_side_sel [simp]:
  "levels (amended_side d s i x qn rm) = (levels s)(i := amended_level s i x rm)"
  "s_pool (amended_side d s i x qn rm) = (s_pool s)\<lparr>pool := upd (side_store s) x (requantify qn rm)\<rparr>"
  "s_is_bid (amended_side d s i x qn rm) = s_is_bid s"
  "best_price_index (amended_side d s i x qn rm) = (if l_total_quantity (amended_level s i x rm) = 0
     then next_best d ((levels s)(i := amended_level s i x rm)) (best_price_index s) else best_price_index s)"
  by (simp_all add: amended_side_def Let_def)

lemma amend_order_eq:
  assumes rep: "book_rep b L F" and p: "find_order b oid = Some p" and c: "o_client_id (deref b p) = cid"
    and cum: "o_quantity_cumulative (deref b p) \<le> qn"
    and less: "qn - o_quantity_cumulative (deref b p) < o_quantity_remaining (deref b p)"
  defines "i \<equiv> price_to_index (o_price (deref b p))" and "d \<equiv> in_bids p" and "rm \<equiv> qn - o_quantity_cumulative (deref b p)"
  shows "amend_order b cid rid oid qn now = (amended_book b d i (slot p) qn rm,
    [OnOrderAmended rid (o_quantity (deref b p)) (requantify qn rm (deref b p)) now,
     OnLevelUpdate (side_tag d) (amended_level (side_of b d) i (slot p) rm) now])"
proof -
  obtain x where pd: "p = OPtr d x" by (cases p) (simp add: d_def)
  let ?s = "side_of b d" and ?r = "side_store (side_of b d) x"
  have r: "deref b p = ?r" by (simp add: deref_def pd)
  define lv where "lv = amended_level ?s i x rm"
  define base where "base = ?s\<lparr>s_pool := (s_pool ?s)\<lparr>pool := upd (side_store ?s) x (requantify qn rm)\<rparr>,
                 levels := (levels ?s)(i := lv)\<rparr>"
  define s2 where "s2 = amended_side d ?s i x qn rm"
  have n: "\<not> qn < o_quantity_cumulative ?r" "\<not> o_quantity_remaining ?r < rm" "rm \<noteq> o_quantity_remaining ?r"
    "o_client_id ?r = cid" using cum less c by (auto simp: r rm_def)
  have g: "(\<lambda>r. r\<lparr>o_quantity := qn, o_quantity_remaining := rm\<rparr>) = requantify qn rm"
    by (simp add: requantify_def fun_eq_iff)
  have ok: "o_is_bid ?r = d" using find_live(4) [OF rep p] by (simp add: r d_def)
  then have bq: "o_is_bid (requantify qn rm ?r) = d" by (simp add: requantify_def)
  have s2': "s2 = (if l_total_quantity lv = 0 then update_best_after_empty d base else base)"
    unfolding s2_def amended_side_def Let_def lv_def [symmetric] base_def [symmetric]
    by (simp add: dir.adv_eq) (simp add: base_def)
  have lev2: "levels s2 i = lv" by (simp add: s2_def lv_def)
  have b3: "amended_book b d i x qn rm = (if rm = 0 then remove_order (set_side b d s2) d i x else set_side b d s2)"
    by (simp add: amended_book_def Let_def s2_def)
  show ?thesis
    unfolding amend_order_def p option.case Let_def r [unfolded pd] pd optr.sel ok i_def [unfolded r, symmetric]
      rm_def [unfolded r, symmetric] g amended_level_def [symmetric] lv_def [symmetric] base_def [symmetric] b3
    using n bq lev2 s2'
    by (simp add: side_tag_def base_def [symmetric]) (simp add: base_def dir.adv_eq)
qed

text \<open>The best index an amendment leaves names a level that is not empty.\<close>

lemma amended_best_ok:
  fixes d qn rm
  assumes side: "side_rep s L F" and xi: "x \<in> set (L i)" and iN: "i < NUM_BOOK_LEVELS"
  defines "k \<equiv> best_price_index (amended_side d s i x qn rm)"
  shows "k = NUM_BOOK_LEVELS \<or> k < NUM_BOOK_LEVELS \<and> L k \<noteq> [] \<and> (rm = 0 \<longrightarrow> k = i \<longrightarrow> L i \<noteq> [x])"
proof (cases "l_total_quantity (amended_level s i x rm) = 0")
  case True
  let ?lv = "(levels s)(i := amended_level s i x rm)"
  have "best_price_index s \<le> NUM_BOOK_LEVELS" using side_rep_best [OF side] by fastforce
  from next_best_pos [OF this, of d ?lv]
  have "k = NUM_BOOK_LEVELS \<or> k < NUM_BOOK_LEVELS \<and> 0 < l_total_quantity (?lv k)"
    using True by (simp add: k_def)
  moreover have "k \<noteq> i \<and> 0 < l_total_quantity (levels s k)" if "0 < l_total_quantity (?lv k)"
    using that True by (auto split: if_splits)
  ultimately show ?thesis using level_total_nonempty [OF side_rep_level [OF side]] by blast
next
  case False
  then have "L i \<noteq> [x]" if "rm = 0" using that level_total_alone [OF side iN] by (auto simp: amended_level_def)
  then show ?thesis using side_rep_best [OF side] False by (auto simp: k_def)
qed

text \<open>The two cases: nothing of the order is left, and some of it.\<close>

lemma amended_book_zero:
  assumes rep: "book_rep b L F" and xi: "x \<in> set (L d i)" and iN: "i < NUM_BOOK_LEVELS"
    and qc: "o_quantity_cumulative (side_store (side_of b d) x) = qn"
  defines "b3 \<equiv> amended_book b d i x qn 0"
  shows "\<exists>l F3. book_rep b3 (L(d := (L d)(i := l))) F3"
    and "orders b3 = (\<lambda>e. amend_queue (o_order_id (side_store (side_of b d) x)) qn (orders b e))"
    and "ob_order_id b3 = ob_order_id b" "side_of b3 (\<not> d) = side_of b (\<not> d)"
    and "\<And>j. j \<noteq> i \<Longrightarrow> levels (side_of b3 d) j = levels (side_of b d) j"
    and "l_total_quantity (levels (side_of b3 d) i) = l_total_quantity (amended_level (side_of b d) i x 0)"
    and "best_price_index (side_of b3 d) = best_price_index (amended_side d (side_of b d) i x qn 0)"
proof -
  let ?s = "side_of b d" and ?r = "side_store (side_of b d) x"
  define s2 where "s2 = amended_side d ?s i x qn 0"
  define k where "k = best_price_index s2"
  have ok: "o_is_bid ?r = d"
    using side_rep_order [OF book_rep_side [OF rep] xi] book_rep_bid [OF rep] by (simp add: order_ok_def)
  obtain as bs where Li: "L d i = as @ x # bs" using xi by (meson split_list)
  have b3: "b3 = remove_order (set_side b d s2) d i x" by (simp add: b3_def amended_book_def s2_def)
  note rr = remove_rep [where ?s0.0 = s2 and ?k0.0 = k and q = "upd (side_store ?s) x (requantify qn 0)",
      OF rep Li _ _ _ _ _ _ _ _ _ _ _ b3]
  have hyps: "levels s2 = (levels ?s)(i := (levels ?s i)\<lparr>l_total_quantity :=
        l_total_quantity (levels ?s i) - o_quantity_remaining ?r\<rparr>)"
    "side_store s2 = upd (side_store ?s) x (requantify qn 0)" "next_free (s_pool s2) = next_free (s_pool ?s)"
    "s_is_bid s2 = s_is_bid ?s" "best_price_index s2 = k"
    by (simp_all add: s2_def k_def amended_level_def del: amended_side_sel(4))
  note rr = rr [OF upd_other _ _ _ _ _ hyps, unfolded upd_same]
  have k3: "best_price_index (side_of b3 d) = k" using rr(9) ok by (simp add: requantify_def)
  then show "best_price_index (side_of b3 d) = best_price_index (amended_side d ?s i x qn 0)"
    by (simp only: k_def s2_def)
  have same: "set_side b3 d ((side_of b3 d)\<lparr>best_price_index := k\<rparr>) = b3" by (simp flip: k3)
  have kok: "k = NUM_BOOK_LEVELS \<or> k < NUM_BOOK_LEVELS \<and> ((L d)(i := as @ bs)) k \<noteq> []"
    using amended_best_ok [OF book_rep_side [OF rep] xi iN, of d qn 0, folded s2_def k_def] Li by auto
  have "book_rep b3 (L(d := (L d)(i := as @ bs))) (F(d := x # F d))"
    and o3: "orders b3 = (\<lambda>e. filter (\<lambda>r. r_order_id r \<noteq> o_order_id ?r) (orders b e))"
    using rr(1,2) [of k] kok ok by (simp_all add: requantify_def same)
  then show "\<exists>l F3. book_rep b3 (L(d := (L d)(i := l))) F3" by blast
  show "orders b3 = (\<lambda>e. amend_queue (o_order_id ?r) qn (orders b e))"
    using o3 amend_queue_zero [OF rep xi refl qc] by simp
  show "ob_order_id b3 = ob_order_id b" "side_of b3 (\<not> d) = side_of b (\<not> d)"
    "\<And>j. j \<noteq> i \<Longrightarrow> levels (side_of b3 d) j = levels ?s j"
    "l_total_quantity (levels (side_of b3 d) i) = l_total_quantity (amended_level ?s i x 0)"
    using rr(3-6) ok by (simp_all add: requantify_def amended_level_def)
qed

lemma amended_book_pos:
  assumes rep: "book_rep b L F" and xi: "x \<in> set (L d i)" and iN: "i < NUM_BOOK_LEVELS"
    and cum: "o_quantity_cumulative (side_store (side_of b d) x) < qn"
    and rm: "rm = qn - o_quantity_cumulative (side_store (side_of b d) x)"
  defines "b3 \<equiv> amended_book b d i x qn rm"
  shows "\<exists>l F3. book_rep b3 (L(d := (L d)(i := l))) F3"
    and "orders b3 = (\<lambda>e. amend_queue (o_order_id (side_store (side_of b d) x)) qn (orders b e))"
    and "side_of b3 d = amended_side d (side_of b d) i x qn rm" "side_of b3 (\<not> d) = side_of b (\<not> d)"
    and "ob_order_id b3 = ob_order_id b"
proof -
  let ?s2 = "amended_side d (side_of b d) i x qn rm"
  have "rm \<noteq> 0" using cum rm by auto
  then have b3: "b3 = set_side b d ?s2" by (simp add: b3_def amended_book_def)
  have "best_price_index ?s2 = NUM_BOOK_LEVELS \<or> best_price_index ?s2 < NUM_BOOK_LEVELS \<and> L d (best_price_index ?s2) \<noteq> []"
    using amended_best_ok [OF book_rep_side [OF rep] xi iN, of d qn rm] by blast
  note mo = modify_rep [OF rep xi cum rm, of ?s2, folded b3, OF _ _ _ this]
  have "book_rep b3 L F" and o3: "orders b3 = (\<lambda>e. amend_queue (o_order_id (side_store (side_of b d) x)) qn (orders b e))"
    by (rule mo; simp add: amended_level_def)+
  moreover have "L(d := (L d)(i := L d i)) = L" by simp
  ultimately show "\<exists>l F3. book_rep b3 (L(d := (L d)(i := l))) F3" by metis
  show "orders b3 = (\<lambda>e. amend_queue (o_order_id (side_store (side_of b d) x)) qn (orders b e))" by (rule o3)
  show "side_of b3 d = ?s2" "side_of b3 (\<not> d) = side_of b (\<not> d)" "ob_order_id b3 = ob_order_id b"
    by (simp_all add: b3)
qed

lemma amend_rep:
  assumes rep: "book_rep b L F" and p: "find_order b oid = Some p" and c: "o_client_id (deref b p) = cid"
    and cum: "o_quantity_cumulative (deref b p) \<le> qn"
    and less: "qn - o_quantity_cumulative (deref b p) < o_quantity_remaining (deref b p)"
  defines "i \<equiv> price_to_index (o_price (deref b p))" and "d \<equiv> in_bids p"
  obtains b' L' F' lv r where
    "amend_order b cid rid oid qn now =
       (b', [OnOrderAmended rid (o_quantity (deref b p)) r now, OnLevelUpdate (side_tag d) lv now])"
    "view r = (view (deref b p))\<lparr>r_quantity := qn, r_remaining := qn - o_quantity_cumulative (deref b p)\<rparr>"
    "book_rep b' L' F'" "ob_order_id b' = ob_order_id b"
    "orders b' = (\<lambda>e. amend_queue oid qn (orders b e))"
    "feed_step (volumes_of b) (OnLevelUpdate (side_tag d) lv now) = volumes_of b'"
    "side_of b' (\<not> d) = side_of b (\<not> d)"
    "best_price_index (side_of b' d) = (if l_total_quantity (levels (side_of b' d) i) = 0
       then next_best d (levels (side_of b' d)) (best_price_index (side_of b d)) else best_price_index (side_of b d))"
    "o_is_bid r = d" "\<exists>l. L' = L(d := (L d)(i := l))"
proof -
  let ?s = "side_of b d" and ?x = "slot p"
  define rm where "rm = qn - o_quantity_cumulative (deref b p)"
  define b3 where "b3 = amended_book b d i ?x qn rm"
  define lv where "lv = amended_level ?s i ?x rm"
  note fl = find_live [OF rep p, folded i_def d_def]
  have r: "deref b p = side_store ?s ?x" by (simp add: deref_def d_def)
  have eq: "amend_order b cid rid oid qn now =
      (b3, [OnOrderAmended rid (o_quantity (deref b p)) (requantify qn rm (deref b p)) now, OnLevelUpdate (side_tag d) lv now])"
    using amend_order_eq [OF rep p c cum less] by (simp only: b3_def lv_def i_def d_def rm_def)
  have "(\<exists>l F3. book_rep b3 (L(d := (L d)(i := l))) F3) \<and> orders b3 = (\<lambda>e. amend_queue oid qn (orders b e))
      \<and> ob_order_id b3 = ob_order_id b \<and> side_of b3 (\<not> d) = side_of b (\<not> d)
      \<and> (\<forall>j. j \<noteq> i \<longrightarrow> levels (side_of b3 d) j = levels ?s j) \<and> l_total_quantity (levels (side_of b3 d) i) = l_total_quantity lv
      \<and> best_price_index (side_of b3 d) = best_price_index (amended_side d ?s i ?x qn rm)"
  proof (cases "rm = 0")
    case True
    then have "o_quantity_cumulative (side_store ?s ?x) = qn" by (simp add: rm_def r)
    from amended_book_zero [OF rep fl(1,2) this] show ?thesis
      using fl(5) True unfolding b3_def lv_def r by blast
  next
    case False
    then have "o_quantity_cumulative (side_store ?s ?x) < qn" using cum by (auto simp: rm_def r order.strict_iff_order)
    from amended_book_pos [OF rep fl(1,2) this rm_def [unfolded r]] show ?thesis
      using fl(5) unfolding b3_def lv_def r by simp
  qed
  then obtain l F3 where b3: "book_rep b3 (L(d := (L d)(i := l))) F3" "orders b3 = (\<lambda>e. amend_queue oid qn (orders b e))"
    "ob_order_id b3 = ob_order_id b" "side_of b3 (\<not> d) = side_of b (\<not> d)"
    "\<And>j. j \<noteq> i \<Longrightarrow> levels (side_of b3 d) j = levels ?s j" "l_total_quantity (levels (side_of b3 d) i) = l_total_quantity lv"
    "best_price_index (side_of b3 d) = best_price_index (amended_side d ?s i ?x qn rm)" by blast
  have lp: "l_price lv = MINIMUM_BID + int i"
    using side_rep_level [OF book_rep_side [OF rep] fl(2)] by (simp add: level_ok_def lv_def amended_level_def)
  have "l_total_quantity (((levels ?s)(i := lv)) j) = l_total_quantity (levels (side_of b3 d) j)" for j
    using b3(5) [of j] b3(6) by (cases "j = i") simp_all
  note nb = next_best_cong [of "(levels ?s)(i := lv)" "levels (side_of b3 d)" d "best_price_index ?s", OF this]
  show ?thesis
  proof (rule that [OF eq _ b3(1,3,2) _ b3(4)])
    show "feed_step (volumes_of b) (OnLevelUpdate (side_tag d) lv now) = volumes_of b3"
      by (rule feed_one_level [OF b3(1) fl(2) b3(5,4)]) (simp_all add: b3(6) lp)
    show "best_price_index (side_of b3 d) = (if l_total_quantity (levels (side_of b3 d) i) = 0
        then next_best d (levels (side_of b3 d)) (best_price_index ?s) else best_price_index ?s)"
      using nb unfolding b3(6,7) by (simp add: lv_def)
  qed (use fl(4) in \<open>auto simp: requantify_def view_def rm_def\<close>)
qed

end
