(* ===== verification/Book_Correct.thy ===== *)
theory Book_Correct
  imports Book_Requests
begin

text \<open>
  The correctness of the order book: the invariant under every request, the refinement of each
  request to the list-level specification, the feed, the snapshot, and what the book is like in
  every reachable state.
\<close>

section \<open>The specification of a cancellation and of an amendment\<close>

definition lookup :: "(bool \<Rightarrow> Resting list) \<Rightarrow> Id_t \<Rightarrow> Resting option" where
  "lookup os oid = List.find (\<lambda>r. r_order_id r = oid) (os True @ os False)"

definition spec_cancel ::
  "(bool \<Rightarrow> Resting list) \<Rightarrow> Id_t \<Rightarrow> Id_t \<Rightarrow> ErrorType + (bool \<Rightarrow> Resting list)" where
  "spec_cancel os cid oid =
     (case lookup os oid of
        None \<Rightarrow> Inl ORDER_NOT_FOUND
      | Some r \<Rightarrow> if r_client_id r \<noteq> cid then Inl UNAUTHORISED
                  else Inr (\<lambda>d. filter (\<lambda>r. r_order_id r \<noteq> oid) (os d)))"

definition spec_amend ::
  "(bool \<Rightarrow> Resting list) \<Rightarrow> Id_t \<Rightarrow> Id_t \<Rightarrow> Volume_t \<Rightarrow> ErrorType + (bool \<Rightarrow> Resting list)" where
  "spec_amend os cid oid qn =
     (case lookup os oid of
        None \<Rightarrow> Inl ORDER_NOT_FOUND
      | Some r \<Rightarrow> if r_client_id r \<noteq> cid then Inl UNAUTHORISED
                  else if qn < r_cumulative r \<or> r_quantity r < qn then Inl INVALID_VOLUME
                  else Inr (\<lambda>d. amend_queue oid qn (os d)))"

fun error_text :: "ErrorType \<Rightarrow> string" where
  "error_text ORDER_BOOK_FULL = ''Order book is full.''"
| "error_text INVALID_VOLUME = ''Invalid order size.''"
| "error_text ORDER_NOT_FOUND = ''Order ID not found.''"
| "error_text UNAUTHORISED = ''Unauthorised request.''"
| "error_text INVALID_PRICE = ''Invalid price.''"

lemma find_unique:
  assumes "r \<in> set xs" and "P r" and "\<And>r'. r' \<in> set xs \<Longrightarrow> P r' \<Longrightarrow> r' = r"
  shows "List.find P xs = Some r"
proof (cases "List.find P xs")
  case None
  then show ?thesis using assms(1,2) by (simp add: find_None_iff)
next
  case (Some r')
  then have "r' \<in> set xs" "P r'" by (auto simp: find_Some_iff)
  then show ?thesis using Some assms(3) by simp
qed

lemma live_view_in_orders:
  assumes "book_rep b L F" and "x \<in> set (L d i)"
  shows "view (side_store (side_of b d) x) \<in> set (orders b d)"
  using assms slots_ok_idx [OF side_rep_slots [OF book_rep_side [OF assms(1)]] assms(2)]
  by (auto simp: orders_rep [OF assms(1)] set_book_queue queue_def)

lemma in_orders_live:
  assumes "book_rep b L F" and "r \<in> set (orders b d)"
  obtains i x where "x \<in> set (L d i)" "r = view (side_store (side_of b d) x)"
  using assms by (auto simp: orders_rep [OF assms(1)] set_book_queue queue_def)

lemma lookup_Some:
  assumes rep: "book_rep b L F" and p: "find_order b oid = Some p"
  shows "lookup (orders b) oid = Some (view (deref b p))"
proof -
  obtain i where i: "slot p \<in> set (L (in_bids p) i)" "o_order_id (deref b p) = oid"
    using book_ids_live [OF rep] find_order_rep [OF rep, of oid p] p by blast
  note v = live_view_in_orders [OF rep i(1)]
  show ?thesis
    unfolding lookup_def
  proof (rule find_unique)
    show "view (deref b p) \<in> set (orders b True @ orders b False)"
      using v by (cases "in_bids p") (simp_all add: deref_def)
    fix r assume r: "r \<in> set (orders b True @ orders b False)" "r_order_id r = oid"
    then obtain e where e: "r \<in> set (orders b e)" by auto
    show "r = view (deref b p)"
      using live_view_unique [OF rep i(1) e] r(2) i(2) by (simp add: deref_def)
  qed (simp add: i(2))
qed

lemma lookup_None:
  assumes rep: "book_rep b L F" and p: "find_order b oid = None"
  shows "lookup (orders b) oid = None"
proof -
  have "r_order_id r \<noteq> oid" if r: "r \<in> set (orders b d)" for r d
  proof -
    obtain i x where "x \<in> set (L d i)" "r = view (side_store (side_of b d) x)"
      using in_orders_live [OF rep r] by blast
    then show ?thesis
      using live_book_ids [OF rep] find_order_rep [OF rep, of oid "OPtr d x"] p by fastforce
  qed
  then show ?thesis by (auto simp: lookup_def find_None_iff)
qed

lemma live_quantities:
  assumes rep: "book_rep b L F" and p: "find_order b oid = Some p"
  shows "unat (o_quantity (deref b p)) = unat (o_quantity_remaining (deref b p)) + unat (o_quantity_cumulative (deref b p))"
    and "0 < o_quantity_remaining (deref b p)"
proof -
  obtain i where i: "slot p \<in> set (L (in_bids p) i)"
    using book_ids_live [OF rep] find_order_rep [OF rep, of oid p] p by blast
  from side_rep_order [OF book_rep_side [OF rep] i]
  show "unat (o_quantity (deref b p)) = unat (o_quantity_remaining (deref b p)) + unat (o_quantity_cumulative (deref b p))"
    and "0 < o_quantity_remaining (deref b p)" by (auto simp: order_ok_def deref_def)
qed

section \<open>Requests keep the invariant and refine the specification\<close>

lemma cancel_refines:
  assumes rep: "book_rep b L F"
  shows "case spec_cancel (orders b) cid oid of
     Inl e \<Rightarrow> cancel_order b cid rid oid now = (b, [OnError cid rid (error_code e) (error_text e) now])
   | Inr os \<Rightarrow> \<exists>b' r lv. cancel_order b cid rid oid now =
         (b', [OnLevelUpdate (side_tag (o_is_bid r)) lv now, OnOrderCancelled rid r now]) \<and>
       lookup (orders b) oid = Some (view r) \<and> wf_book b' \<and> orders b' = os \<and> ob_order_id b' = ob_order_id b \<and>
       feed_step (volumes_of b) (OnLevelUpdate (side_tag (o_is_bid r)) lv now) = volumes_of b' \<and>
       (best_right b \<longrightarrow> within_range b \<longrightarrow> best_right b' \<and> within_range b')"
proof (cases "find_order b oid")
  case None
  then show ?thesis by (simp add: spec_cancel_def lookup_None [OF rep] cancel_order_def)
next
  case (Some p)
  obtain i where i: "slot p \<in> set (L (in_bids p) i)"
    using book_ids_live [OF rep] find_order_rep [OF rep, of oid p] Some by blast
  have isb: "o_is_bid (deref b p) = in_bids p"
    using side_rep_order [OF book_rep_side [OF rep] i] book_rep_bid [OF rep] by (simp add: order_ok_def deref_def)
  show ?thesis
  proof (cases "o_client_id (deref b p) = cid")
    case False
    then show ?thesis using Some by (simp add: spec_cancel_def lookup_Some [OF rep Some] cancel_order_def Let_def)
  next
    case True
    obtain b' L' F' lv where c: "cancel_order b cid rid oid now =
       (b', [OnLevelUpdate (side_tag (in_bids p)) lv now, OnOrderCancelled rid (deref b p) now])"
      "book_rep b' L' F'" "ob_order_id b' = ob_order_id b"
      "orders b' = (\<lambda>e. filter (\<lambda>r. r_order_id r \<noteq> oid) (orders b e))"
      "feed_step (volumes_of b) (OnLevelUpdate (side_tag (in_bids p)) lv now) = volumes_of b'"
      "best_right b \<Longrightarrow> within_range b \<Longrightarrow> best_right b'"
      using cancel_rep [OF rep Some True] by metis
    then show ?thesis
      using True isb within_range_filter [OF _ c(4)] lookup_Some [OF rep Some]
      by (auto simp: spec_cancel_def wf_book_def intro!: exI [of _ b'] exI [of _ "deref b p"] exI [of _ lv])
  qed
qed

lemma volume_at_amend:
  assumes "\<And>r. r \<in> set rs \<Longrightarrow> r_order_id r = oid \<Longrightarrow> qn - r_cumulative r \<le> r_remaining r"
  shows "volume_at (amend_queue oid qn rs) p \<le> volume_at rs p"
  using assms
proof (induction rs)
  case Nil
  then show ?case by (simp add: amend_queue_def)
next
  case (Cons r rs)
  then have IH: "volume_at (amend_queue oid qn rs) p \<le> volume_at rs p" by simp
  show ?case
  proof (cases "r_order_id r = oid")
    case True
    then have "unat (qn - r_cumulative r) \<le> unat (r_remaining r)" using Cons.prems [of r] by (simp add: word_le_nat_alt)
    then show ?thesis using IH True by (auto simp: amend_queue_def)
  next
    case False
    then show ?thesis using IH by (auto simp: amend_queue_def)
  qed
qed

lemma volume_at_pos: "r \<in> set rs \<Longrightarrow> r_price r = p \<Longrightarrow> 0 < r_remaining r \<Longrightarrow> volume_at rs p \<noteq> 0"
  by (induction rs) (auto simp: word_gt_0_unat)

lemma amend_queue_same:
  assumes "\<And>r. r \<in> set rs \<Longrightarrow> 0 < r_remaining r"
    and "\<And>r. r \<in> set rs \<Longrightarrow> r_order_id r = oid \<Longrightarrow> r_quantity r = qn \<and> r_remaining r = qn - r_cumulative r"
  shows "amend_queue oid qn rs = rs"
proof -
  have "(if r_order_id r = oid then r\<lparr>r_quantity := qn, r_remaining := qn - r_cumulative r\<rparr> else r) = r"
    if "r \<in> set rs" for r
    using assms(2) [OF that] by (cases r) auto
  then have "map (\<lambda>r. if r_order_id r = oid then r\<lparr>r_quantity := qn, r_remaining := qn - r_cumulative r\<rparr> else r) rs = rs"
    by (rule map_idI)
  then show ?thesis using assms(1) by (simp add: amend_queue_def filter_id_conv)
qed

text \<open>
  The best index after an amendment: kept right unless the amendment empties a level other than
  the best one, in which case the code moves the index past the best level.
\<close>

lemma amend_best:
  assumes rep: "book_rep b L F" and br: "best_right b" and wr: "within_range b"
    and rep': "book_rep b' (L(d := (L d)(i := l))) F'" and wr': "within_range b'" and iN: "i < NUM_BOOK_LEVELS"
    and other: "side_of b' (\<not> d) = side_of b (\<not> d)" and Li: "L d i \<noteq> []"
    and best: "best_price_index (side_of b' d) = (if l_total_quantity (levels (side_of b' d) i) = 0
       then next_best d (levels (side_of b' d)) (best_price_index (side_of b d)) else best_price_index (side_of b d))"
  shows "best_right b' \<longleftrightarrow>
    best_price_index (side_of b d) = i \<or> volume_at (orders b' d) (MINIMUM_BID + int i) \<noteq> 0"
proof -
  let ?s = "side_of b d" and ?s' = "side_of b' d" and ?L' = "(L d)(i := l)" and ?k = "best_price_index (side_of b d)"
  note side = book_rep_side [OF rep, of d] and bo = sound_lists [OF rep br wr, of d]
  have side': "side_rep ?s' ?L' (F' d)" and fit': "fits ?s' ?L'"
    using book_rep_side [OF rep', of d] spec [OF iffD1 [OF within_range_rep [OF rep'] wr'], of d] by simp_all
  have kN: "?k < NUM_BOOK_LEVELS" and nb: "\<not> better d i ?k" using bo(1) iN Li by (auto simp: best_ok_def)
  have Lk: "L d ?k \<noteq> []" using side_rep_best [OF side] kN by simp
  have tot: "l_total_quantity (levels ?s' i) = 0 \<longleftrightarrow> l = []"
    using level_total_pos [OF side' fit' iN] by (simp add: word_gt_0)
  have "volume_at (orders b' d) (MINIMUM_BID + int i) = unat (l_total_quantity (levels ?s' i))"
    using level_total_unat [OF side' fit' iN] volume_at_queue [OF side' iN, of d] by (simp add: orders_rep [OF rep'])
  then have vol: "volume_at (orders b' d) (MINIMUM_BID + int i) \<noteq> 0 \<longleftrightarrow> l \<noteq> []"
    using tot by (simp add: unat_eq_0)
  have only: "best_right b' \<longleftrightarrow> best_ok (better d) ?s' ?L'"
    using best_right_set [OF rep br wr rep' other] spec [OF iffD1 [OF best_right_rep [OF rep']], of d]
    by fastforce
  consider (left) "l \<noteq> []" | (best) "l = []" "?k = i" | (lost) "l = []" "?k \<noteq> i" by blast
  then show ?thesis
  proof cases
    case left
    then have "best_ok (better d) ?s' ?L'" using bo(1) best tot Li by (auto simp: best_ok_def split: if_splits)
    then show ?thesis using left only vol by simp
  next
    case best
    have "best_ok (better d) ?s' ?L'"
      by (rule dir.best_ok_next [OF side' fit' kN]) (use best bo(1) assms(9) tot in \<open>auto simp: best_ok_def\<close>)
    then show ?thesis using best only by simp
  next
    case lost
    have "\<not> best_ok (better d) ?s' ?L'"
    proof
      assume ok: "best_ok (better d) ?s' ?L'"
      have "?L' ?k \<noteq> []" using Lk lost by simp
      then have "best_price_index ?s' < NUM_BOOK_LEVELS" "\<not> better d ?k (best_price_index ?s')"
        using ok kN unfolding best_ok_def by blast+
      moreover have "best_price_index ?s' = next_best d (levels ?s') ?k" using best tot lost by simp
      ultimately show False using dir.nx_worse [where d = d and lv = "levels ?s'", OF kN] by auto
    qed
    then show ?thesis using lost only vol by simp
  qed
qed

lemma amend_invalid_iff:
  assumes "unat q = unat rm + unat cum" and "cum \<le> qn"
  shows "rm < qn - cum \<longleftrightarrow> q < (qn :: Volume_t)" "qn - cum = rm \<longleftrightarrow> q = qn"
proof -
  have u: "unat (qn - cum) = unat qn - unat cum" and le: "unat cum \<le> unat qn"
    using assms(2) by (simp_all add: unat_diff_le word_le_nat_alt)
  show "rm < qn - cum \<longleftrightarrow> q < qn" using u le assms(1) by (auto simp: word_less_nat_alt)
  show "qn - cum = rm \<longleftrightarrow> q = qn" using u le assms(1) by (auto simp: word_unat_eq_iff)
qed

text \<open>What an accepted amendment answers and leaves behind; \<open>os\<close> are the queues it should leave.\<close>

definition amended_to :: "OrderBook \<Rightarrow> Id_t \<Rightarrow> Id_t \<Rightarrow> Volume_t \<Rightarrow> Time_t \<Rightarrow> (bool \<Rightarrow> Resting list) \<Rightarrow>
    OrderBook \<times> BookEvent list \<Rightarrow> bool" where
  "amended_to b rid oid qn now os res \<longleftrightarrow>
    (\<exists>b' r old evs. res = (b', OnOrderAmended rid (r_quantity old) r now # evs) \<and>
       lookup (orders b) oid = Some old \<and> old \<in> set (orders b (o_is_bid r)) \<and>
       view r = old\<lparr>r_quantity := qn, r_remaining := qn - r_cumulative old\<rparr> \<and>
       wf_book b' \<and> orders b' = os \<and> ob_order_id b' = ob_order_id b \<and> trades_of evs = [] \<and>
       side_of b' (\<not> o_is_bid r) = side_of b (\<not> o_is_bid r) \<and>
       feed evs (volumes_of b) = volumes_of b' \<and>
       (best_right b \<longrightarrow> within_range b \<longrightarrow> within_range b' \<and>
          (best_right b' \<longleftrightarrow> best_price_index (side_of b (o_is_bid r)) = price_to_index (r_price old) \<or>
             volume_at (os (o_is_bid r)) (r_price old) \<noteq> 0)))"

lemma amend_to_same:
  assumes rep: "book_rep b L F" and p: "find_order b oid = Some p" and c: "o_client_id (deref b p) = cid"
    and cum: "o_quantity_cumulative (deref b p) \<le> qn" and same: "o_quantity (deref b p) = qn"
  shows "amended_to b rid oid qn now (\<lambda>e. amend_queue oid qn (orders b e)) (amend_order b cid rid oid qn now)"
proof -
  let ?o = "deref b p"
  note l = lookup_Some [OF rep p] and fl = find_live [OF rep p] and lq = live_quantities [OF rep p]
  have mem: "view ?o \<in> set (orders b (in_bids p))"
    using live_view_in_orders [OF rep fl(1)] by (simp add: deref_def)
  have rm: "qn - o_quantity_cumulative ?o = o_quantity_remaining ?o"
    using amend_invalid_iff(2) [OF lq(1) cum] same by simp
  have eq: "amend_order b cid rid oid qn now = (b, [OnOrderAmended rid (o_quantity ?o) ?o now])"
    using p c cum same amend_invalid_iff [OF lq(1) cum] by (simp add: amend_order_def Let_def not_less rm)
  have "amend_queue oid qn (orders b e) = orders b e" for e
  proof (rule amend_queue_same)
    fix r assume r: "r \<in> set (orders b e)"
    show "0 < r_remaining r" by (rule resting_pos [OF rep r])
    assume "r_order_id r = oid"
    then have "r = view ?o" using live_view_unique [OF rep fl(1) r] fl(5) by (simp add: deref_def)
    then show "r_quantity r = qn \<and> r_remaining r = qn - r_cumulative r" using same rm by simp
  qed
  then have os: "(\<lambda>e. amend_queue oid qn (orders b e)) = orders b" by simp
  have vol: "volume_at (orders b (in_bids p)) (o_price ?o) \<noteq> 0"
    using mem lq(2) by (intro volume_at_pos) auto
  have "view ?o = (view ?o)\<lparr>r_quantity := qn, r_remaining := qn - r_cumulative (view ?o)\<rparr>"
    using same rm by (simp add: view_def)
  then show ?thesis
    using rep same vol fl(4) l mem
    by (auto simp: amended_to_def eq os wf_book_def intro!: exI [of _ ?o])
qed

lemma amend_within_range:
  assumes rep: "book_rep b L F" and p: "find_order b oid = Some p"
    and less: "qn - o_quantity_cumulative (deref b p) < o_quantity_remaining (deref b p)"
    and os: "orders b' = (\<lambda>e. amend_queue oid qn (orders b e))" and wr: "within_range b"
  shows "within_range b'"
proof -
  note fl = find_live [OF rep p]
  have "volume_at (orders b' e) q \<le> volume_at (orders b e) q" for e q
    unfolding os
  proof (rule volume_at_amend)
    fix s assume s: "s \<in> set (orders b e)" "r_order_id s = oid"
    then have "s = view (deref b p)" using live_view_unique [OF rep fl(1) s(1)] fl(5) by (simp add: deref_def)
    then show "qn - r_cumulative s \<le> r_remaining s" using less by simp
  qed
  from le_less_trans [OF this] show ?thesis using wr unfolding within_range_def by blast
qed

lemma amend_to_less:
  assumes rep: "book_rep b L F" and p: "find_order b oid = Some p" and c: "o_client_id (deref b p) = cid"
    and cum: "o_quantity_cumulative (deref b p) \<le> qn" and less: "qn < o_quantity (deref b p)"
  shows "amended_to b rid oid qn now (\<lambda>e. amend_queue oid qn (orders b e)) (amend_order b cid rid oid qn now)"
proof -
  let ?o = "deref b p"
  let ?i = "price_to_index (o_price ?o)" and ?d = "in_bids p"
  note l = lookup_Some [OF rep p] and fl = find_live [OF rep p] and lq = live_quantities [OF rep p]
  have mem: "view ?o \<in> set (orders b ?d)"
    using live_view_in_orders [OF rep fl(1)] by (simp add: deref_def)
  have "\<not> o_quantity_remaining ?o < qn - o_quantity_cumulative ?o" "qn - o_quantity_cumulative ?o \<noteq> o_quantity_remaining ?o"
    using amend_invalid_iff [OF lq(1) cum] less by auto
  then have lt: "qn - o_quantity_cumulative ?o < o_quantity_remaining ?o" by simp
  obtain b' L' F' lv r where a:
    "amend_order b cid rid oid qn now =
       (b', [OnOrderAmended rid (o_quantity ?o) r now, OnLevelUpdate (side_tag ?d) lv now])"
    "view r = (view ?o)\<lparr>r_quantity := qn, r_remaining := qn - o_quantity_cumulative ?o\<rparr>"
    "book_rep b' L' F'" "ob_order_id b' = ob_order_id b"
    "orders b' = (\<lambda>e. amend_queue oid qn (orders b e))"
    "feed_step (volumes_of b) (OnLevelUpdate (side_tag ?d) lv now) = volumes_of b'"
    "side_of b' (\<not> ?d) = side_of b (\<not> ?d)"
    "best_price_index (side_of b' ?d) = (if l_total_quantity (levels (side_of b' ?d) ?i) = 0
       then next_best ?d (levels (side_of b' ?d)) (best_price_index (side_of b ?d)) else best_price_index (side_of b ?d))"
    "o_is_bid r = ?d" "\<exists>l. L' = L(?d := (L ?d)(?i := l))"
    by (rule amend_rep [OF rep p c cum lt, of rid now]) blast
  obtain li where L': "L' = L(?d := (L ?d)(?i := li))" using a(10) by blast
  note wr = amend_within_range [OF rep p lt a(5)]
  have Li: "L ?d ?i \<noteq> []" using fl(1) by auto
  have "within_range b' \<and> (best_right b' \<longleftrightarrow> best_price_index (side_of b ?d) = ?i \<or> volume_at (orders b' ?d) (o_price ?o) \<noteq> 0)"
    if "best_right b" "within_range b"
    using amend_best [OF rep that a(3) [unfolded L'] wr [OF that(2)] fl(2) a(7) Li a(8)] wr [OF that(2)] fl(3) by simp
  then show ?thesis
    using a(1-7,9) less l mem
    by (auto simp: amended_to_def wf_book_def not_less intro!: exI [of _ b'] exI [of _ r] exI [of _ "[OnLevelUpdate (side_tag ?d) lv now]"])
qed

lemma amend_refines:
  assumes rep: "book_rep b L F"
  shows "case spec_amend (orders b) cid oid qn of
     Inl e \<Rightarrow> amend_order b cid rid oid qn now = (b, [OnError cid rid (error_code e) (error_text e) now])
   | Inr os \<Rightarrow> \<exists>b' r old evs. amend_order b cid rid oid qn now = (b', OnOrderAmended rid (r_quantity old) r now # evs) \<and>
       lookup (orders b) oid = Some old \<and> old \<in> set (orders b (o_is_bid r)) \<and>
       view r = old\<lparr>r_quantity := qn, r_remaining := qn - r_cumulative old\<rparr> \<and>
       wf_book b' \<and> orders b' = os \<and> ob_order_id b' = ob_order_id b \<and> trades_of evs = [] \<and>
       side_of b' (\<not> o_is_bid r) = side_of b (\<not> o_is_bid r) \<and>
       feed evs (volumes_of b) = volumes_of b' \<and>
       (best_right b \<longrightarrow> within_range b \<longrightarrow> within_range b' \<and>
          (best_right b' \<longleftrightarrow> best_price_index (side_of b (o_is_bid r)) = price_to_index (r_price old) \<or>
             volume_at (os (o_is_bid r)) (r_price old) \<noteq> 0))"
proof (cases "find_order b oid")
  case None
  then show ?thesis by (simp add: spec_amend_def lookup_None [OF rep] amend_order_def Let_def)
next
  case (Some p)
  let ?o = "deref b p"
  note l = lookup_Some [OF rep Some] and lq = live_quantities [OF rep Some]
  consider (auth) "o_client_id ?o \<noteq> cid" | (low) "o_client_id ?o = cid" "qn < o_quantity_cumulative ?o"
    | (high) "o_client_id ?o = cid" "o_quantity_cumulative ?o \<le> qn" "o_quantity ?o < qn"
    | (accepted) "o_client_id ?o = cid" "o_quantity_cumulative ?o \<le> qn" "qn \<le> o_quantity ?o"
    by (metis not_le)
  then show ?thesis
  proof cases
    case auth
    then show ?thesis using Some by (simp add: spec_amend_def l amend_order_def Let_def)
  next
    case low
    then show ?thesis using Some by (simp add: spec_amend_def l amend_order_def Let_def)
  next
    case high
    then show ?thesis
      using Some amend_invalid_iff [OF lq(1) high(2)] by (simp add: spec_amend_def l amend_order_def Let_def not_less)
  next
    case accepted
    then have "amended_to b rid oid qn now (\<lambda>e. amend_queue oid qn (orders b e)) (amend_order b cid rid oid qn now)"
      using amend_to_same [OF rep Some accepted(1,2)] amend_to_less [OF rep Some accepted(1,2)] by (auto simp: order.order_iff_strict)
    moreover have "spec_amend (orders b) cid oid qn = Inr (\<lambda>e. amend_queue oid qn (orders b e))"
      using accepted by (simp add: spec_amend_def l leD)
    ultimately show ?thesis unfolding amended_to_def by simp
  qed
qed

end
