(* ===== verification/Book_Run.thy ===== *)
theory Book_Run
  imports Book_Correct
begin

text \<open>
  The book as a state machine over the three requests, and the properties of the order book:
  every request returns and keeps the book well formed, each refines its specification, and in
  every reachable state the book is sorted, uncrossed and mirrored by its feed.
\<close>

section \<open>Requests and runs\<close>

datatype Request =
    Submit Price_t Volume_t bool Id_t Id_t Time_t Time_t Time_t
  | Cancel Id_t Id_t Id_t Time_t
  | Amend Id_t Id_t Id_t Volume_t Time_t

fun handle :: "OrderBook \<Rightarrow> Request \<Rightarrow> (OrderBook \<times> BookEvent list) option" where
  "handle b (Submit price q d cid rid now now_match now_add) =
     submit_order b price q d cid rid now now_match now_add"
| "handle b (Cancel cid rid oid now) = Some (cancel_order b cid rid oid now)"
| "handle b (Amend cid rid oid qn now) = Some (amend_order b cid rid oid qn now)"

text \<open>Identifiers are 32-bit and are not reused: a run has fewer than \<open>2 ^ 32 - 1\<close> accepted orders.\<close>

definition ids_left :: "OrderBook \<Rightarrow> bool" where
  "ids_left b \<longleftrightarrow> unat (ob_order_id b) + 1 < 2 ^ 32"

inductive run :: "OrderBook \<Rightarrow> BookEvent list \<Rightarrow> OrderBook \<Rightarrow> bool" where
  run_start: "run b [] b"
| run_step: "run b evs b1 \<Longrightarrow> ids_left b1 \<Longrightarrow> handle b1 req = Some (b2, evs') \<Longrightarrow> run b (evs @ evs') b2"

inductive_cases run_stepE: "run b evs b'"

text \<open>
  An admissible request: a submission whose volume fits the 32-bit total of its level, and an
  amendment that does not empty a level other than the best one.
\<close>

fun admissible :: "OrderBook \<Rightarrow> Request \<Rightarrow> bool" where
  "admissible b (Submit price q d cid rid now now_match now_add) \<longleftrightarrow> volume_at (orders b d) price + unat q < 2 ^ 32"
| "admissible b (Cancel cid rid oid now) \<longleftrightarrow> True"
| "admissible b (Amend cid rid oid qn now) \<longleftrightarrow>
     (\<forall>d. \<forall>r \<in> set (orders b d). r_order_id r = oid \<longrightarrow>
        best_price_index (side_of b d) = price_to_index (r_price r) \<or>
        volume_at (amend_queue oid qn (orders b d)) (r_price r) \<noteq> 0)"

inductive orderly_run :: "OrderBook \<Rightarrow> BookEvent list \<Rightarrow> OrderBook \<Rightarrow> bool" where
  orderly_start: "orderly_run b [] b"
| orderly_step: "orderly_run b evs b1 \<Longrightarrow> ids_left b1 \<Longrightarrow> admissible b1 req \<Longrightarrow>
    handle b1 req = Some (b2, evs') \<Longrightarrow> orderly_run b (evs @ evs') b2"

section \<open>One request\<close>

lemma submit_invalid:
  assumes "q = 0 \<or> \<not> price_ok price"
  shows "submit_order b price q d cid rid now now_match now_add =
    Some (b, [OnError cid rid (error_code (if q = 0 then INVALID_VOLUME else INVALID_PRICE))
                (error_text (if q = 0 then INVALID_VOLUME else INVALID_PRICE)) now])"
  using assms by (auto simp: submit_order_def price_ok_def)

lemma handle_wf:
  assumes wf: "wf_book b" and ids: "ids_left b"
  shows "\<exists>b' evs. handle b req = Some (b', evs) \<and> wf_book b' \<and> feed evs (volumes_of b) = volumes_of b'"
proof -
  obtain L F where rep: "book_rep b L F" using wf by (auto simp: wf_book_def)
  show ?thesis
  proof (cases req)
    case (Submit price q d cid rid now now_match now_add)
    show ?thesis
    proof (cases "q = 0 \<or> \<not> price_ok price")
      case True
      then show ?thesis using wf Submit submit_invalid [OF True] by simp
    next
      case False
      then show ?thesis
        using submit_valid [OF rep ids [unfolded ids_left_def], of q price d cid rid now now_match now_add] Submit
        by (metis handle.simps(1) wf_book_def)
    qed
  next
    case (Cancel cid rid oid now)
    then show ?thesis
      using cancel_refines [OF rep, where cid = cid and oid = oid and rid = rid and now = now] wf by (force split: sum.splits)
  next
    case (Amend cid rid oid qn now)
    then show ?thesis
      using amend_refines [OF rep, where cid = cid and oid = oid and rid = rid and now = now and qn = qn] wf by (force split: sum.splits)
  qed
qed

lemma run_wf:
  assumes "run b evs b'" and "wf_book b"
  shows "wf_book b' \<and> feed evs (volumes_of b) = volumes_of b'"
  using assms
proof (induction rule: run.induct)
  case (run_start b)
  then show ?case by simp
next
  case (run_step b evs b1 req b2 evs')
  then show ?case using handle_wf [of b1 req] by auto
qed

lemma volumes_init: "volumes_of (OrderBook_init mb ma) = (\<lambda>_ _. 0)"
  by (auto simp: volumes_of_def totals_def OrderBook_init_def OrderBookSide_init_def side_of_def fun_eq_iff)

section \<open>Sound books stay sound\<close>

lemma spec_match_rest:
  assumes "spec_match ok q rs = (fs, rest, q')"
  obtains n where "map (\<lambda>r. (r_price r, r_order_id r)) rest = drop n (map (\<lambda>r. (r_price r, r_order_id r)) rs)"
    "\<And>p. volume_at rest p \<le> volume_at rs p"
proof -
  have "\<exists>n. map (\<lambda>r. (r_price r, r_order_id r)) rest = drop n (map (\<lambda>r. (r_price r, r_order_id r)) rs) \<and>
      (\<forall>p. volume_at rest p \<le> volume_at rs p)" using assms
  proof (induction rs arbitrary: q fs)
    case Nil
    then show ?case by simp
  next
    case (Cons r rs)
    consider (stop) "q = 0 \<or> \<not> ok (r_price r)" | (full) "q \<noteq> 0" "ok (r_price r)" "r_remaining r \<le> q"
      | (part) "q \<noteq> 0" "ok (r_price r)" "\<not> r_remaining r \<le> q" by blast
    then show ?case
    proof cases
      case stop
      then show ?thesis using Cons.prems by (auto intro!: exI [of _ 0])
    next
      case full
      then obtain fs0 where m: "spec_match ok (q - r_remaining r) rs = (fs0, rest, q')"
        using Cons.prems by (auto split: prod.splits)
      from Cons.IH [OF m] obtain n where "map (\<lambda>r. (r_price r, r_order_id r)) rest = drop n (map (\<lambda>r. (r_price r, r_order_id r)) rs)"
        "\<forall>p. volume_at rest p \<le> volume_at rs p" by blast
      then show ?thesis by (intro exI [of _ "Suc n"]) (auto intro: trans_le_add2)
    next
      case part
      then have "rest = fill r q # rs" using Cons.prems by auto
      moreover have "unat (r_remaining r - q) \<le> unat (r_remaining r)"
        using part by (simp add: unat_diff_le not_le less_imp_le)
      ultimately show ?thesis by (intro exI [of _ 0]) (auto simp: fill_def)
    qed
  qed
  then show ?thesis using that by blast
qed

lemma place_split:
  obtains xs ys where "rs = xs @ ys" "place d r rs = xs @ r # ys"
    "\<And>r'. r' \<in> set xs \<Longrightarrow> if d then r_price r \<le> r_price r' else r_price r' \<le> r_price r"
    "ys \<noteq> [] \<Longrightarrow> \<not> (if d then r_price r \<le> r_price (hd ys) else r_price (hd ys) \<le> r_price r)"
proof -
  define P where "P = (\<lambda>r' :: Resting. if d then r_price r \<le> r_price r' else r_price r' \<le> r_price r)"
  show ?thesis
  proof (rule that [of "takeWhile P rs" "dropWhile P rs"])
    show "rs = takeWhile P rs @ dropWhile P rs" by simp
    show "place d r rs = takeWhile P rs @ r # dropWhile P rs" by (simp add: place_def P_def Let_def)
    show "if d then r_price r \<le> r_price r' else r_price r' \<le> r_price r" if "r' \<in> set (takeWhile P rs)" for r'
      using conjunct2 [OF set_takeWhileD [OF that]] unfolding P_def .
    show "\<not> (if d then r_price r \<le> r_price (hd (dropWhile P rs)) else r_price (hd (dropWhile P rs)) \<le> r_price r)"
      if "dropWhile P rs \<noteq> []"
      using hd_dropWhile [OF that] unfolding P_def .
  qed
qed

lemma place_set [simp]: "set (place d r rs) = insert r (set rs)"
  by (rule place_split [of rs d r]) simp

lemma place_volume [simp]: "volume_at (place d r rs) p = volume_at [r] p + volume_at rs p"
  by (rule place_split [of rs d r]) simp

text \<open>Price-time priority: best price first, and at one price the older order first.\<close>

definition key :: "Resting \<Rightarrow> Price_t \<times> Id_t" where
  "key r = (r_price r, r_order_id r)"

fun outranks :: "bool \<Rightarrow> Price_t \<times> Id_t \<Rightarrow> Price_t \<times> Id_t \<Rightarrow> bool" where
  "outranks d (p, i) (p', i') \<longleftrightarrow> (if d then p' < p else p < p') \<or> p = p' \<and> i < i'"

definition ranked :: "bool \<Rightarrow> Resting list \<Rightarrow> bool" where
  "ranked d rs \<longleftrightarrow> sorted_wrt (outranks d) (map key rs)"

lemma ranked_drop: "ranked d rs \<Longrightarrow> map key rest = drop n (map key rs) \<Longrightarrow> ranked d rest"
  by (simp add: ranked_def sorted_wrt_drop)

lemma ranked_filter: "ranked d rs \<Longrightarrow> ranked d (filter P rs)"
  by (simp add: ranked_def sorted_wrt_map sorted_wrt_filter)

lemma ranked_amend:
  assumes "ranked d rs"
  shows "ranked d (amend_queue oid qn rs)"
proof -
  have "map key (map (\<lambda>r. if r_order_id r = oid then r\<lparr>r_quantity := qn, r_remaining := qn - r_cumulative r\<rparr> else r) rs)
      = map key rs" by (simp add: key_def)
  then show ?thesis using assms unfolding amend_queue_def by (intro ranked_filter) (simp only: ranked_def)
qed

lemma ranked_place:
  assumes rk: "ranked d rs" and new: "\<And>r'. r' \<in> set rs \<Longrightarrow> r_order_id r' < r_order_id r"
  shows "ranked d (place d r rs)"
proof -
  obtain xs ys where s: "rs = xs @ ys" "place d r rs = xs @ r # ys"
    "\<And>r'. r' \<in> set xs \<Longrightarrow> if d then r_price r \<le> r_price r' else r_price r' \<le> r_price r"
    "ys \<noteq> [] \<Longrightarrow> \<not> (if d then r_price r \<le> r_price (hd ys) else r_price (hd ys) \<le> r_price r)"
    using place_split [of rs d r] by blast
  have xs: "outranks d (key r') (key r)" if "r' \<in> set xs" for r'
    using s(3) [OF that] new [of r'] s(1) that by (auto simp: key_def split: if_splits)
  have ys: "outranks d (key r) (key r')" if r': "r' \<in> set ys" for r'
  proof -
    obtain h t where ht: "ys = h # t" using r' by (cases ys) auto
    have "r' = h \<or> outranks d (key h) (key r')" using rk s(1) ht r' by (auto simp: ranked_def sorted_wrt_append)
    then show ?thesis using s(4) ht by (auto simp: key_def split: if_splits)
  qed
  show ?thesis unfolding s(2) using rk xs ys s(1) by (auto simp: ranked_def sorted_wrt_append)
qed

text \<open>Sound, and in price-time priority on both sides.\<close>

definition good_book :: "OrderBook \<Rightarrow> bool" where
  "good_book b \<longleftrightarrow> sound_book b \<and> (\<forall>d. ranked d (orders b d))"

lemma good_bookD:
  "good_book b \<Longrightarrow> wf_book b \<and> best_right b \<and> within_range b \<and> uncrossed b \<and> (\<forall>d. ranked d (orders b d))"
  by (simp add: good_book_def sound_book_def)

lemma good_bookI:
  "wf_book b \<Longrightarrow> best_right b \<Longrightarrow> within_range b \<Longrightarrow> uncrossed b \<Longrightarrow> (\<And>d. ranked d (orders b d)) \<Longrightarrow> good_book b"
  by (simp add: good_book_def sound_book_def)

lemma orders_id_less:
  assumes "book_rep b L F" and "r \<in> set (orders b d)"
  shows "r_order_id r < ob_order_id b"
proof -
  obtain i x where x: "x \<in> set (L d i)" "r = view (side_store (side_of b d) x)"
    using in_orders_live [OF assms] by blast
  then show ?thesis using book_rep_ids [OF assms(1) live_book_ids [OF assms(1) x(1)]] by simp
qed

lemma spec_match_volume_le: "spec_match ok q rs = (fs, rest, q') \<Longrightarrow> q' \<le> q"
  using spec_match_conserve [of ok q rs fs rest q'] by (simp add: word_le_nat_alt)

text \<open>The specified submission keeps the order and the range.\<close>

lemma spec_submit_good:
  assumes sp: "spec_submit os oid cid price q d = (os', fs, q')"
    and rk: "\<And>e. ranked e (os e)" and new: "\<And>r. r \<in> set (os d) \<Longrightarrow> r_order_id r < oid"
    and vol: "\<And>e p. volume_at (os e) p < 2 ^ 32" "volume_at (os d) price + unat q < 2 ^ 32"
  shows "ranked e (os' e)" "volume_at (os' e) p < 2 ^ 32"
proof -
  obtain rest where m: "spec_match (\<lambda>p. crosses (\<not> d) p price) q (os (\<not> d)) = (fs, rest, q')"
    and os': "os' = (if 0 < q' \<and> length (os d) < MAX_ORDERS
           then os(\<not> d := rest, d := place d (resting oid cid price q q') (os d)) else os(\<not> d := rest))"
    using sp by (auto simp: spec_submit_def split: prod.splits)
  obtain n where n: "map (\<lambda>r. (r_price r, r_order_id r)) rest = drop n (map (\<lambda>r. (r_price r, r_order_id r)) (os (\<not> d)))"
    and le: "\<And>p. volume_at rest p \<le> volume_at (os (\<not> d)) p"
    using spec_match_rest [OF m] by blast
  have r1: "ranked (\<not> d) rest" by (rule ranked_drop [OF rk]) (use n in \<open>simp add: key_def [abs_def]\<close>)
  have r2: "ranked d (place d (resting oid cid price q q') (os d))" by (rule ranked_place [OF rk]) (simp add: new)
  have "unat q' \<le> unat q" using spec_match_volume_le [OF m] by (simp add: word_le_nat_alt)
  then have v2: "volume_at (place d (resting oid cid price q q') (os d)) p < 2 ^ 32" for p
    using vol(1) [of d p] vol(2) by auto
  have v1: "volume_at rest p < 2 ^ 32" for p using le_less_trans [OF le vol(1)] .
  show "ranked e (os' e)" using r1 r2 rk [of e] by (cases "e = d") (auto simp: os')
  show "volume_at (os' e) p < 2 ^ 32" using v1 v2 vol(1) [of e p] by (cases "e = d") (auto simp: os')
qed

definition apart :: "(bool \<Rightarrow> Resting list) \<Rightarrow> bool" where
  "apart os \<longleftrightarrow> (\<forall>r \<in> set (os True). \<forall>r' \<in> set (os False). r_price r < r_price r')"

lemma uncrossed_apart: "uncrossed b \<longleftrightarrow> apart (orders b)"
  by (simp add: uncrossed_def apart_def)

lemma apart_prices:
  assumes "apart os" and "\<And>d r. r \<in> set (os' d) \<Longrightarrow> r_price r \<in> r_price ` set (os d)"
  shows "apart os'"
proof -
  have "r_price r < r_price r'" if "r \<in> set (os' True)" "r' \<in> set (os' False)" for r r'
    using assms(2) [OF that(1)] assms(2) [OF that(2)] assms(1) by (auto simp: apart_def)
  then show ?thesis by (simp add: apart_def)
qed

lemma spec_submit_apart:
  assumes sp: "spec_submit os oid cid price q d = (os', fs, q')" and ap: "apart os"
    and clear: "0 < q' \<Longrightarrow> \<forall>r \<in> set (os' (\<not> d)). \<not> crosses (\<not> d) (r_price r) price"
  shows "apart os'"
proof -
  obtain rest where m: "spec_match (\<lambda>p. crosses (\<not> d) p price) q (os (\<not> d)) = (fs, rest, q')"
    and os': "os' = (if 0 < q' \<and> length (os d) < MAX_ORDERS
           then os(\<not> d := rest, d := place d (resting oid cid price q q') (os d)) else os(\<not> d := rest))"
    using sp by (auto simp: spec_submit_def split: prod.splits)
  obtain n where n: "map (\<lambda>r. (r_price r, r_order_id r)) rest = drop n (map (\<lambda>r. (r_price r, r_order_id r)) (os (\<not> d)))"
    using spec_match_rest [OF m] by blast
  have sub: "r_price r \<in> r_price ` set (os (\<not> d))" if "r \<in> set rest" for r
  proof -
    have "(r_price r, r_order_id r) \<in> set (map (\<lambda>r. (r_price r, r_order_id r)) rest)" using that by auto
    then have "(r_price r, r_order_id r) \<in> set (map (\<lambda>r. (r_price r, r_order_id r)) (os (\<not> d)))"
      unfolding n by (rule in_set_dropD)
    then show ?thesis by auto
  qed
  have ap1: "apart (os(\<not> d := rest))"
    by (rule apart_prices [OF ap]) (use sub in \<open>auto split: if_splits\<close>)
  show ?thesis
  proof (cases "0 < q' \<and> length (os d) < MAX_ORDERS")
    case True
    then have c: "\<forall>r \<in> set rest. \<not> crosses (\<not> d) (r_price r) price" using clear by (simp add: os')
    show ?thesis using ap1 c True by (cases d) (auto simp: apart_def os' crosses_def)
  next
    case False
    then show ?thesis using ap1 by (auto simp: os')
  qed
qed

lemma submit_result:
  assumes rep: "book_rep b L F" and ids: "ids_left b" and ok: "q \<noteq> 0" "price_ok price"
    and s: "submit_order b price q d cid rid now now_match now_add = Some (b', evs)"
  shows "wf_book b' \<and> ob_order_id b' = ob_order_id b + 1 \<and> feed evs (volumes_of b) = volumes_of b' \<and>
    (best_right b \<longrightarrow> within_range b \<longrightarrow> best_right b' \<and>
       (\<exists>fs q'. spec_submit (orders b) (ob_order_id b) cid price q d = (orders b', fs, q') \<and>
          trades_of evs = spec_trades cid (ob_order_id b) q now_match q fs \<and>
          (0 < q' \<longrightarrow> (\<forall>r \<in> set (orders b' (\<not> d)). \<not> crosses (\<not> d) (r_price r) price))))"
proof -
  obtain b'' L' F' evs' where r: "submit_order b price q d cid rid now now_match now_add = Some (b'', evs')"
    "book_rep b'' L' F'" "ob_order_id b'' = ob_order_id b + 1" "feed evs' (volumes_of b) = volumes_of b''"
    "best_right b \<Longrightarrow> within_range b \<Longrightarrow> best_right b'' \<and>
       (\<exists>fs q'. spec_submit (orders b) (ob_order_id b) cid price q d = (orders b'', fs, q') \<and>
          trades_of evs' = spec_trades cid (ob_order_id b) q now_match q fs \<and>
          (0 < q' \<longrightarrow> (\<forall>r \<in> set (orders b'' (\<not> d)). \<not> crosses (\<not> d) (r_price r) price)))"
    by (rule submit_valid [OF rep ids [unfolded ids_left_def] ok,
          where d = d and cid = cid and rid = rid and now = now and now_match = now_match and now_add = now_add]) blast
  have "b'' = b'" "evs' = evs" using r(1) s by simp_all
  with r show ?thesis unfolding wf_book_def by blast
qed

lemma submit_good:
  assumes g: "good_book b" and ids: "ids_left b" and vol: "volume_at (orders b d) price + unat q < 2 ^ 32"
    and s: "submit_order b price q d cid rid now now_match now_add = Some (b', evs)"
  shows "good_book b'"
proof (cases "q = 0 \<or> \<not> price_ok price")
  case True
  then show ?thesis using g s submit_invalid [OF True] by simp
next
  case False
  note gd = good_bookD [OF g]
  obtain L F where rep: "book_rep b L F" using gd by (auto simp: wf_book_def)
  have ok: "q \<noteq> 0" "price_ok price" using False by simp_all
  obtain fs q' where r: "wf_book b'" "best_right b'"
    "spec_submit (orders b) (ob_order_id b) cid price q d = (orders b', fs, q')"
    "0 < q' \<Longrightarrow> \<forall>r \<in> set (orders b' (\<not> d)). \<not> crosses (\<not> d) (r_price r) price"
    using submit_result [OF rep ids ok s] gd by blast
  note sg = spec_submit_good [OF r(3) _ orders_id_less [OF rep] _ vol]
  show ?thesis
    using gd sg r(1,2) spec_submit_apart [OF r(3) _ r(4)]
    by (intro good_bookI) (auto simp: within_range_def uncrossed_apart)
qed

lemma amend_queue_prices:
  "r \<in> set (amend_queue oid qn rs) \<Longrightarrow> r_price r \<in> r_price ` set rs"
  by (force simp: amend_queue_def)

lemma cancel_good:
  assumes g: "good_book b" and s: "cancel_order b cid rid oid now = (b', evs)"
  shows "good_book b'"
proof -
  note gd = good_bookD [OF g]
  obtain L F where rep: "book_rep b L F" using gd by (auto simp: wf_book_def)
  note c = cancel_refines [OF rep, where cid = cid and oid = oid and rid = rid and now = now]
  show ?thesis
  proof (cases "spec_cancel (orders b) cid oid")
    case (Inl e)
    then show ?thesis using c s g by simp
  next
    case (Inr os)
    then have os: "os = (\<lambda>d. filter (\<lambda>r. r_order_id r \<noteq> oid) (orders b d))"
      by (auto simp: spec_cancel_def split: option.splits if_splits)
    have "apart (orders b')" if "orders b' = os"
      by (rule apart_prices [of "orders b"]) (use gd uncrossed_apart in \<open>auto simp: that os\<close>)
    then show ?thesis
      using c s gd Inr by (intro good_bookI) (auto simp: uncrossed_apart os ranked_filter)
  qed
qed

lemma amend_good:
  assumes g: "good_book b" and adm: "admissible b (Amend cid rid oid qn now)"
    and s: "amend_order b cid rid oid qn now = (b', evs)"
  shows "good_book b'"
proof -
  note gd = good_bookD [OF g]
  obtain L F where rep: "book_rep b L F" using gd by (auto simp: wf_book_def)
  note a = amend_refines [OF rep, where cid = cid and oid = oid and rid = rid and now = now and qn = qn]
  show ?thesis
  proof (cases "spec_amend (orders b) cid oid qn")
    case (Inl e)
    then show ?thesis using a s g by simp
  next
    case (Inr os)
    then have os: "os = (\<lambda>d. amend_queue oid qn (orders b d))"
      by (auto simp: spec_amend_def split: option.splits if_splits)
    obtain b'' r old evs' where r: "amend_order b cid rid oid qn now = (b'', OnOrderAmended rid (r_quantity old) r now # evs')"
        "lookup (orders b) oid = Some old" "old \<in> set (orders b (o_is_bid r))" "wf_book b''" "orders b'' = os"
        "best_right b \<longrightarrow> within_range b \<longrightarrow> within_range b'' \<and>
          (best_right b'' \<longleftrightarrow> best_price_index (side_of b (o_is_bid r)) = price_to_index (r_price old) \<or>
             volume_at (os (o_is_bid r)) (r_price old) \<noteq> 0)"
      using a [unfolded Inr sum.case] by blast
    have b'': "b'' = b'" using r(1) s by simp
    have "apart (orders b')"
      by (rule apart_prices [of "orders b"]) (use gd uncrossed_apart r(5) amend_queue_prices in \<open>auto simp: b'' os\<close>)
    moreover have "r_order_id old = oid" using r(2) by (auto simp: lookup_def find_Some_iff)
    then have "best_price_index (side_of b (o_is_bid r)) = price_to_index (r_price old) \<or>
        volume_at (os (o_is_bid r)) (r_price old) \<noteq> 0"
      using adm r(3) by (simp add: os)
    then have "best_right b' \<and> within_range b'" using r(6) gd b'' by blast
    ultimately show ?thesis
      using r(4,5) gd unfolding b'' by (intro good_bookI) (auto simp: uncrossed_apart os ranked_amend)
  qed
qed

lemma good_book_init: "good_book (OrderBook_init mb ma)"
  using sound_book_init by (simp add: good_book_def ranked_def)

lemma handle_good:
  assumes "good_book b" and "ids_left b" and "admissible b req" and "handle b req = Some (b', evs)"
  shows "good_book b'"
proof (cases req)
  case (Submit price q d cid rid now now_match now_add)
  then show ?thesis using submit_good [OF assms(1,2)] assms(3,4) by simp
next
  case (Cancel cid rid oid now)
  then show ?thesis using cancel_good [OF assms(1)] assms(4) by simp
next
  case (Amend cid rid oid qn now)
  then show ?thesis using amend_good [OF assms(1)] assms(3,4) by simp
qed

lemma orderly_run_good:
  assumes "orderly_run b evs b'" and "good_book b"
  shows "good_book b'"
  using assms
proof (induction rule: orderly_run.induct)
  case (orderly_start b)
  then show ?case by simp
next
  case (orderly_step b evs b1 req b2 evs')
  then show ?case using handle_good by blast
qed

lemma orderly_run_run: "orderly_run b evs b' \<Longrightarrow> run b evs b'"
  by (induction rule: orderly_run.induct) (auto intro: run.intros)

section \<open>Quantities\<close>

definition total_volume :: "Resting list \<Rightarrow> nat" where
  "total_volume rs = (\<Sum>r\<leftarrow>rs. unat (r_remaining r))"

text \<open>The quantity the trade callbacks of an event list report.\<close>

fun traded_quantity :: "BookEvent \<Rightarrow> nat" where
  "traded_quantity (OnTrade m cid oid p tot cum t now) = unat t"
| "traded_quantity _ = 0"

definition quantity_traded :: "BookEvent list \<Rightarrow> nat" where
  "quantity_traded evs = (\<Sum>e\<leftarrow>evs. traded_quantity e)"

lemma quantity_traded_trades:
  "quantity_traded evs = (\<Sum>(m, cid, oid, p, tot, cum, t, now)\<leftarrow>trades_of evs. unat t)"
proof (induction evs)
  case Nil
  then show ?case by (simp add: quantity_traded_def)
next
  case (Cons e evs)
  then show ?case by (cases e) (simp_all add: quantity_traded_def)
qed

lemma quantity_spec_trades:
  "(\<Sum>(m, cid, oid, p, tot, cum, t, now)\<leftarrow>spec_trades cid oid tot now q fs. unat t) = (\<Sum>f\<leftarrow>fs. unat (snd f))"
  by (induction fs arbitrary: q) simp_all

lemma total_place [simp]: "total_volume (place d r rs) = unat (r_remaining r) + total_volume rs"
  by (rule place_split [of rs d r]) (simp add: total_volume_def)

text \<open>Every level total is the volume resting at its price, modulo the word size.\<close>

lemma sum_list_of_nat: "(\<Sum>x\<leftarrow>xs. f x) = (of_nat (\<Sum>x\<leftarrow>xs. unat (f x)) :: 'a::len word)"
  by (induction xs) simp_all

lemma level_total_volume:
  assumes "side_rep s L F" and "i < NUM_BOOK_LEVELS"
  shows "l_total_quantity (levels s i) = of_nat (volume_at (book_queue (prio d) s L) (MINIMUM_BID + int i))"
  using side_rep_level [OF assms] volume_at_queue [OF assms, of d]
  by (simp add: level_ok_def queue_def comp_def sum_list_of_nat)

lemma volume_at_outside:
  assumes rep: "book_rep b L F" and "\<not> price_ok p"
  shows "volume_at (orders b d) p = 0"
proof (rule volume_at_none)
  fix r assume "r \<in> set (orders b d)"
  then obtain i where "i < NUM_BOOK_LEVELS" "r \<in> set (queue (side_of b d) (L d i))"
    by (auto simp: orders_rep [OF rep] set_book_queue)
  then show "r_price r \<noteq> p" using queue_price [OF book_rep_side [OF rep]] price_ok_index assms(2) by auto
qed

lemma volumes_of_volume:
  assumes rep: "book_rep b L F"
  shows "volumes_of b sd p = of_nat (volume_at (orders b (sd = BUY)) p)"
proof (cases "price_ok p")
  case True
  then show ?thesis
    using level_total_volume [OF book_rep_side [OF rep, of "sd = BUY"] price_to_index_less [OF True], where d = "sd = BUY"]
    by (simp add: volumes_of_def totals_def orders_rep [OF rep] index_price)
next
  case False
  then show ?thesis by (simp add: volumes_of_def totals_def volume_at_outside [OF rep])
qed

end
