(* ===== verification/Book_Properties.thy ===== *)
theory Book_Properties
  imports Book_Run
begin

text \<open>
  The properties of the order book, each with a concrete instance where it has hypotheses.  The
  instances use a book that starts empty over blank memory, and the book after one ask was
  submitted to it.
\<close>

section \<open>A concrete book\<close>

definition blank :: Order where
  "blank = \<lparr>o_next = None, o_previous = None, o_client_id = 0, o_order_id = 0, o_order_handle = 0,
            o_price = 0, o_quantity = 0, o_quantity_remaining = 0, o_quantity_cumulative = 0,
            o_is_bid = False\<rparr>"

definition empty_book :: OrderBook where
  "empty_book = OrderBook_init (\<lambda>_. blank) (\<lambda>_. blank)"

text \<open>Client 7 offers 5 at price 100, as request 1.\<close>

definition one_ask :: OrderBook where
  "one_ask = fst (the (submit_order empty_book 100 5 False 7 1 0 0 0))"

lemma init_id: "ob_order_id (OrderBook_init mb ma) = 0"
  by (simp add: OrderBook_init_def)

lemma empty_book_good: "good_book empty_book" "wf_book empty_book" "ids_left empty_book"
  "orders empty_book = (\<lambda>_. [])" "ob_order_id empty_book = 0"
  using good_book_init good_bookD [OF good_book_init] by (simp_all add: empty_book_def ids_left_def init_id fun_eq_iff)

lemma submit_then:
  assumes g: "good_book b" and ids: "ids_left b" and ok: "q \<noteq> 0" "price_ok price"
    and vol: "volume_at (orders b d) price + unat q < 2 ^ 32"
    and sp: "spec_submit (orders b) (ob_order_id b) cid price q d = (os, fs, q')"
    and b': "b' = fst (the (submit_order b price q d cid rid now now_match now_add))"
  shows "\<exists>evs. submit_order b price q d cid rid now now_match now_add = Some (b', evs)"
    and "good_book b'" and "orders b' = os" and "ob_order_id b' = ob_order_id b + 1"
proof -
  obtain L F where rep: "book_rep b L F" using good_bookD [OF g] by (auto simp: wf_book_def)
  obtain evs where s: "submit_order b price q d cid rid now now_match now_add = Some (b', evs)"
    using handle_wf [OF _ ids, of "Submit price q d cid rid now now_match now_add"] good_bookD [OF g] b' by auto
  then show "\<exists>evs. submit_order b price q d cid rid now now_match now_add = Some (b', evs)" by blast
  show "good_book b'" by (rule submit_good [OF g ids vol s])
  show "orders b' = os" "ob_order_id b' = ob_order_id b + 1"
    using submit_result [OF rep ids ok s] good_bookD [OF g] sp by auto
qed

lemma one_ask_good: "\<exists>evs. submit_order empty_book 100 5 False 7 1 0 0 0 = Some (one_ask, evs)"
  "good_book one_ask" "orders one_ask = (\<lambda>d. if d then [] else [resting 0 7 100 5 5])" "ob_order_id one_ask = 1"
proof -
  have sp: "spec_submit (orders empty_book) (ob_order_id empty_book) 7 100 5 False =
      ((\<lambda>d. if d then [] else [resting 0 7 100 5 5]), [], 5)"
    by (auto simp: spec_submit_def empty_book_good(4,5) place_def fun_eq_iff)
  have ok: "(5 :: Volume_t) \<noteq> 0" "price_ok 100" "volume_at (orders empty_book False) 100 + unat (5 :: Volume_t) < 2 ^ 32"
    by (simp_all add: price_ok_def MINIMUM_BID_def MAXIMUM_ASK_def empty_book_good(4))
  note s = submit_then [OF empty_book_good(1,3) ok sp one_ask_def]
  show "\<exists>evs. submit_order empty_book 100 5 False 7 1 0 0 0 = Some (one_ask, evs)" "good_book one_ask"
    "orders one_ask = (\<lambda>d. if d then [] else [resting 0 7 100 5 5])" "ob_order_id one_ask = 1"
    using s by (simp_all add: empty_book_good(5))
qed

lemma one_ask_wf: "wf_book one_ask"
  using good_bookD [OF one_ask_good(2)] by blast

lemma one_ask_ids: "ids_left one_ask"
  by (simp add: ids_left_def one_ask_good(4))

text \<open>The same client then offers 4 at price 200, as request 2.\<close>

definition two_asks :: OrderBook where
  "two_asks = fst (the (submit_order one_ask 200 4 False 7 2 0 0 0))"

lemma two_asks_good: "good_book two_asks"
  "orders two_asks = (\<lambda>d. if d then [] else [resting 0 7 100 5 5, resting 1 7 200 4 4])"
proof -
  have sp: "spec_submit (orders one_ask) (ob_order_id one_ask) 7 200 4 False =
      ((\<lambda>d. if d then [] else [resting 0 7 100 5 5, resting 1 7 200 4 4]), [], 4)"
    by (auto simp: spec_submit_def one_ask_good(3,4) place_def fun_eq_iff MAX_ORDERS_def)
  have ok: "(4 :: Volume_t) \<noteq> 0" "price_ok 200" "volume_at (orders one_ask False) 200 + unat (4 :: Volume_t) < 2 ^ 32"
    by (simp_all add: price_ok_def MINIMUM_BID_def MAXIMUM_ASK_def one_ask_good(3))
  note s = submit_then [OF one_ask_good(2) one_ask_ids ok sp two_asks_def]
  show "good_book two_asks" "orders two_asks = (\<lambda>d. if d then [] else [resting 0 7 100 5 5, resting 1 7 200 4 4])"
    using s by simp_all
qed

section \<open>Every request returns and keeps the invariant\<close>

text \<open>
  C2: From every well-formed book, with an order id left, each of the three requests returns
  (the matching loop ends), and leaves a well-formed book: intrusive lists, free list, level
  totals, best index and both lookup tables agree.
\<close>

theorem requests_return_and_keep_invariant:
  assumes "wf_book b" and "ids_left b"
  shows "\<exists>b' evs. handle b req = Some (b', evs) \<and> wf_book b'"
  using handle_wf [OF assms, of req] by blast

theorem requests_return_and_keep_invariant_witness:
  "\<exists>b' evs. handle one_ask (Submit 100 8 True 9 2 0 0 0) = Some (b', evs) \<and> wf_book b'"
  using requests_return_and_keep_invariant [OF one_ask_wf one_ask_ids] .

text \<open>
  C1: A valid submission refines the list-level specification.  The incoming order trades with
  the orders of the other side in price-time priority, as far as its price crosses; the trade
  callbacks report exactly these fills, each with the maker's remaining quantity and the taker's
  running total; the rest is placed behind the orders of its price, if the pool has room.
\<close>

theorem submit_refines_price_time_priority:
  assumes "good_book b" and "ids_left b" and "q \<noteq> 0" and "price_ok price"
  shows "\<exists>b' evs fs q'. submit_order b price q d cid rid now now_match now_add = Some (b', evs) \<and>
    spec_submit (orders b) (ob_order_id b) cid price q d = (orders b', fs, q') \<and>
    trades_of evs = spec_trades cid (ob_order_id b) q now_match q fs"
proof -
  note gd = good_bookD [OF assms(1)]
  then obtain L F where rep: "book_rep b L F" by (auto simp: wf_book_def)
  obtain b' evs where s: "submit_order b price q d cid rid now now_match now_add = Some (b', evs)"
    using handle_wf [OF _ assms(2), of "Submit price q d cid rid now now_match now_add"] gd by auto
  from submit_result [OF rep assms(2-4) s] gd s show ?thesis by blast
qed

theorem submit_refines_price_time_priority_witness:
  "\<exists>b' evs. submit_order one_ask 100 8 True 9 2 0 0 0 = Some (b', evs) \<and>
     orders b' = (\<lambda>d. if d then [resting 1 9 100 8 3] else []) \<and>
     trades_of evs = [(fill (resting 0 7 100 5 5) 5, 9, 1, 100, 8, 5, 5, 0)]"
proof -
  have ok: "(8 :: Volume_t) \<noteq> 0" "price_ok 100" by (simp_all add: price_ok_def MINIMUM_BID_def MAXIMUM_ASK_def)
  have "spec_submit (orders one_ask) (ob_order_id one_ask) 9 100 8 True =
      ((\<lambda>d. if d then [resting 1 9 100 8 3] else []), [(fill (resting 0 7 100 5 5) 5, 5)], 3)"
    by (auto simp: spec_submit_def one_ask_good(3,4) place_def fun_eq_iff crosses_def)
  with submit_refines_price_time_priority [OF one_ask_good(2) one_ask_ids ok,
      where d = True and cid = 9 and rid = 2 and now = 0 and now_match = 0 and now_add = 0]
  show ?thesis by (auto simp: one_ask_good(4) fill_def)
qed

text \<open>
  C3: In every state an orderly run reaches, both sides are in price-time priority (best price
  first, older order first at one price), the best index names the best order's level, no bid
  meets an ask, and every level total is in range.
\<close>

theorem orderly_runs_keep_the_book_good:
  assumes "orderly_run (OrderBook_init mb ma) evs b"
  shows "ranked d (orders b d) \<and> best_price_index (side_of b d) = best_index (orders b d) \<and>
    uncrossed b \<and> volume_at (orders b d) price < 2 ^ 32"
  using good_bookD [OF orderly_run_good [OF assms good_book_init]]
  by (auto simp: best_right_def within_range_def)

lemma one_ask_run: "\<exists>evs. orderly_run empty_book evs one_ask"
proof -
  obtain evs where "submit_order empty_book 100 5 False 7 1 0 0 0 = Some (one_ask, evs)" using one_ask_good(1) by blast
  then have "orderly_run empty_book ([] @ evs) one_ask"
    by (intro orderly_step [where req = "Submit 100 5 False 7 1 0 0 0", OF orderly_start empty_book_good(3)])
      (simp_all add: empty_book_good(4))
  then show ?thesis by blast
qed

theorem orderly_runs_keep_the_book_good_witness:
  "\<exists>evs. orderly_run empty_book evs one_ask \<and> orders one_ask False = [resting 0 7 100 5 5] \<and>
     best_price_index (side_of one_ask False) = 99"
proof -
  obtain evs where r: "orderly_run empty_book evs one_ask" using one_ask_run by blast
  have "price_to_index 100 = 99" by (simp add: price_to_index_def MINIMUM_BID_def)
  then show ?thesis
    using r orderly_runs_keep_the_book_good [OF r [unfolded empty_book_def], of False]
    by (auto simp: one_ask_good(3) best_index_def)
qed

text \<open>
  C4: The feed is complete: in every run, orderly or not, the level updates sent so far give,
  at every price of both sides, the total the book holds there, which is the volume resting at
  that price modulo the word size of \<open>Volume_t\<close>.
\<close>

theorem feed_mirrors_the_book:
  assumes "run (OrderBook_init mb ma) evs b"
  shows "feed evs (\<lambda>_ _. 0) sd price = volumes_of b sd price \<and>
    volumes_of b sd price = of_nat (volume_at (orders b (sd = BUY)) price)"
proof -
  have "wf_book (OrderBook_init mb ma)" using good_bookD [OF good_book_init] by blast
  note r = run_wf [OF assms this]
  then have "feed evs (\<lambda>_ _. 0) sd price = volumes_of b sd price" by (simp add: volumes_init)
  moreover have "volumes_of b sd price = of_nat (volume_at (orders b (sd = BUY)) price)"
    using r volumes_of_volume by (auto simp: wf_book_def)
  ultimately show ?thesis ..
qed

theorem feed_mirrors_the_book_witness:
  "\<exists>evs. run empty_book evs one_ask \<and> feed evs (\<lambda>_ _. 0) SELL 100 = 5"
proof -
  obtain evs where r: "run empty_book evs one_ask" using one_ask_run orderly_run_run by blast
  have "of_nat (volume_at (orders one_ask False) 100) = (5 :: Volume_t)" by (simp add: one_ask_good(3))
  then show ?thesis
    using r feed_mirrors_the_book [OF r [unfolded empty_book_def], where sd = SELL and price = 100] by auto
qed

text \<open>
  C5: A submission creates and destroys no volume: what the trade callbacks report is what the
  other side loses, and together with what is left it is the submitted quantity; what is left
  joins the order's own side exactly if the pool has a slot.
\<close>

theorem submit_conserves_volume:
  assumes "good_book b" and "ids_left b" and "q \<noteq> 0" and "price_ok price"
  shows "\<exists>b' evs left. submit_order b price q d cid rid now now_match now_add = Some (b', evs) \<and>
    quantity_traded evs + left = unat q \<and>
    total_volume (orders b (\<not> d)) = total_volume (orders b' (\<not> d)) + quantity_traded evs \<and>
    total_volume (orders b' d) =
      total_volume (orders b d) + (if length (orders b d) < MAX_ORDERS then left else 0)"
proof -
  note gd = good_bookD [OF assms(1)]
  then obtain L F where rep: "book_rep b L F" by (auto simp: wf_book_def)
  obtain b' evs where s: "submit_order b price q d cid rid now now_match now_add = Some (b', evs)"
    using handle_wf [OF _ assms(2), of "Submit price q d cid rid now now_match now_add"] gd by auto
  from submit_result [OF rep assms(2-4) s] gd obtain fs q' where
    sp: "spec_submit (orders b) (ob_order_id b) cid price q d = (orders b', fs, q')"
    and tr: "trades_of evs = spec_trades cid (ob_order_id b) q now_match q fs" by blast
  obtain rest where m: "spec_match (\<lambda>p. crosses (\<not> d) p price) q (orders b (\<not> d)) = (fs, rest, q')"
    and os': "orders b' = (if 0 < q' \<and> length (orders b d) < MAX_ORDERS
        then (orders b)(\<not> d := rest, d := place d (resting (ob_order_id b) cid price q q') (orders b d))
        else (orders b)(\<not> d := rest))"
    using sp by (auto simp: spec_submit_def split: prod.splits)
  have qt: "quantity_traded evs = (\<Sum>f\<leftarrow>fs. unat (snd f))"
    by (simp add: quantity_traded_trades tr quantity_spec_trades)
  show ?thesis
    using spec_match_conserve [OF m] s
    by (intro exI [of _ b'] exI [of _ evs] exI [of _ "unat q'"]) (auto simp: qt os' total_volume_def [of rest] total_volume_def [of "orders b (\<not> d)"] word_gt_0)
qed

theorem submit_conserves_volume_witness:
  "\<exists>b' evs left. submit_order one_ask 100 8 True 9 2 0 0 0 = Some (b', evs) \<and>
    quantity_traded evs + left = 8 \<and> 5 = total_volume (orders b' False) + quantity_traded evs \<and>
    total_volume (orders b' True) = left"
proof -
  have ok: "(8 :: Volume_t) \<noteq> 0" "price_ok 100" by (simp_all add: price_ok_def MINIMUM_BID_def MAXIMUM_ASK_def)
  from submit_conserves_volume [OF one_ask_good(2) one_ask_ids ok, where d = True and cid = 9 and rid = 2 and
      now = 0 and now_match = 0 and now_add = 0]
  show ?thesis by (simp add: one_ask_good(3) total_volume_def [of "[]"] total_volume_def [of "[_]"])
qed

section \<open>Cancelling and amending\<close>

text \<open>
  C6: Cancelling refines its specification on every branch: the two error answers leave the book
  as it is, and the owner's request removes exactly the named order from the queues, reports it
  as it was, and keeps the book well formed.
\<close>

theorem cancel_refines_spec:
  assumes "wf_book b"
  shows "case spec_cancel (orders b) cid oid of
     Inl e \<Rightarrow> cancel_order b cid rid oid now = (b, [OnError cid rid (error_code e) (error_text e) now])
   | Inr os \<Rightarrow> \<exists>b' r lv. cancel_order b cid rid oid now =
         (b', [OnLevelUpdate (side_tag (o_is_bid r)) lv now, OnOrderCancelled rid r now]) \<and>
       lookup (orders b) oid = Some (view r) \<and> orders b' = os \<and> wf_book b'"
proof -
  obtain L F where rep: "book_rep b L F" using assms by (auto simp: wf_book_def)
  show ?thesis
    using cancel_refines [OF rep, where cid = cid and oid = oid and rid = rid and now = now]
    by (auto split: sum.splits)
qed

theorem cancel_refines_spec_witness:
  "cancel_order one_ask 8 3 0 0 = (one_ask, [OnError 8 3 4 ''Unauthorised request.'' 0]) \<and>
   (\<exists>b' r lv. cancel_order one_ask 7 3 0 0 =
       (b', [OnLevelUpdate (side_tag (o_is_bid r)) lv 0, OnOrderCancelled 3 r 0]) \<and>
     view r = resting 0 7 100 5 5 \<and> orders b' = (\<lambda>_. []))"
  using cancel_refines_spec [OF one_ask_wf, where cid = 8 and oid = 0 and rid = 3 and now = 0]
    cancel_refines_spec [OF one_ask_wf, where cid = 7 and oid = 0 and rid = 3 and now = 0]
  by (auto simp: spec_cancel_def lookup_def one_ask_good(3) if_distrib cong: if_cong)

text \<open>
  C7: Amending refines its specification on every branch: unknown order, foreign order, a new
  quantity below what is already traded or above the present one are answered with their error
  and change nothing; otherwise the order keeps its place in the queue with the new quantity, or
  leaves it when nothing is left.
\<close>

theorem amend_refines_spec:
  assumes "wf_book b"
  shows "case spec_amend (orders b) cid oid qn of
     Inl e \<Rightarrow> amend_order b cid rid oid qn now = (b, [OnError cid rid (error_code e) (error_text e) now])
   | Inr os \<Rightarrow> \<exists>b' r old evs. amend_order b cid rid oid qn now =
         (b', OnOrderAmended rid (r_quantity old) r now # evs) \<and>
       lookup (orders b) oid = Some old \<and>
       view r = old\<lparr>r_quantity := qn, r_remaining := qn - r_cumulative old\<rparr> \<and>
       orders b' = os \<and> wf_book b'"
proof -
  obtain L F where rep: "book_rep b L F" using assms by (auto simp: wf_book_def)
  show ?thesis
    using amend_refines [OF rep, where cid = cid and oid = oid and rid = rid and now = now and qn = qn]
    by (auto split: sum.splits)
qed

theorem amend_refines_spec_witness:
  "amend_order one_ask 7 3 0 6 0 = (one_ask, [OnError 7 3 2 ''Invalid order size.'' 0]) \<and>
   (\<exists>b' r evs. amend_order one_ask 7 3 0 2 0 = (b', OnOrderAmended 3 5 r 0 # evs) \<and>
     view r = resting 0 7 100 2 2 \<and> orders b' = (\<lambda>d. if d then [] else [resting 0 7 100 2 2]))"
proof -
  have e: "(resting 0 7 100 5 5)\<lparr>r_quantity := 2, r_remaining := 2\<rparr> = resting 0 7 100 2 2" by (simp add: resting_def)
  show ?thesis
    using amend_refines_spec [OF one_ask_wf, where cid = 7 and oid = 0 and rid = 3 and now = 0 and qn = 6]
      amend_refines_spec [OF one_ask_wf, where cid = 7 and oid = 0 and rid = 3 and now = 0 and qn = 2]
    by (auto simp: spec_amend_def lookup_def one_ask_good(3) amend_queue_def e if_distrib cong: if_cong)
qed

lemma volume_at_remove:
  "r \<in> set rs \<Longrightarrow> r_price r = p \<Longrightarrow> \<not> P r \<Longrightarrow>
   volume_at (filter P rs) p + unat (r_remaining r) \<le> volume_at rs p"
proof (induction rs)
  case Nil
  then show ?case by simp
next
  case (Cons s rs)
  show ?case
  proof (cases "s = r")
    case True
    then show ?thesis using Cons.prems volume_at_filter [of P rs p] by simp
  next
    case False
    then show ?thesis using Cons by auto
  qed
qed

lemma orders_price_ok:
  assumes rep: "book_rep b L F" and "r \<in> set (orders b d)"
  shows "price_ok (r_price r)"
proof -
  obtain i where "i < NUM_BOOK_LEVELS" "r \<in> set (queue (side_of b d) (L d i))"
    using assms(2) by (auto simp: orders_rep [OF rep] set_book_queue)
  then show ?thesis using queue_price [OF book_rep_side [OF rep]] price_ok_index by simp
qed

text \<open>
  C11: When an amendment leaves nothing of the last order of a level that is not the best one,
  the code advances the best index all the same (\<open>cancel_order\<close> guards against this), so that
  it no longer names the best order's level: the orders of the best level are passed over.
\<close>

theorem amend_emptying_other_level_loses_best:
  assumes "good_book b" and "r \<in> set (orders b d)" and "r_cumulative r = qn"
    and "volume_at (orders b d) (r_price r) = unat (r_remaining r)" and "r_price r \<noteq> r_price (hd (orders b d))"
  shows "\<exists>b' evs. amend_order b (r_client_id r) rid (r_order_id r) qn now = (b', evs) \<and> wf_book b' \<and>
     orders b' d \<noteq> [] \<and> best_price_index (side_of b' d) \<noteq> best_index (orders b' d)"
proof -
  note gd = good_bookD [OF assms(1)]
  then obtain L F where rep: "book_rep b L F" by (auto simp: wf_book_def)
  obtain i x where x: "x \<in> set (L d i)" "r = view (side_store (side_of b d) x)"
    using in_orders_live [OF rep assms(2)] by blast
  let ?oid = "r_order_id r"
  have f: "find_order b ?oid = Some (OPtr d x)"
    using find_order_rep [OF rep] live_book_ids [OF rep x(1)] x(2) by simp
  have dr: "view (deref b (OPtr d x)) = r" by (simp add: deref_def x(2))
  have lk: "lookup (orders b) ?oid = Some r" using lookup_Some [OF rep f] dr by simp
  have "unat (r_quantity r) = unat (r_remaining r) + unat qn"
    using live_quantities(1) [OF rep f] assms(3) by (simp add: deref_def x(2))
  then have sp: "spec_amend (orders b) (r_client_id r) ?oid qn = Inr (\<lambda>e. amend_queue ?oid qn (orders b e))"
    using assms(3) by (simp add: spec_amend_def lk word_less_nat_alt)
  obtain b' r' old evs where a:
    "amend_order b (r_client_id r) rid ?oid qn now = (b', OnOrderAmended rid (r_quantity old) r' now # evs)"
    "lookup (orders b) ?oid = Some old" "old \<in> set (orders b (o_is_bid r'))" "wf_book b'"
    "orders b' = (\<lambda>e. amend_queue ?oid qn (orders b e))"
    "side_of b' (\<not> o_is_bid r') = side_of b (\<not> o_is_bid r')"
    "best_right b \<longrightarrow> within_range b \<longrightarrow> within_range b' \<and>
       (best_right b' \<longleftrightarrow> best_price_index (side_of b (o_is_bid r')) = price_to_index (r_price old) \<or>
         volume_at (amend_queue ?oid qn (orders b (o_is_bid r'))) (r_price old) \<noteq> 0)"
    using amend_refines [OF rep, where cid = "r_client_id r" and oid = ?oid and rid = rid and now = now and qn = qn]
    unfolding sp sum.case by blast
  have old: "old = r" using a(2) lk by simp
  have d: "o_is_bid r' = d" using live_view_unique [OF rep x(1) a(3)] x(2) old by simp
  have cum: "o_quantity_cumulative (side_store (side_of b d) x) = qn" using assms(3) x(2) by simp
  have od: "orders b' d = filter (\<lambda>r'. r_order_id r' \<noteq> ?oid) (orders b d)"
    using amend_queue_zero [OF rep x(1) _ cum] x(2) a(5) by simp
  have v0: "volume_at (orders b' d) (r_price r) = 0"
    using volume_at_remove [OF assms(2) refl, of "\<lambda>r'. r_order_id r' \<noteq> ?oid"] assms(4) od by simp
  have ne: "orders b d \<noteq> []" using assms(2) by auto
  have "price_ok (r_price r')" if "r' \<in> set (orders b d)" for r' by (rule orders_price_ok [OF rep that])
  then have "price_to_index (r_price (hd (orders b d))) \<noteq> price_to_index (r_price r)"
    using assms(2,5) ne index_price by (metis hd_in_set)
  then have "\<not> best_right b'"
    using a(7) gd v0 ne old d a(5) by (simp add: best_right_def best_index_def split: list.splits)
  moreover have "best_price_index (side_of b' (\<not> d)) = best_index (orders b' (\<not> d))"
    using gd a(6) d by (simp add: best_right_def orders_def)
  ultimately have "best_price_index (side_of b' d) \<noteq> best_index (orders b' d)"
    unfolding best_right_def by (cases d) (simp_all add: all_bool_eq)
  moreover have "hd (orders b d) \<in> set (orders b' d)"
    using live_view_unique [OF rep x(1) hd_in_set [OF ne]] x(2) ne assms(5) by (auto simp: od)
  ultimately show ?thesis using a(1,4) by force
qed

theorem amend_emptying_other_level_loses_best_witness:
  "\<exists>b' evs. amend_order two_asks 7 3 1 0 0 = (b', evs) \<and> wf_book b' \<and>
     orders b' False \<noteq> [] \<and> best_price_index (side_of b' False) \<noteq> best_index (orders b' False)"
  using amend_emptying_other_level_loses_best [OF two_asks_good(1), of "resting 1 7 200 4 4" False 0 3 0]
  by (simp add: two_asks_good(2))

section \<open>The lookup tables\<close>

text \<open>
  The lookup tables are exact: a request finds an order id exactly if an order with that id
  rests in the book, and what it finds is that order; no two resting orders share an id.
\<close>

theorem find_order_finds_exactly_the_resting_orders:
  assumes "wf_book b"
  shows "(\<exists>p. find_order b oid = Some p \<and> view (deref b p) = r \<and> in_bids p = d)
     \<longleftrightarrow> r \<in> set (orders b d) \<and> r_order_id r = oid"
proof -
  obtain L F where rep: "book_rep b L F" using assms by (auto simp: wf_book_def)
  show ?thesis
  proof
    assume "\<exists>p. find_order b oid = Some p \<and> view (deref b p) = r \<and> in_bids p = d"
    then obtain p where p: "find_order b oid = Some p" "view (deref b p) = r" "in_bids p = d" by blast
    then show "r \<in> set (orders b d) \<and> r_order_id r = oid"
      using live_view_in_orders [OF rep find_live(1) [OF rep p(1)]] find_live(5) [OF rep p(1)]
      by (auto simp: deref_def)
  next
    assume r: "r \<in> set (orders b d) \<and> r_order_id r = oid"
    then obtain i x where x: "x \<in> set (L d i)" "r = view (side_store (side_of b d) x)"
      using in_orders_live [OF rep] by blast
    then have "find_order b oid = Some (OPtr d x)"
      using find_order_rep [OF rep] live_book_ids [OF rep x(1)] r by simp
    then show "\<exists>p. find_order b oid = Some p \<and> view (deref b p) = r \<and> in_bids p = d"
      using x by (auto simp: deref_def)
  qed
qed

theorem find_order_finds_exactly_the_resting_orders_witness:
  "\<exists>p. find_order two_asks 1 = Some p \<and> view (deref two_asks p) = resting 1 7 200 4 4 \<and> in_bids p = False"
  using find_order_finds_exactly_the_resting_orders [of two_asks 1 "resting 1 7 200 4 4" False]
    good_bookD [OF two_asks_good(1)] by (simp add: two_asks_good(2))

text \<open>
  Submitting an order that does not cross and then cancelling it, by the id it was given,
  restores both queues exactly.
\<close>

theorem cancel_undoes_a_resting_submission:
  assumes "good_book b" and "ids_left b" and "q \<noteq> 0" and "price_ok price"
    and "length (orders b d) < MAX_ORDERS" and "\<forall>r \<in> set (orders b (\<not> d)). \<not> crosses (\<not> d) (r_price r) price"
  shows "\<exists>b1 evs1 b2 evs2. submit_order b price q d cid rid now now_match now_add = Some (b1, evs1) \<and>
     trades_of evs1 = [] \<and> orders b1 d = place d (resting (ob_order_id b) cid price q q) (orders b d) \<and>
     cancel_order b1 cid rid' (ob_order_id b) now' = (b2, evs2) \<and> orders b2 = orders b"
proof -
  note gd = good_bookD [OF assms(1)]
  then obtain L F where rep: "book_rep b L F" by (auto simp: wf_book_def)
  let ?new = "resting (ob_order_id b) cid price q q"
  have "spec_match (\<lambda>p. crosses (\<not> d) p price) q (orders b (\<not> d)) = ([], orders b (\<not> d), q)"
    using assms(6) by (cases "orders b (\<not> d)") auto
  then have sp: "spec_submit (orders b) (ob_order_id b) cid price q d = ((orders b)(d := place d ?new (orders b d)), [], q)"
    using assms(3,5) by (simp add: spec_submit_def word_gt_0)
  obtain b1 evs1 where s: "submit_order b price q d cid rid now now_match now_add = Some (b1, evs1)"
    using handle_wf [OF _ assms(2), of "Submit price q d cid rid now now_match now_add"] gd by auto
  have r: "wf_book b1" "orders b1 = (orders b)(d := place d ?new (orders b d))" "trades_of evs1 = []"
    using submit_result [OF rep assms(2-4) s] gd sp by auto
  then obtain L1 F1 where rep1: "book_rep b1 L1 F1" by (auto simp: wf_book_def)
  have old: "r_order_id r \<noteq> ob_order_id b" if "r \<in> set (orders b e)" for r e
    using orders_id_less [OF rep that] by auto
  have lk: "lookup (orders b1) (ob_order_id b) = Some ?new"
    unfolding lookup_def
  proof (rule find_unique)
    show "?new \<in> set (orders b1 True @ orders b1 False)" by (cases d) (simp_all add: r(2))
    fix r' assume "r' \<in> set (orders b1 True @ orders b1 False)" "r_order_id r' = ob_order_id b"
    then show "r' = ?new" using old by (cases d) (auto simp: r(2))
  qed simp
  have "filter (\<lambda>r. r_order_id r \<noteq> ob_order_id b) (orders b e) = orders b e" for e
    using old by (simp add: filter_id_conv)
  moreover have "filter (\<lambda>r. r_order_id r \<noteq> ob_order_id b) (place d ?new (orders b d)) = orders b d"
    by (rule place_split [of "orders b d" d ?new]) (use old [of _ d] in \<open>simp add: filter_id_conv\<close>)
  ultimately have "spec_cancel (orders b1) cid (ob_order_id b) = Inr (orders b)"
    unfolding spec_cancel_def lk option.case by (simp add: r(2) fun_eq_iff)
  then show ?thesis
    using cancel_refines [OF rep1, where cid = cid and oid = "ob_order_id b" and rid = rid' and now = now'] s r by auto
qed

theorem cancel_undoes_a_resting_submission_witness:
  "\<exists>b1 evs1 b2 evs2. submit_order one_ask 99 8 True 9 2 0 0 0 = Some (b1, evs1) \<and>
     trades_of evs1 = [] \<and> orders b1 True = [resting 1 9 99 8 8] \<and>
     cancel_order b1 9 3 1 0 = (b2, evs2) \<and> orders b2 = orders one_ask"
proof -
  have ok: "(8 :: Volume_t) \<noteq> 0" "price_ok 99" "length (orders one_ask True) < MAX_ORDERS"
    "\<forall>r \<in> set (orders one_ask (\<not> True)). \<not> crosses (\<not> True) (r_price r) 99"
    by (simp_all add: price_ok_def MINIMUM_BID_def MAXIMUM_ASK_def one_ask_good(3) crosses_def)
  from cancel_undoes_a_resting_submission [OF one_ask_good(2) one_ask_ids ok, where cid = 9 and rid = 2 and
      now = 0 and now_match = 0 and now_add = 0 and rid' = 3 and now' = 0]
  show ?thesis by (simp add: one_ask_good(3,4) place_def)
qed

end
