(* ===== verification/Book_Snapshot.thy ===== *)
theory Book_Snapshot
  imports Book_Properties
begin

text \<open>
  The depth snapshot: the two scans of \<open>build_snapshot\<close> list the best ten price levels of each
  side, best first, with the volume resting there, and zeros behind them.
\<close>

section \<open>The scans as list functions\<close>

definition level_pair :: "PriceLevel \<Rightarrow> Price_t \<times> Volume_t" where
  "level_pair lv = (l_price lv, l_total_quantity lv)"

abbreviation with_volume :: "(nat \<Rightarrow> PriceLevel) \<Rightarrow> nat \<Rightarrow> bool" where
  "with_volume lv \<equiv> \<lambda>i. 0 < l_total_quantity (lv i)"

lemma snapshot_up_eq:
  "snapshot_up lv idx n =
     take n (map (\<lambda>i. level_pair (lv i)) (filter (with_volume lv) [idx..<NUM_BOOK_LEVELS]))"
proof (induction lv idx n rule: snapshot_up.induct)
  case (1 lv idx n)
  show ?case
  proof (cases "idx < NUM_BOOK_LEVELS \<and> 0 < n")
    case True
    then have up: "[idx..<NUM_BOOK_LEVELS] = idx # [idx + 1..<NUM_BOOK_LEVELS]" by (simp add: upt_conv_Cons)
    obtain m where n: "n = Suc m" using True by (cases n) auto
    show ?thesis
      using 1 [OF True refl] True
      by (subst snapshot_up.simps) (auto simp: up n Let_def level_pair_def simp del: upt_Suc)
  next
    case False
    then show ?thesis by (subst snapshot_up.simps) auto
  qed
qed

lemma snapshot_down_eq:
  "idx < NUM_BOOK_LEVELS \<Longrightarrow> snapshot_down lv idx n =
     take n (map (\<lambda>i. level_pair (lv i)) (filter (with_volume lv) (rev [0..<Suc idx])))"
proof (induction idx arbitrary: n)
  case 0
  then show ?case
    by (subst snapshot_down.simps) (cases n, auto simp: Let_def level_pair_def)
next
  case (Suc idx)
  have rv: "rev [0..<Suc (Suc idx)] = Suc idx # rev [0..<Suc idx]" by simp
  show ?case
  proof (cases n)
    case 0
    then show ?thesis by (subst snapshot_down.simps) simp
  next
    case (Suc m)
    show ?thesis
      unfolding rv using Suc.IH [of m] Suc.IH [of n] Suc.prems
      by (subst snapshot_down.simps) (simp add: Let_def level_pair_def Suc del: upt_Suc)
  qed
qed

text \<open>From a right best index on, the scan sees every level with volume.\<close>

definition scan :: "bool \<Rightarrow> OrderBookSide \<Rightarrow> nat \<Rightarrow> (Price_t \<times> Volume_t) list" where
  "scan d s n = (if d then snapshot_down (levels s) (best_price_index s) n
                 else snapshot_up (levels s) (best_price_index s) n)"

lemma scan_eq:
  assumes rep: "side_rep s L F" and bo: "best_ok (better d) s L" and fit: "fits s L"
  shows "scan d s n = take n (map (\<lambda>i. level_pair (levels s i)) (filter (\<lambda>i. L i \<noteq> []) (prio d)))"
proof -
  let ?k = "best_price_index s" and ?f = "\<lambda>i. level_pair (levels s i)"
  have fl: "filter (with_volume (levels s)) xs = filter (\<lambda>i. L i \<noteq> []) xs" if "\<And>i. i \<in> set xs \<Longrightarrow> i < NUM_BOOK_LEVELS" for xs
    using level_total_pos [OF rep fit] that by (auto intro: filter_cong)
  consider "?k = NUM_BOOK_LEVELS" | "?k < NUM_BOOK_LEVELS" using side_rep_best [OF rep] by blast
  then show ?thesis
  proof cases
    case 1
    then have "L i = []" if "i < NUM_BOOK_LEVELS" for i using bo that by (auto simp: best_ok_def)
    then have "filter (\<lambda>i. L i \<noteq> []) (prio d) = []" using dir.prio_set [of d] by (auto simp: filter_empty_conv)
    moreover have "snapshot_down (levels s) ?k n = []" by (subst snapshot_down.simps) (simp add: 1)
    moreover have "snapshot_up (levels s) ?k n = []" by (subst snapshot_up.simps) (simp add: 1)
    ultimately show ?thesis by (simp add: scan_def)
  next
    case 2
    have none: "L i = []" if "i < NUM_BOOK_LEVELS" "better d i ?k" for i using bo that by (auto simp: best_ok_def)
    show ?thesis
    proof (cases d)
      case True
      have "[0..<NUM_BOOK_LEVELS] = [0..<Suc ?k] @ [Suc ?k..<NUM_BOOK_LEVELS]"
        using 2 by (metis Suc_leI less_eq_nat.simps(1) upt_add_eq_append le_add_diff_inverse)
      moreover have "filter (\<lambda>i. L i \<noteq> []) (rev [Suc ?k..<NUM_BOOK_LEVELS]) = []"
        using none True by (auto simp: filter_empty_conv better_def)
      ultimately have "filter (\<lambda>i. L i \<noteq> []) (prio d) = filter (\<lambda>i. L i \<noteq> []) (rev [0..<Suc ?k])"
        using True by (simp add: prio_def del: upt_Suc)
      moreover have "filter (with_volume (levels s)) (rev [0..<Suc ?k]) = filter (\<lambda>i. L i \<noteq> []) (rev [0..<Suc ?k])"
        by (rule fl) (use 2 in auto)
      ultimately show ?thesis using True 2 by (simp add: scan_def snapshot_down_eq del: upt_Suc)
    next
      case False
      have "[0..<NUM_BOOK_LEVELS] = [0..<?k] @ [?k..<NUM_BOOK_LEVELS]"
        using 2 by (metis less_imp_le less_eq_nat.simps(1) upt_add_eq_append le_add_diff_inverse)
      moreover have "filter (\<lambda>i. L i \<noteq> []) [0..<?k] = []"
        using none False 2 by (auto simp: filter_empty_conv better_def)
      ultimately have "filter (\<lambda>i. L i \<noteq> []) (prio d) = filter (\<lambda>i. L i \<noteq> []) [?k..<NUM_BOOK_LEVELS]"
        using False by (simp add: prio_def)
      moreover have "filter (with_volume (levels s)) [?k..<NUM_BOOK_LEVELS] = filter (\<lambda>i. L i \<noteq> []) [?k..<NUM_BOOK_LEVELS]"
        by (rule fl) auto
      ultimately show ?thesis using False by (simp add: scan_def snapshot_up_eq)
    qed
  qed
qed

section \<open>The specification of a snapshot\<close>

text \<open>The prices of a queue, best first, each with the volume resting there.\<close>

definition depth :: "Resting list \<Rightarrow> (Price_t \<times> Volume_t) list" where
  "depth rs = map (\<lambda>p. (p, of_nat (volume_at rs p))) (remdups_adj (map r_price rs))"

lemma remdups_adj_blocks:
  assumes "distinct js" and "inj_on h (set js)" and "\<And>j x. j \<in> set js \<Longrightarrow> x \<in> set (g j) \<Longrightarrow> x = h j"
  shows "remdups_adj (concat (map g js)) = map h (filter (\<lambda>j. g j \<noteq> []) js)"
  using assms
proof (induction js)
  case Nil
  then show ?case by simp
next
  case (Cons j js)
  let ?rest = "concat (map g js)"
  have IH: "remdups_adj ?rest = map h (filter (\<lambda>j. g j \<noteq> []) js)" using Cons by simp
  show ?case
  proof (cases "g j = []")
    case True
    then show ?thesis using IH by simp
  next
    case False
    have gj: "g j = replicate (length (g j)) (h j)" using Cons.prems(3) [of j] by (intro replicate_eqI) auto
    have one: "remdups_adj (g j) = [h j]" using False by (subst gj) (simp add: remdups_adj_replicate)
    have ls: "last (g j) = h j" using Cons.prems(3) [of j] False by simp
    have "hd ?rest \<noteq> h j" if "?rest \<noteq> []"
    proof -
      have "hd ?rest \<in> set ?rest" using that by (rule hd_in_set)
      then obtain j' where j': "j' \<in> set js" "hd ?rest \<in> set (g j')" by auto
      then have "hd ?rest = h j'" using Cons.prems(3) by simp
      moreover have "j' \<noteq> j" using j' Cons.prems(1) by auto
      ultimately show ?thesis using Cons.prems(2) j' by (auto simp: inj_on_def)
    qed
    then have "remdups_adj (g j @ ?rest) = remdups_adj (g j) @ remdups_adj ?rest"
      using remdups_adj_append' [of "g j" ?rest] ls by metis
    then show ?thesis using False one IH by simp
  qed
qed

lemma depth_levels:
  assumes rep: "side_rep s L F"
  shows "depth (book_queue (prio d) s L) = map (\<lambda>i. level_pair (levels s i)) (filter (\<lambda>i. L i \<noteq> []) (prio d))"
proof -
  have pd: "distinct (prio d)" by (simp add: prio_def)
  have "map r_price (book_queue (prio d) s L) = concat (map (\<lambda>i. map r_price (queue s (L i))) (prio d))"
    by (simp add: book_queue_def map_concat comp_def)
  also have "remdups_adj \<dots> = map (\<lambda>i. MINIMUM_BID + int i) (filter (\<lambda>i. map r_price (queue s (L i)) \<noteq> []) (prio d))"
    by (rule remdups_adj_blocks [OF pd]) (auto simp: inj_on_def queue_price [OF rep])
  finally have "depth (book_queue (prio d) s L) =
      map (\<lambda>i. (MINIMUM_BID + int i, of_nat (volume_at (book_queue (prio d) s L) (MINIMUM_BID + int i))))
        (filter (\<lambda>i. L i \<noteq> []) (prio d))"
    by (simp add: depth_def comp_def)
  also have "\<dots> = map (\<lambda>i. level_pair (levels s i)) (filter (\<lambda>i. L i \<noteq> []) (prio d))"
  proof (rule map_cong [OF refl])
    fix i assume "i \<in> set (filter (\<lambda>i. L i \<noteq> []) (prio d))"
    then have i: "i < NUM_BOOK_LEVELS" using dir.prio_set [of d] by auto
    show "(MINIMUM_BID + int i, of_nat (volume_at (book_queue (prio d) s L) (MINIMUM_BID + int i))) = level_pair (levels s i)"
      using level_total_volume [OF rep i, of d] side_rep_level [OF rep i] by (simp add: level_pair_def level_ok_def)
  qed
  finally show ?thesis .
qed

lemma build_snapshot_depth:
  assumes "good_book b"
  shows "build_snapshot b =
    (let bs = pad_levels (take ORDER_BOOK_MESSAGE_DEPTH (depth (orders b True)));
         as = pad_levels (take ORDER_BOOK_MESSAGE_DEPTH (depth (orders b False)))
     in \<lparr>bid_volumes = map snd bs, bid_prices = map fst bs, ask_volumes = map snd as, ask_prices = map fst as\<rparr>)"
proof -
  note gd = good_bookD [OF assms]
  then obtain L F where rep: "book_rep b L F" by (auto simp: wf_book_def)
  have "scan d (side_of b d) n = take n (depth (orders b d))" for d n
    using scan_eq [OF book_rep_side [OF rep] sound_lists [OF rep]] gd
    by (simp add: orders_rep [OF rep] depth_levels [OF book_rep_side [OF rep]])
  from this [of True] this [of False] show ?thesis
    by (simp add: build_snapshot_def scan_def)
qed

text \<open>
  C9: A snapshot of a good book is the true depth of the book: for each side the best ten price
  levels, best first, each with the volume resting at its price, then zeros.
\<close>

theorem snapshot_is_the_depth_of_the_book:
  assumes "good_book b"
  shows "build_snapshot b =
    (let bs = pad_levels (take ORDER_BOOK_MESSAGE_DEPTH (depth (orders b True)));
         as = pad_levels (take ORDER_BOOK_MESSAGE_DEPTH (depth (orders b False)))
     in \<lparr>bid_volumes = map snd bs, bid_prices = map fst bs, ask_volumes = map snd as, ask_prices = map fst as\<rparr>)"
  using assms by (rule build_snapshot_depth)

theorem snapshot_is_the_depth_of_the_book_witness:
  "ask_prices (build_snapshot two_asks) = [100, 200, 0, 0, 0, 0, 0, 0, 0, 0] \<and>
   ask_volumes (build_snapshot two_asks) = [5, 4, 0, 0, 0, 0, 0, 0, 0, 0] \<and>
   bid_volumes (build_snapshot two_asks) = [0, 0, 0, 0, 0, 0, 0, 0, 0, 0]"
proof -
  have "depth (orders two_asks False) = [(100, 5), (200, 4)]" "depth (orders two_asks True) = []"
    by (simp_all add: two_asks_good(2) depth_def)
  then show ?thesis
    unfolding snapshot_is_the_depth_of_the_book [OF two_asks_good(1)]
    by (simp add: pad_levels_def ORDER_BOOK_MESSAGE_DEPTH_def Let_def eval_nat_numeral)
qed

end
