(* ===== verification/Byte_Codec.thy ===== *)
theory Byte_Codec
  imports Prelude
begin

text \<open>
  Memory images of packed structs (\<open>#pragma pack(push, 1)\<close>) on a little-endian host, as src/protocol.hpp
  copies them with \<open>memcpy\<close> and reads them back with \<open>reinterpret_cast\<close>.  A \<open>codec\<close> has the
  number of bytes of a type, the bytes of a value, and the value that bytes hold, if they
  hold one.  Structs are sequences of codecs, arrays repetitions.  The locale
  \<open>faithful_codec\<close> is the law every codec of the protocol keeps: bytes of the stated number
  that read back as the value.
\<close>

unbundle bit_operations_syntax

type_synonym byte = "8 word"

section \<open>Little-endian bytes of a word\<close>

definition le_bytes :: "nat \<Rightarrow> 'a::len word \<Rightarrow> byte list" where
  "le_bytes n w = map (\<lambda>i. ucast (drop_bit (8 * i) w)) [0..<n]"

fun le_word :: "byte list \<Rightarrow> 'a::len word" where
  "le_word [] = 0"
| "le_word (b # bs) = ucast b OR push_bit 8 (le_word bs)"

lemma length_le_bytes [simp]: "length (le_bytes n w) = n"
  by (simp add: le_bytes_def)

lemma bit_le_bytes:
  "i < n \<Longrightarrow> k < 8 \<Longrightarrow> bit (le_bytes n w ! i) k \<longleftrightarrow> bit w (8 * i + k)"
  for w :: "'a::len word"
  by (auto simp: le_bytes_def bit_simps dest: bit_imp_le_length)

lemma bit_le_word:
  "bit (le_word bs :: 'a::len word) i \<longleftrightarrow>
     i < LENGTH('a) \<and> i div 8 < length bs \<and> bit (bs ! (i div 8)) (i mod 8)"
proof (induction bs arbitrary: i)
  case (Cons b bs)
  show ?case
  proof (cases "i < 8")
    case True
    then show ?thesis by (auto simp: bit_simps)
  next
    case False
    then obtain j where "i = 8 + j" by (metis le_add_diff_inverse linorder_not_less)
    moreover from this have "i div 8 = Suc (j div 8)" "i mod 8 = j mod 8" by simp_all
    ultimately show ?thesis
      using Cons.IH [of j] by (auto simp: bit_simps dest: bit_imp_le_length)
  qed
qed simp

lemma le_word_le_bytes [simp]:
  "LENGTH('a) \<le> 8 * n \<Longrightarrow> le_word (le_bytes n w) = w" for w :: "'a::len word"
proof (rule bit_word_eqI)
  fix i assume "LENGTH('a) \<le> 8 * n" "i < LENGTH('a)"
  moreover from this have "i div 8 < n" by (simp add: less_mult_imp_div_less mult.commute)
  ultimately show "bit (le_word (le_bytes n w) :: 'a word) i \<longleftrightarrow> bit w i"
    by (simp add: bit_le_word bit_le_bytes)
qed

lemma le_bytes_le_word:
  assumes "length bs = n" "8 * n \<le> LENGTH('a)"
  shows "le_bytes n (le_word bs :: 'a::len word) = bs"
proof (rule nth_equalityI)
  fix i assume "i < length (le_bytes n (le_word bs :: 'a word))"
  then have i: "i < n" by simp
  show "le_bytes n (le_word bs :: 'a word) ! i = bs ! i"
  proof (rule bit_word_eqI)
    fix k assume "k < LENGTH(8)"
    then have k: "k < 8" by simp
    then have "8 * i + k < LENGTH('a)" "(8 * i + k) div 8 = i" "(8 * i + k) mod 8 = k"
      using i assms(2) by simp_all
    then show "bit (le_bytes n (le_word bs :: 'a word) ! i) k \<longleftrightarrow> bit (bs ! i) k"
      using i k assms(1) by (simp add: bit_le_bytes bit_le_word)
  qed
qed (simp add: assms)

section \<open>Codecs\<close>

record 'a codec =
  sizeof :: nat
  image :: "'a \<Rightarrow> byte list"
  reading :: "byte list \<Rightarrow> 'a option"

locale faithful_codec =
  fixes c :: "'a codec" and fits :: "'a \<Rightarrow> bool"
  assumes image_length: "fits x \<Longrightarrow> length (image c x) = sizeof c"
    and read_image: "fits x \<Longrightarrow> reading c (image c x) = Some x"
begin

text \<open>A struct pointer into a longer buffer sees only its own bytes.\<close>

lemma read_prefix: "fits x \<Longrightarrow> reading c (take (sizeof c) (image c x @ rest)) = Some x"
  by (simp add: image_length read_image)

lemma image_inj: "fits x \<Longrightarrow> fits y \<Longrightarrow> image c x = image c y \<Longrightarrow> x = y"
  by (metis read_image option.inject)

end

definition word_codec :: "nat \<Rightarrow> 'a::len word codec" where
  "word_codec n = \<lparr>sizeof = n, image = le_bytes n,
     reading = (\<lambda>bs. if length bs = n then Some (le_word bs) else None)\<rparr>"

text \<open>A signed 64-bit integer in two's complement.\<close>

definition int64_codec :: "int codec" where
  "int64_codec = \<lparr>sizeof = 8, image = (\<lambda>p. le_bytes 8 (word_of_int p :: 64 word)),
     reading = (\<lambda>bs. if length bs = 8 then Some (sint (le_word bs :: 64 word)) else None)\<rparr>"

definition int64 :: "int \<Rightarrow> bool" where
  "int64 p \<longleftrightarrow> - (2 ^ 63) \<le> p \<and> p < 2 ^ 63"

text \<open>An enumeration with an 8-bit underlying type.\<close>

definition enum_codec :: "('a \<Rightarrow> byte) \<Rightarrow> (byte \<Rightarrow> 'a option) \<Rightarrow> 'a codec" where
  "enum_codec f g = \<lparr>sizeof = 1, image = (\<lambda>x. [f x]),
     reading = (\<lambda>bs. case bs of [b] \<Rightarrow> g b | _ \<Rightarrow> None)\<rparr>"

definition bytes_codec :: "nat \<Rightarrow> byte list codec" where
  "bytes_codec n = \<lparr>sizeof = n, image = (\<lambda>bs. bs),
     reading = (\<lambda>bs. if length bs = n then Some bs else None)\<rparr>"

text \<open>One member after the other.\<close>

definition seq_codec :: "'a codec \<Rightarrow> 'b codec \<Rightarrow> ('a \<times> 'b) codec" where
  "seq_codec a b = \<lparr>sizeof = sizeof a + sizeof b, image = (\<lambda>(x, y). image a x @ image b y),
     reading = (\<lambda>bs. do { x \<leftarrow> reading a (take (sizeof a) bs);
                           y \<leftarrow> reading b (drop (sizeof a) bs); Some (x, y) })\<rparr>"

fun read_array :: "'a codec \<Rightarrow> nat \<Rightarrow> byte list \<Rightarrow> 'a list option" where
  "read_array c 0 bs = (if bs = [] then Some [] else None)"
| "read_array c (Suc n) bs =
     do { x \<leftarrow> reading c (take (sizeof c) bs);
          xs \<leftarrow> read_array c n (drop (sizeof c) bs); Some (x # xs) }"

definition array_codec :: "nat \<Rightarrow> 'a codec \<Rightarrow> 'a list codec" where
  "array_codec n c = \<lparr>sizeof = n * sizeof c, image = (\<lambda>xs. concat (map (image c) xs)),
     reading = read_array c n\<rparr>"

text \<open>A struct from its members in order.\<close>

definition struct_codec :: "('b \<Rightarrow> 'a) \<Rightarrow> ('a \<Rightarrow> 'b) \<Rightarrow> 'b codec \<Rightarrow> 'a codec" where
  "struct_codec build members c = \<lparr>sizeof = sizeof c, image = (\<lambda>x. image c (members x)),
     reading = (\<lambda>bs. map_option build (reading c bs))\<rparr>"

section \<open>They are faithful\<close>

named_theorems codec_size
named_theorems codec_intro

lemma sizeof_codecs [codec_size]:
  "sizeof (word_codec n) = n" "sizeof int64_codec = 8" "sizeof (enum_codec f g) = 1"
  "sizeof (bytes_codec n) = n" "sizeof (seq_codec a b) = sizeof a + sizeof b"
  "sizeof (array_codec n c) = n * sizeof c" "sizeof (struct_codec mk ms d) = sizeof d"
  by (simp_all add: word_codec_def int64_codec_def enum_codec_def bytes_codec_def seq_codec_def
      array_codec_def struct_codec_def)

lemma word_codec_faithful:
  "LENGTH('a) = 8 * n \<Longrightarrow> faithful_codec (word_codec n :: 'a::len word codec) (\<lambda>_. True)"
  by unfold_locales (simp_all add: word_codec_def)

lemma int64_codec_faithful [codec_intro]: "faithful_codec int64_codec int64"
  by unfold_locales
    (simp_all add: int64_codec_def int64_def sint_sbintrunc' signed_take_bit_int_eq_self)

lemma enum_codec_faithful:
  "(\<And>x. g (f x) = Some x) \<Longrightarrow> faithful_codec (enum_codec f g) (\<lambda>_. True)"
  by unfold_locales (simp_all add: enum_codec_def)

lemma bytes_codec_faithful [codec_intro]: "faithful_codec (bytes_codec n) (\<lambda>bs. length bs = n)"
  by unfold_locales (simp_all add: bytes_codec_def)

lemma seq_codec_faithful [codec_intro]:
  assumes "faithful_codec a P" "faithful_codec b Q"
  shows "faithful_codec (seq_codec a b) (\<lambda>(x, y). P x \<and> Q y)"
  using assms by unfold_locales (auto simp: seq_codec_def faithful_codec_def)

lemma array_codec_faithful [codec_intro]:
  assumes "faithful_codec c P"
  shows "faithful_codec (array_codec n c) (\<lambda>xs. length xs = n \<and> list_all P xs)"
proof unfold_locales
  have len: "length (image c x) = sizeof c" and rd: "reading c (image c x) = Some x" if "P x" for x
    using assms that by (simp_all add: faithful_codec_def)
  show "length (image (array_codec n c) xs) = sizeof (array_codec n c)"
    if "length xs = n \<and> list_all P xs" for xs
    using that by (induction xs arbitrary: n) (auto simp: array_codec_def len)
  show "reading (array_codec n c) (image (array_codec n c) xs) = Some xs"
    if "length xs = n \<and> list_all P xs" for xs
    using that by (induction xs arbitrary: n) (auto simp: array_codec_def len rd)
qed

lemma word_codecs_faithful [codec_intro]:
  "faithful_codec (word_codec 2 :: 16 word codec) (\<lambda>_. True)"
  "faithful_codec (word_codec 4 :: 32 word codec) (\<lambda>_. True)"
  "faithful_codec (word_codec 8 :: 64 word codec) (\<lambda>_. True)"
  by (rule word_codec_faithful, simp)+

lemma struct_faithfulI:
  assumes "faithful_codec c P" "\<And>x. build (members x) = x" "\<And>x. Q x \<Longrightarrow> P (members x)"
  shows "faithful_codec (struct_codec build members c) Q"
  using assms by unfold_locales (auto simp: struct_codec_def faithful_codec_def)

end
