(* ===== verification/Protocol.thy ===== *)
theory Protocol
  imports Byte_Codec
begin

text \<open>
  The wire protocol of src/protocol.hpp: the message types and their codes, the packed
  payload structs with their memory images, the constructors \<open>make_...\<close>, the payload sizes,
  and the message writer and parsers.  Each struct is a record with the members of the
  source in their order, and each has an interpretation of \<open>faithful_codec\<close>.
\<close>

section \<open>Message types\<close>

datatype MessageType =
    CONNECT | DISCONNECT | INSERT_ORDER | CANCEL_ORDER | AMEND_ORDER | SUBSCRIBE | UNSUBSCRIBE
  | ORDER_STATUS_REQUEST | CONFIRM_CONNECTED | CONFIRM_ORDER_INSERTED | CONFIRM_ORDER_CANCELLED
  | CONFIRM_ORDER_AMENDED | PARTIAL_FILL_ORDER | ORDER_STATUS | ERROR_MSG | ORDER_BOOK_SNAPSHOT
  | TRADE_EVENT | ORDER_INSERTED_EVENT | ORDER_CANCELLED_EVENT | ORDER_AMENDED_EVENT
  | PRICE_LEVEL_UPDATE

fun type_code :: "MessageType \<Rightarrow> Message_t" where
  "type_code CONNECT = 1"
| "type_code DISCONNECT = 2"
| "type_code INSERT_ORDER = 3"
| "type_code CANCEL_ORDER = 4"
| "type_code AMEND_ORDER = 5"
| "type_code SUBSCRIBE = 6"
| "type_code UNSUBSCRIBE = 7"
| "type_code ORDER_STATUS_REQUEST = 8"
| "type_code CONFIRM_CONNECTED = 11"
| "type_code CONFIRM_ORDER_INSERTED = 12"
| "type_code CONFIRM_ORDER_CANCELLED = 13"
| "type_code CONFIRM_ORDER_AMENDED = 14"
| "type_code PARTIAL_FILL_ORDER = 15"
| "type_code ORDER_STATUS = 16"
| "type_code ERROR_MSG = 17"
| "type_code ORDER_BOOK_SNAPSHOT = 21"
| "type_code TRADE_EVENT = 23"
| "type_code ORDER_INSERTED_EVENT = 24"
| "type_code ORDER_CANCELLED_EVENT = 25"
| "type_code ORDER_AMENDED_EVENT = 26"
| "type_code PRICE_LEVEL_UPDATE = 27"

definition message_types :: "MessageType list" where
  "message_types = [CONNECT, DISCONNECT, INSERT_ORDER, CANCEL_ORDER, AMEND_ORDER, SUBSCRIBE,
     UNSUBSCRIBE, ORDER_STATUS_REQUEST, CONFIRM_CONNECTED, CONFIRM_ORDER_INSERTED,
     CONFIRM_ORDER_CANCELLED, CONFIRM_ORDER_AMENDED, PARTIAL_FILL_ORDER, ORDER_STATUS, ERROR_MSG,
     ORDER_BOOK_SNAPSHOT, TRADE_EVENT, ORDER_INSERTED_EVENT, ORDER_CANCELLED_EVENT,
     ORDER_AMENDED_EVENT, PRICE_LEVEL_UPDATE]"

text \<open>The cast of a byte to the enumeration; a byte that names no enumerator is \<open>None\<close>, and
  takes the \<open>default\<close> branch of every switch.\<close>

definition type_of_code :: "Message_t \<Rightarrow> MessageType option" where
  "type_of_code b = find (\<lambda>t. type_code t = b) message_types"

lemma type_of_type_code [simp]: "type_of_code (type_code t) = Some t"
  by (cases t) (simp_all add: type_of_code_def message_types_def)

lemma type_code_inj [simp]: "type_code s = type_code t \<longleftrightarrow> s = t"
  by (metis option.inject type_of_type_code)

section \<open>Payloads\<close>

definition side_codec :: "Side codec" where
  "side_codec = enum_codec (\<lambda>s. case s of SELL \<Rightarrow> 0 | BUY \<Rightarrow> 1)
     (\<lambda>b. if b = 0 then Some SELL else if b = 1 then Some BUY else None)"

definition lifespan_codec :: "Lifespan codec" where
  "lifespan_codec = enum_codec (\<lambda>s. case s of FILL_AND_KILL \<Rightarrow> 0 | GOOD_FOR_DAY \<Rightarrow> 1)
     (\<lambda>b. if b = 0 then Some FILL_AND_KILL else if b = 1 then Some GOOD_FOR_DAY else None)"

lemma sizeof_enums [codec_size]: "sizeof side_codec = 1" "sizeof lifespan_codec = 1"
  by (simp_all add: side_codec_def lifespan_codec_def codec_size)

lemma side_codec_faithful [codec_intro]: "faithful_codec side_codec (\<lambda>_. True)"
  unfolding side_codec_def by (rule enum_codec_faithful) (simp split: Side.split)

lemma lifespan_codec_faithful [codec_intro]: "faithful_codec lifespan_codec (\<lambda>_. True)"
  unfolding lifespan_codec_def by (rule enum_codec_faithful) (simp split: Lifespan.split)

record PayloadDisconnect =
  client_request_id :: Id_t

definition PayloadDisconnect_codec :: "PayloadDisconnect codec" where
  "PayloadDisconnect_codec = struct_codec
     (\<lambda>m1. \<lparr>client_request_id = m1\<rparr>)
     (\<lambda>p. client_request_id p)
     (word_codec 4)"

interpretation disconnect: faithful_codec PayloadDisconnect_codec
  "\<lambda>p. True"
  unfolding PayloadDisconnect_codec_def
  by (rule struct_faithfulI, (rule codec_intro)+) simp_all

definition make_disconnect :: "Id_t \<Rightarrow> PayloadDisconnect" where
  "make_disconnect client_request_id' =
    \<lparr>client_request_id = client_request_id'\<rparr>"

record PayloadInsertOrder =
  client_request_id :: Id_t
  side :: Side
  price :: Price_t
  quantity :: Volume_t
  lifespan :: Lifespan

definition PayloadInsertOrder_codec :: "PayloadInsertOrder codec" where
  "PayloadInsertOrder_codec = struct_codec
     (\<lambda>(m1, m2, m3, m4, m5). \<lparr>client_request_id = m1, side = m2, price = m3, quantity = m4,
        lifespan = m5\<rparr>)
     (\<lambda>p. (client_request_id p, side p, price p, quantity p, lifespan p))
     (seq_codec (word_codec 4) (seq_codec side_codec (seq_codec int64_codec (seq_codec
      (word_codec 4) lifespan_codec))))"

interpretation insert_order: faithful_codec PayloadInsertOrder_codec
  "\<lambda>p. int64 (price p)"
  unfolding PayloadInsertOrder_codec_def
  by (rule struct_faithfulI, (rule codec_intro)+) simp_all

definition make_insert_order :: "Id_t \<Rightarrow> Side \<Rightarrow> Price_t \<Rightarrow> Volume_t \<Rightarrow> Lifespan
    \<Rightarrow> PayloadInsertOrder" where
  "make_insert_order client_request_id' side' price' quantity' lifespan' =
    \<lparr>client_request_id = client_request_id', side = side', price = price',
     quantity = quantity', lifespan = lifespan'\<rparr>"

record PayloadCancelOrder =
  client_request_id :: Id_t
  exchange_order_id :: Id_t

definition PayloadCancelOrder_codec :: "PayloadCancelOrder codec" where
  "PayloadCancelOrder_codec = struct_codec
     (\<lambda>(m1, m2). \<lparr>client_request_id = m1, exchange_order_id = m2\<rparr>)
     (\<lambda>p. (client_request_id p, exchange_order_id p))
     (seq_codec (word_codec 4) (word_codec 4))"

interpretation cancel_order: faithful_codec PayloadCancelOrder_codec
  "\<lambda>p. True"
  unfolding PayloadCancelOrder_codec_def
  by (rule struct_faithfulI, (rule codec_intro)+) simp_all

definition make_cancel_order :: "Id_t \<Rightarrow> Id_t \<Rightarrow> PayloadCancelOrder" where
  "make_cancel_order client_request_id' exchange_order_id' =
    \<lparr>client_request_id = client_request_id',
     exchange_order_id = exchange_order_id'\<rparr>"

record PayloadAmendOrder =
  client_request_id :: Id_t
  exchange_order_id :: Id_t
  new_total_quantity :: Volume_t

definition PayloadAmendOrder_codec :: "PayloadAmendOrder codec" where
  "PayloadAmendOrder_codec = struct_codec
     (\<lambda>(m1, m2, m3). \<lparr>client_request_id = m1, exchange_order_id = m2, new_total_quantity = m3\<rparr>)
     (\<lambda>p. (client_request_id p, exchange_order_id p, new_total_quantity p))
     (seq_codec (word_codec 4) (seq_codec (word_codec 4) (word_codec 4)))"

interpretation amend_order: faithful_codec PayloadAmendOrder_codec
  "\<lambda>p. True"
  unfolding PayloadAmendOrder_codec_def
  by (rule struct_faithfulI, (rule codec_intro)+) simp_all

definition make_amend_order :: "Id_t \<Rightarrow> Id_t \<Rightarrow> Volume_t \<Rightarrow> PayloadAmendOrder" where
  "make_amend_order client_request_id' exchange_order_id' new_total_quantity' =
    \<lparr>client_request_id = client_request_id',
     exchange_order_id = exchange_order_id',
     new_total_quantity = new_total_quantity'\<rparr>"

record PayloadSubscribe =
  client_request_id :: Id_t

definition PayloadSubscribe_codec :: "PayloadSubscribe codec" where
  "PayloadSubscribe_codec = struct_codec
     (\<lambda>m1. \<lparr>client_request_id = m1\<rparr>)
     (\<lambda>p. client_request_id p)
     (word_codec 4)"

interpretation subscribe: faithful_codec PayloadSubscribe_codec
  "\<lambda>p. True"
  unfolding PayloadSubscribe_codec_def
  by (rule struct_faithfulI, (rule codec_intro)+) simp_all

definition make_subscribe :: "Id_t \<Rightarrow> PayloadSubscribe" where
  "make_subscribe client_request_id' =
    \<lparr>client_request_id = client_request_id'\<rparr>"

record PayloadUnsubscribe =
  client_request_id :: Id_t

definition PayloadUnsubscribe_codec :: "PayloadUnsubscribe codec" where
  "PayloadUnsubscribe_codec = struct_codec
     (\<lambda>m1. \<lparr>client_request_id = m1\<rparr>)
     (\<lambda>p. client_request_id p)
     (word_codec 4)"

interpretation unsubscribe: faithful_codec PayloadUnsubscribe_codec
  "\<lambda>p. True"
  unfolding PayloadUnsubscribe_codec_def
  by (rule struct_faithfulI, (rule codec_intro)+) simp_all

definition make_unsubscribe :: "Id_t \<Rightarrow> PayloadUnsubscribe" where
  "make_unsubscribe client_request_id' =
    \<lparr>client_request_id = client_request_id'\<rparr>"

record PayloadOrderStatusRequest =
  client_request_id :: Id_t
  exchange_order_id :: Id_t

definition PayloadOrderStatusRequest_codec :: "PayloadOrderStatusRequest codec" where
  "PayloadOrderStatusRequest_codec = struct_codec
     (\<lambda>(m1, m2). \<lparr>client_request_id = m1, exchange_order_id = m2\<rparr>)
     (\<lambda>p. (client_request_id p, exchange_order_id p))
     (seq_codec (word_codec 4) (word_codec 4))"

interpretation order_status_request: faithful_codec PayloadOrderStatusRequest_codec
  "\<lambda>p. True"
  unfolding PayloadOrderStatusRequest_codec_def
  by (rule struct_faithfulI, (rule codec_intro)+) simp_all

definition make_order_status_request :: "Id_t \<Rightarrow> Id_t \<Rightarrow> PayloadOrderStatusRequest" where
  "make_order_status_request client_request_id' exchange_order_id' =
    \<lparr>client_request_id = client_request_id',
     exchange_order_id = exchange_order_id'\<rparr>"

record PayloadError =
  client_request_id :: Id_t
  code :: "16 word"
  message :: "byte list"
  timestamp :: Time_t

definition PayloadError_codec :: "PayloadError codec" where
  "PayloadError_codec = struct_codec
     (\<lambda>(m1, m2, m3, m4). \<lparr>client_request_id = m1, code = m2, message = m3, timestamp = m4\<rparr>)
     (\<lambda>p. (client_request_id p, code p, message p, timestamp p))
     (seq_codec (word_codec 4) (seq_codec (word_codec 2) (seq_codec (bytes_codec
      ERROR_TEXT_LEN) (word_codec 8))))"

interpretation error: faithful_codec PayloadError_codec
  "\<lambda>p. length (message p) = ERROR_TEXT_LEN"
  unfolding PayloadError_codec_def
  by (rule struct_faithfulI, (rule codec_intro)+) simp_all

text \<open>The text is cut to leave room for a terminating NUL; the rest of the zeroed array stays
  zero.\<close>

definition make_error :: "Id_t \<Rightarrow> 16 word \<Rightarrow> byte list \<Rightarrow> Time_t \<Rightarrow> PayloadError" where
  "make_error client_request_id' code' message' timestamp' =
    (let n = min (ERROR_TEXT_LEN - 1) (length message')
     in \<lparr>client_request_id = client_request_id', code = code',
         message = take n message' @ replicate (ERROR_TEXT_LEN - n) 0, timestamp = timestamp'\<rparr>)"

record PayloadConfirmOrderInserted =
  client_request_id :: Id_t
  exchange_order_id :: Id_t
  side :: Side
  price :: Price_t
  total_quantity :: Volume_t
  leaves_quantity :: Volume_t
  timestamp :: Time_t

definition PayloadConfirmOrderInserted_codec :: "PayloadConfirmOrderInserted codec" where
  "PayloadConfirmOrderInserted_codec = struct_codec
     (\<lambda>(m1, m2, m3, m4, m5, m6, m7). \<lparr>client_request_id = m1, exchange_order_id = m2, side = m3, price = m4,
        total_quantity = m5, leaves_quantity = m6, timestamp = m7\<rparr>)
     (\<lambda>p. (client_request_id p, exchange_order_id p, side p, price p, total_quantity p, leaves_quantity p, timestamp p))
     (seq_codec (word_codec 4) (seq_codec (word_codec 4) (seq_codec side_codec (seq_codec
      int64_codec (seq_codec (word_codec 4) (seq_codec (word_codec 4) (word_codec 8)))))))"

interpretation confirm_order_inserted: faithful_codec PayloadConfirmOrderInserted_codec
  "\<lambda>p. int64 (price p)"
  unfolding PayloadConfirmOrderInserted_codec_def
  by (rule struct_faithfulI, (rule codec_intro)+) simp_all

definition make_confirm_order_inserted :: "Id_t \<Rightarrow> Id_t \<Rightarrow> Side \<Rightarrow> Price_t \<Rightarrow> Volume_t \<Rightarrow> Volume_t \<Rightarrow> Time_t
    \<Rightarrow> PayloadConfirmOrderInserted" where
  "make_confirm_order_inserted client_request_id' exchange_order_id' side' price'
    total_quantity' leaves_quantity' timestamp' =
    \<lparr>client_request_id = client_request_id',
     exchange_order_id = exchange_order_id', side = side', price = price',
     total_quantity = total_quantity', leaves_quantity = leaves_quantity',
     timestamp = timestamp'\<rparr>"

record PayloadConfirmOrderCancelled =
  client_request_id :: Id_t
  exchange_order_id :: Id_t
  leaves_quantity :: Volume_t
  price :: Price_t
  side :: Side
  timestamp :: Time_t

definition PayloadConfirmOrderCancelled_codec :: "PayloadConfirmOrderCancelled codec" where
  "PayloadConfirmOrderCancelled_codec = struct_codec
     (\<lambda>(m1, m2, m3, m4, m5, m6). \<lparr>client_request_id = m1, exchange_order_id = m2, leaves_quantity = m3,
        price = m4, side = m5, timestamp = m6\<rparr>)
     (\<lambda>p. (client_request_id p, exchange_order_id p, leaves_quantity p, price p, side p, timestamp p))
     (seq_codec (word_codec 4) (seq_codec (word_codec 4) (seq_codec (word_codec 4) (seq_codec
      int64_codec (seq_codec side_codec (word_codec 8))))))"

interpretation confirm_order_cancelled: faithful_codec PayloadConfirmOrderCancelled_codec
  "\<lambda>p. int64 (price p)"
  unfolding PayloadConfirmOrderCancelled_codec_def
  by (rule struct_faithfulI, (rule codec_intro)+) simp_all

definition make_confirm_order_cancelled :: "Id_t \<Rightarrow> Id_t \<Rightarrow> Volume_t \<Rightarrow> Price_t \<Rightarrow> Side \<Rightarrow> Time_t
    \<Rightarrow> PayloadConfirmOrderCancelled" where
  "make_confirm_order_cancelled client_request_id' exchange_order_id' leaves_quantity'
    price' side' timestamp' =
    \<lparr>client_request_id = client_request_id',
     exchange_order_id = exchange_order_id',
     leaves_quantity = leaves_quantity', price = price', side = side',
     timestamp = timestamp'\<rparr>"

record PayloadConfirmOrderAmended =
  client_request_id :: Id_t
  exchange_order_id :: Id_t
  old_total_quantity :: Volume_t
  new_total_quantity :: Volume_t
  leaves_quantity :: Volume_t
  timestamp :: Time_t

definition PayloadConfirmOrderAmended_codec :: "PayloadConfirmOrderAmended codec" where
  "PayloadConfirmOrderAmended_codec = struct_codec
     (\<lambda>(m1, m2, m3, m4, m5, m6). \<lparr>client_request_id = m1, exchange_order_id = m2, old_total_quantity = m3,
        new_total_quantity = m4, leaves_quantity = m5, timestamp = m6\<rparr>)
     (\<lambda>p. (client_request_id p, exchange_order_id p, old_total_quantity p, new_total_quantity p, leaves_quantity p, timestamp p))
     (seq_codec (word_codec 4) (seq_codec (word_codec 4) (seq_codec (word_codec 4) (seq_codec
      (word_codec 4) (seq_codec (word_codec 4) (word_codec 8))))))"

interpretation confirm_order_amended: faithful_codec PayloadConfirmOrderAmended_codec
  "\<lambda>p. True"
  unfolding PayloadConfirmOrderAmended_codec_def
  by (rule struct_faithfulI, (rule codec_intro)+) simp_all

definition make_confirm_order_amended :: "Id_t \<Rightarrow> Id_t \<Rightarrow> Volume_t \<Rightarrow> Volume_t \<Rightarrow> Volume_t \<Rightarrow> Time_t
    \<Rightarrow> PayloadConfirmOrderAmended" where
  "make_confirm_order_amended client_request_id' exchange_order_id' old_total_quantity'
    new_total_quantity' leaves_quantity' timestamp' =
    \<lparr>client_request_id = client_request_id',
     exchange_order_id = exchange_order_id',
     old_total_quantity = old_total_quantity',
     new_total_quantity = new_total_quantity',
     leaves_quantity = leaves_quantity', timestamp = timestamp'\<rparr>"

record PayloadPartialFill =
  exchange_order_id :: Id_t
  trade_id :: Id_t
  last_price :: Price_t
  last_quantity :: Volume_t
  leaves_quantity :: Volume_t
  cumulative_quantity :: Volume_t
  timestamp :: Time_t

definition PayloadPartialFill_codec :: "PayloadPartialFill codec" where
  "PayloadPartialFill_codec = struct_codec
     (\<lambda>(m1, m2, m3, m4, m5, m6, m7). \<lparr>exchange_order_id = m1, trade_id = m2, last_price = m3,
        last_quantity = m4, leaves_quantity = m5, cumulative_quantity = m6,
        timestamp = m7\<rparr>)
     (\<lambda>p. (exchange_order_id p, trade_id p, last_price p, last_quantity p, leaves_quantity p, cumulative_quantity p, timestamp p))
     (seq_codec (word_codec 4) (seq_codec (word_codec 4) (seq_codec int64_codec (seq_codec
      (word_codec 4) (seq_codec (word_codec 4) (seq_codec (word_codec 4) (word_codec 8)))))))"

interpretation partial_fill: faithful_codec PayloadPartialFill_codec
  "\<lambda>p. int64 (last_price p)"
  unfolding PayloadPartialFill_codec_def
  by (rule struct_faithfulI, (rule codec_intro)+) simp_all

definition make_partial_fill :: "Id_t \<Rightarrow> Id_t \<Rightarrow> Price_t \<Rightarrow> Volume_t \<Rightarrow> Volume_t \<Rightarrow> Volume_t \<Rightarrow> Time_t
    \<Rightarrow> PayloadPartialFill" where
  "make_partial_fill exchange_order_id' trade_id' last_price' last_quantity'
    leaves_quantity' cumulative_quantity' timestamp' =
    \<lparr>exchange_order_id = exchange_order_id', trade_id = trade_id',
     last_price = last_price', last_quantity = last_quantity',
     leaves_quantity = leaves_quantity',
     cumulative_quantity = cumulative_quantity', timestamp = timestamp'\<rparr>"

record PayloadOrderStatus =
  client_request_id :: Id_t
  exchange_order_id :: Id_t
  side :: Side
  limit_price :: Price_t
  last_price :: Price_t
  total_quantity :: Volume_t
  filled_quantity :: Volume_t
  leaves_quantity :: Volume_t
  timestamp :: Time_t

definition PayloadOrderStatus_codec :: "PayloadOrderStatus codec" where
  "PayloadOrderStatus_codec = struct_codec
     (\<lambda>(m1, m2, m3, m4, m5, m6, m7, m8, m9). \<lparr>client_request_id = m1, exchange_order_id = m2, side = m3,
        limit_price = m4, last_price = m5, total_quantity = m6,
        filled_quantity = m7, leaves_quantity = m8, timestamp = m9\<rparr>)
     (\<lambda>p. (client_request_id p, exchange_order_id p, side p, limit_price p, last_price p, total_quantity p, filled_quantity p, leaves_quantity p, timestamp p))
     (seq_codec (word_codec 4) (seq_codec (word_codec 4) (seq_codec side_codec (seq_codec
      int64_codec (seq_codec int64_codec (seq_codec (word_codec 4) (seq_codec (word_codec 4)
      (seq_codec (word_codec 4) (word_codec 8)))))))))"

interpretation order_status: faithful_codec PayloadOrderStatus_codec
  "\<lambda>p. int64 (limit_price p)
     \<and> int64 (last_price p)"
  unfolding PayloadOrderStatus_codec_def
  by (rule struct_faithfulI, (rule codec_intro)+) simp_all

definition make_order_status :: "Id_t \<Rightarrow> Id_t \<Rightarrow> Side \<Rightarrow> Volume_t \<Rightarrow> Volume_t \<Rightarrow> Volume_t \<Rightarrow> Price_t \<Rightarrow> Price_t \<Rightarrow> Time_t
    \<Rightarrow> PayloadOrderStatus" where
  "make_order_status client_request_id' exchange_order_id' side' total_quantity'
    filled_quantity' leaves_quantity' limit_price' last_price' timestamp' =
    \<lparr>client_request_id = client_request_id',
     exchange_order_id = exchange_order_id', side = side',
     limit_price = limit_price', last_price = last_price',
     total_quantity = total_quantity', filled_quantity = filled_quantity',
     leaves_quantity = leaves_quantity', timestamp = timestamp'\<rparr>"

record PayloadOrderBookSnapshot =
  ask_prices :: "Price_t list"
  ask_volumes :: "Volume_t list"
  bid_prices :: "Price_t list"
  bid_volumes :: "Volume_t list"
  sequence_number :: Id_t

definition PayloadOrderBookSnapshot_codec :: "PayloadOrderBookSnapshot codec" where
  "PayloadOrderBookSnapshot_codec = struct_codec
     (\<lambda>(m1, m2, m3, m4, m5). \<lparr>ask_prices = m1, ask_volumes = m2, bid_prices = m3, bid_volumes = m4,
        sequence_number = m5\<rparr>)
     (\<lambda>p. (ask_prices p, ask_volumes p, bid_prices p, bid_volumes p, sequence_number p))
     (seq_codec (array_codec ORDER_BOOK_MESSAGE_DEPTH int64_codec) (seq_codec (array_codec
      ORDER_BOOK_MESSAGE_DEPTH (word_codec 4)) (seq_codec (array_codec
      ORDER_BOOK_MESSAGE_DEPTH int64_codec) (seq_codec (array_codec ORDER_BOOK_MESSAGE_DEPTH
      (word_codec 4)) (word_codec 4)))))"

interpretation order_book_snapshot: faithful_codec PayloadOrderBookSnapshot_codec
  "\<lambda>p. length (ask_prices p) = ORDER_BOOK_MESSAGE_DEPTH \<and> list_all int64 (ask_prices p)
     \<and> length (ask_volumes p) = ORDER_BOOK_MESSAGE_DEPTH
     \<and> length (bid_prices p) = ORDER_BOOK_MESSAGE_DEPTH \<and> list_all int64 (bid_prices p)
     \<and> length (bid_volumes p) = ORDER_BOOK_MESSAGE_DEPTH"
  unfolding PayloadOrderBookSnapshot_codec_def
  by (rule struct_faithfulI, (rule codec_intro)+) (simp_all add: list_all_iff)

definition make_order_book_snapshot :: "Price_t list \<Rightarrow> Volume_t list \<Rightarrow> Price_t list \<Rightarrow> Volume_t list \<Rightarrow> Id_t
    \<Rightarrow> PayloadOrderBookSnapshot" where
  "make_order_book_snapshot ask_prices' ask_volumes' bid_prices' bid_volumes'
    sequence_number' =
    \<lparr>ask_prices = ask_prices', ask_volumes = ask_volumes',
     bid_prices = bid_prices', bid_volumes = bid_volumes',
     sequence_number = sequence_number'\<rparr>"

record PayloadTradeEvent =
  sequence_number :: Id_t
  trade_id :: Id_t
  price :: Price_t
  quantity :: Volume_t
  taker_side :: Side
  timestamp :: Time_t

definition PayloadTradeEvent_codec :: "PayloadTradeEvent codec" where
  "PayloadTradeEvent_codec = struct_codec
     (\<lambda>(m1, m2, m3, m4, m5, m6). \<lparr>sequence_number = m1, trade_id = m2, price = m3, quantity = m4,
        taker_side = m5, timestamp = m6\<rparr>)
     (\<lambda>p. (sequence_number p, trade_id p, price p, quantity p, taker_side p, timestamp p))
     (seq_codec (word_codec 4) (seq_codec (word_codec 4) (seq_codec int64_codec (seq_codec
      (word_codec 4) (seq_codec side_codec (word_codec 8))))))"

interpretation trade_event: faithful_codec PayloadTradeEvent_codec
  "\<lambda>p. int64 (price p)"
  unfolding PayloadTradeEvent_codec_def
  by (rule struct_faithfulI, (rule codec_intro)+) simp_all

definition make_trade_event :: "Id_t \<Rightarrow> Id_t \<Rightarrow> Price_t \<Rightarrow> Volume_t \<Rightarrow> Side \<Rightarrow> Time_t
    \<Rightarrow> PayloadTradeEvent" where
  "make_trade_event sequence_number' trade_id' price' quantity' taker_side' timestamp' =
    \<lparr>sequence_number = sequence_number', trade_id = trade_id', price = price',
     quantity = quantity', taker_side = taker_side', timestamp = timestamp'\<rparr>"

record PayloadOrderInsertedEvent =
  sequence_number :: Id_t
  order_id :: Id_t
  side :: Side
  price :: Price_t
  quantity :: Volume_t
  timestamp :: Time_t

definition PayloadOrderInsertedEvent_codec :: "PayloadOrderInsertedEvent codec" where
  "PayloadOrderInsertedEvent_codec = struct_codec
     (\<lambda>(m1, m2, m3, m4, m5, m6). \<lparr>sequence_number = m1, order_id = m2, side = m3, price = m4,
        quantity = m5, timestamp = m6\<rparr>)
     (\<lambda>p. (sequence_number p, order_id p, side p, price p, quantity p, timestamp p))
     (seq_codec (word_codec 4) (seq_codec (word_codec 4) (seq_codec side_codec (seq_codec
      int64_codec (seq_codec (word_codec 4) (word_codec 8))))))"

interpretation order_inserted_event: faithful_codec PayloadOrderInsertedEvent_codec
  "\<lambda>p. int64 (price p)"
  unfolding PayloadOrderInsertedEvent_codec_def
  by (rule struct_faithfulI, (rule codec_intro)+) simp_all

definition make_order_inserted_event :: "Id_t \<Rightarrow> Id_t \<Rightarrow> Side \<Rightarrow> Price_t \<Rightarrow> Volume_t \<Rightarrow> Time_t
    \<Rightarrow> PayloadOrderInsertedEvent" where
  "make_order_inserted_event sequence_number' order_id' side' price' quantity' timestamp' =
    \<lparr>sequence_number = sequence_number', order_id = order_id', side = side',
     price = price', quantity = quantity', timestamp = timestamp'\<rparr>"

record PayloadOrderCancelledEvent =
  sequence_number :: Id_t
  order_id :: Id_t
  remaining_quantity :: Volume_t
  timestamp :: Time_t

definition PayloadOrderCancelledEvent_codec :: "PayloadOrderCancelledEvent codec" where
  "PayloadOrderCancelledEvent_codec = struct_codec
     (\<lambda>(m1, m2, m3, m4). \<lparr>sequence_number = m1, order_id = m2, remaining_quantity = m3,
        timestamp = m4\<rparr>)
     (\<lambda>p. (sequence_number p, order_id p, remaining_quantity p, timestamp p))
     (seq_codec (word_codec 4) (seq_codec (word_codec 4) (seq_codec (word_codec 4) (word_codec
      8))))"

interpretation order_cancelled_event: faithful_codec PayloadOrderCancelledEvent_codec
  "\<lambda>p. True"
  unfolding PayloadOrderCancelledEvent_codec_def
  by (rule struct_faithfulI, (rule codec_intro)+) simp_all

definition make_order_cancelled_event :: "Id_t \<Rightarrow> Id_t \<Rightarrow> Volume_t \<Rightarrow> Time_t
    \<Rightarrow> PayloadOrderCancelledEvent" where
  "make_order_cancelled_event sequence_number' order_id' remaining_quantity' timestamp' =
    \<lparr>sequence_number = sequence_number', order_id = order_id',
     remaining_quantity = remaining_quantity', timestamp = timestamp'\<rparr>"

record PayloadOrderAmendedEvent =
  sequence_number :: Id_t
  order_id :: Id_t
  quantity_new :: Volume_t
  quantity_old :: Volume_t
  timestamp :: Time_t

definition PayloadOrderAmendedEvent_codec :: "PayloadOrderAmendedEvent codec" where
  "PayloadOrderAmendedEvent_codec = struct_codec
     (\<lambda>(m1, m2, m3, m4, m5). \<lparr>sequence_number = m1, order_id = m2, quantity_new = m3,
        quantity_old = m4, timestamp = m5\<rparr>)
     (\<lambda>p. (sequence_number p, order_id p, quantity_new p, quantity_old p, timestamp p))
     (seq_codec (word_codec 4) (seq_codec (word_codec 4) (seq_codec (word_codec 4) (seq_codec
      (word_codec 4) (word_codec 8)))))"

interpretation order_amended_event: faithful_codec PayloadOrderAmendedEvent_codec
  "\<lambda>p. True"
  unfolding PayloadOrderAmendedEvent_codec_def
  by (rule struct_faithfulI, (rule codec_intro)+) simp_all

definition make_order_amended_event :: "Id_t \<Rightarrow> Id_t \<Rightarrow> Volume_t \<Rightarrow> Volume_t \<Rightarrow> Time_t
    \<Rightarrow> PayloadOrderAmendedEvent" where
  "make_order_amended_event sequence_number' order_id' quantity_new' quantity_old'
    timestamp' =
    \<lparr>sequence_number = sequence_number', order_id = order_id',
     quantity_new = quantity_new', quantity_old = quantity_old',
     timestamp = timestamp'\<rparr>"

record PayloadPriceLevelUpdate =
  sequence_number :: Id_t
  side :: Side
  price :: Price_t
  total_volume :: Volume_t
  timestamp :: Time_t

definition PayloadPriceLevelUpdate_codec :: "PayloadPriceLevelUpdate codec" where
  "PayloadPriceLevelUpdate_codec = struct_codec
     (\<lambda>(m1, m2, m3, m4, m5). \<lparr>sequence_number = m1, side = m2, price = m3, total_volume = m4,
        timestamp = m5\<rparr>)
     (\<lambda>p. (sequence_number p, side p, price p, total_volume p, timestamp p))
     (seq_codec (word_codec 4) (seq_codec side_codec (seq_codec int64_codec (seq_codec
      (word_codec 4) (word_codec 8)))))"

interpretation price_level_update: faithful_codec PayloadPriceLevelUpdate_codec
  "\<lambda>p. int64 (price p)"
  unfolding PayloadPriceLevelUpdate_codec_def
  by (rule struct_faithfulI, (rule codec_intro)+) simp_all

definition make_price_level_update :: "Id_t \<Rightarrow> Side \<Rightarrow> Price_t \<Rightarrow> Volume_t \<Rightarrow> Time_t
    \<Rightarrow> PayloadPriceLevelUpdate" where
  "make_price_level_update sequence_number' side' price' total_volume' timestamp' =
    \<lparr>sequence_number = sequence_number', side = side', price = price',
     total_volume = total_volume', timestamp = timestamp'\<rparr>"
end
