(* ===== verification/Messages.thy ===== *)
theory Messages
  imports Protocol
begin

text \<open>
  Messages of src/protocol.hpp: payloads of any type, their sizes and the two bounds on them,
  the writer and the two parsers; and that what is written is what is parsed.
\<close>

section \<open>Definitions\<close>

text \<open>A payload of any type: what the \<open>void*\<close> arguments of the source point to.\<close>

datatype Payload =
    Disconnect PayloadDisconnect
  | InsertOrder PayloadInsertOrder
  | CancelOrder PayloadCancelOrder
  | AmendOrder PayloadAmendOrder
  | Subscribe PayloadSubscribe
  | Unsubscribe PayloadUnsubscribe
  | OrderStatusRequest PayloadOrderStatusRequest
  | Error PayloadError
  | ConfirmOrderInserted PayloadConfirmOrderInserted
  | ConfirmOrderCancelled PayloadConfirmOrderCancelled
  | ConfirmOrderAmended PayloadConfirmOrderAmended
  | PartialFill PayloadPartialFill
  | OrderStatus PayloadOrderStatus
  | OrderBookSnapshot PayloadOrderBookSnapshot
  | TradeEvent PayloadTradeEvent
  | OrderInsertedEvent PayloadOrderInsertedEvent
  | OrderCancelledEvent PayloadOrderCancelledEvent
  | OrderAmendedEvent PayloadOrderAmendedEvent
  | PriceLevelUpdate PayloadPriceLevelUpdate

fun payload_type :: "Payload \<Rightarrow> MessageType" where
  "payload_type (Disconnect p) = DISCONNECT"
| "payload_type (InsertOrder p) = INSERT_ORDER"
| "payload_type (CancelOrder p) = CANCEL_ORDER"
| "payload_type (AmendOrder p) = AMEND_ORDER"
| "payload_type (Subscribe p) = SUBSCRIBE"
| "payload_type (Unsubscribe p) = UNSUBSCRIBE"
| "payload_type (OrderStatusRequest p) = ORDER_STATUS_REQUEST"
| "payload_type (Error p) = ERROR_MSG"
| "payload_type (ConfirmOrderInserted p) = CONFIRM_ORDER_INSERTED"
| "payload_type (ConfirmOrderCancelled p) = CONFIRM_ORDER_CANCELLED"
| "payload_type (ConfirmOrderAmended p) = CONFIRM_ORDER_AMENDED"
| "payload_type (PartialFill p) = PARTIAL_FILL_ORDER"
| "payload_type (OrderStatus p) = ORDER_STATUS"
| "payload_type (OrderBookSnapshot p) = ORDER_BOOK_SNAPSHOT"
| "payload_type (TradeEvent p) = TRADE_EVENT"
| "payload_type (OrderInsertedEvent p) = ORDER_INSERTED_EVENT"
| "payload_type (OrderCancelledEvent p) = ORDER_CANCELLED_EVENT"
| "payload_type (OrderAmendedEvent p) = ORDER_AMENDED_EVENT"
| "payload_type (PriceLevelUpdate p) = PRICE_LEVEL_UPDATE"

fun payload_image :: "Payload \<Rightarrow> byte list" where
  "payload_image (Disconnect p) = image PayloadDisconnect_codec p"
| "payload_image (InsertOrder p) = image PayloadInsertOrder_codec p"
| "payload_image (CancelOrder p) = image PayloadCancelOrder_codec p"
| "payload_image (AmendOrder p) = image PayloadAmendOrder_codec p"
| "payload_image (Subscribe p) = image PayloadSubscribe_codec p"
| "payload_image (Unsubscribe p) = image PayloadUnsubscribe_codec p"
| "payload_image (OrderStatusRequest p) = image PayloadOrderStatusRequest_codec p"
| "payload_image (Error p) = image PayloadError_codec p"
| "payload_image (ConfirmOrderInserted p) = image PayloadConfirmOrderInserted_codec p"
| "payload_image (ConfirmOrderCancelled p) = image PayloadConfirmOrderCancelled_codec p"
| "payload_image (ConfirmOrderAmended p) = image PayloadConfirmOrderAmended_codec p"
| "payload_image (PartialFill p) = image PayloadPartialFill_codec p"
| "payload_image (OrderStatus p) = image PayloadOrderStatus_codec p"
| "payload_image (OrderBookSnapshot p) = image PayloadOrderBookSnapshot_codec p"
| "payload_image (TradeEvent p) = image PayloadTradeEvent_codec p"
| "payload_image (OrderInsertedEvent p) = image PayloadOrderInsertedEvent_codec p"
| "payload_image (OrderCancelledEvent p) = image PayloadOrderCancelledEvent_codec p"
| "payload_image (OrderAmendedEvent p) = image PayloadOrderAmendedEvent_codec p"
| "payload_image (PriceLevelUpdate p) = image PayloadPriceLevelUpdate_codec p"

text \<open>The values C++ can hold: prices of 64 bits, arrays of the declared lengths.\<close>

fun payload_fits :: "Payload \<Rightarrow> bool" where
  "payload_fits (InsertOrder p) \<longleftrightarrow> int64 (PayloadInsertOrder.price p)"
| "payload_fits (Error p) \<longleftrightarrow> length (PayloadError.message p) = ERROR_TEXT_LEN"
| "payload_fits (ConfirmOrderInserted p) \<longleftrightarrow> int64 (PayloadConfirmOrderInserted.price p)"
| "payload_fits (ConfirmOrderCancelled p) \<longleftrightarrow> int64 (PayloadConfirmOrderCancelled.price p)"
| "payload_fits (PartialFill p) \<longleftrightarrow> int64 (PayloadPartialFill.last_price p)"
| "payload_fits (OrderStatus p) \<longleftrightarrow> int64 (PayloadOrderStatus.limit_price p)
     \<and> int64 (PayloadOrderStatus.last_price p)"
| "payload_fits (OrderBookSnapshot p) \<longleftrightarrow> length (PayloadOrderBookSnapshot.ask_prices p) = ORDER_BOOK_MESSAGE_DEPTH \<and> list_all int64 (PayloadOrderBookSnapshot.ask_prices p)
     \<and> length (PayloadOrderBookSnapshot.ask_volumes p) = ORDER_BOOK_MESSAGE_DEPTH
     \<and> length (PayloadOrderBookSnapshot.bid_prices p) = ORDER_BOOK_MESSAGE_DEPTH \<and> list_all int64 (PayloadOrderBookSnapshot.bid_prices p)
     \<and> length (PayloadOrderBookSnapshot.bid_volumes p) = ORDER_BOOK_MESSAGE_DEPTH"
| "payload_fits (TradeEvent p) \<longleftrightarrow> int64 (PayloadTradeEvent.price p)"
| "payload_fits (OrderInsertedEvent p) \<longleftrightarrow> int64 (PayloadOrderInsertedEvent.price p)"
| "payload_fits (PriceLevelUpdate p) \<longleftrightarrow> int64 (PayloadPriceLevelUpdate.price p)"
| "payload_fits _ \<longleftrightarrow> True"

text \<open>A struct pointer into a buffer, read.\<close>

definition struct_at :: "'a codec \<Rightarrow> ('a \<Rightarrow> Payload) \<Rightarrow> byte list \<Rightarrow> Payload option" where
  "struct_at c K ptr = map_option K (reading c (take (sizeof c) ptr))"

fun payload_size_for_type :: "MessageType \<Rightarrow> nat" where
  "payload_size_for_type DISCONNECT = sizeof PayloadDisconnect_codec"
| "payload_size_for_type INSERT_ORDER = sizeof PayloadInsertOrder_codec"
| "payload_size_for_type CANCEL_ORDER = sizeof PayloadCancelOrder_codec"
| "payload_size_for_type AMEND_ORDER = sizeof PayloadAmendOrder_codec"
| "payload_size_for_type SUBSCRIBE = sizeof PayloadSubscribe_codec"
| "payload_size_for_type UNSUBSCRIBE = sizeof PayloadUnsubscribe_codec"
| "payload_size_for_type ORDER_STATUS_REQUEST = sizeof PayloadOrderStatusRequest_codec"
| "payload_size_for_type ERROR_MSG = sizeof PayloadError_codec"
| "payload_size_for_type CONFIRM_ORDER_INSERTED = sizeof PayloadConfirmOrderInserted_codec"
| "payload_size_for_type CONFIRM_ORDER_CANCELLED = sizeof PayloadConfirmOrderCancelled_codec"
| "payload_size_for_type CONFIRM_ORDER_AMENDED = sizeof PayloadConfirmOrderAmended_codec"
| "payload_size_for_type PARTIAL_FILL_ORDER = sizeof PayloadPartialFill_codec"
| "payload_size_for_type ORDER_STATUS = sizeof PayloadOrderStatus_codec"
| "payload_size_for_type ORDER_BOOK_SNAPSHOT = sizeof PayloadOrderBookSnapshot_codec"
| "payload_size_for_type TRADE_EVENT = sizeof PayloadTradeEvent_codec"
| "payload_size_for_type ORDER_INSERTED_EVENT = sizeof PayloadOrderInsertedEvent_codec"
| "payload_size_for_type ORDER_CANCELLED_EVENT = sizeof PayloadOrderCancelledEvent_codec"
| "payload_size_for_type ORDER_AMENDED_EVENT = sizeof PayloadOrderAmendedEvent_codec"
| "payload_size_for_type PRICE_LEVEL_UPDATE = sizeof PayloadPriceLevelUpdate_codec"
| "payload_size_for_type _ = 0"

text \<open>The maximum as the source computes it, over the sizes it lists.\<close>

definition max_size :: "nat list \<Rightarrow> nat" where
  "max_size sizes = foldl (\<lambda>m s. if m < s then s else m) 0 sizes"

definition MAX_PAYLOAD_SIZE :: nat where
  "MAX_PAYLOAD_SIZE = max_size
    [sizeof PayloadDisconnect_codec, sizeof PayloadInsertOrder_codec, sizeof
     PayloadCancelOrder_codec, sizeof PayloadAmendOrder_codec, sizeof PayloadSubscribe_codec,
     sizeof PayloadUnsubscribe_codec, sizeof PayloadOrderStatusRequest_codec, sizeof
     PayloadError_codec, sizeof PayloadConfirmOrderInserted_codec, sizeof
     PayloadConfirmOrderCancelled_codec, sizeof PayloadConfirmOrderAmended_codec, sizeof
     PayloadPartialFill_codec, sizeof PayloadOrderStatus_codec, sizeof
     PayloadOrderBookSnapshot_codec, sizeof PayloadTradeEvent_codec, sizeof
     PayloadOrderInsertedEvent_codec, sizeof PayloadOrderCancelledEvent_codec, sizeof
     PayloadOrderAmendedEvent_codec, sizeof PayloadPriceLevelUpdate_codec]"

definition MAX_PAYLOAD_SIZE_BUFFER :: nat where
  "MAX_PAYLOAD_SIZE_BUFFER = max_size
    [sizeof PayloadDisconnect_codec, sizeof PayloadInsertOrder_codec, sizeof
     PayloadCancelOrder_codec, sizeof PayloadAmendOrder_codec, sizeof PayloadSubscribe_codec,
     sizeof PayloadUnsubscribe_codec, sizeof PayloadError_codec, sizeof
     PayloadConfirmOrderInserted_codec, sizeof PayloadConfirmOrderCancelled_codec, sizeof
     PayloadConfirmOrderAmended_codec, sizeof PayloadPartialFill_codec, sizeof
     PayloadTradeEvent_codec, sizeof PayloadOrderInsertedEvent_codec, sizeof
     PayloadOrderCancelledEvent_codec, sizeof PayloadOrderAmendedEvent_codec, sizeof
     PayloadPriceLevelUpdate_codec]"

text \<open>\<open>buf\<close> is the caller's buffer with its length, \<open>payload\<close> the bytes the pointer sees; the
  result is the number of bytes written and the buffer.\<close>

definition write_message_to_buffer ::
    "byte list \<Rightarrow> MessageType \<Rightarrow> byte list \<Rightarrow> nat \<times> byte list" where
  "write_message_to_buffer buf t payload =
    (let psize = payload_size_for_type t in
     if length buf < 1 + psize then (0, buf)
     else (1 + psize, type_code t # take psize payload @ drop (1 + psize) buf))"

definition parse_message :: "byte list \<Rightarrow> (MessageType \<times> byte list) option" where
  "parse_message buf =
    (case buf of [] \<Rightarrow> None
     | b # ptr \<Rightarrow>
        (case type_of_code b of None \<Rightarrow> None
         | Some t \<Rightarrow>
            (let psize = payload_size_for_type t in
             if psize = 0 then None
             else if length buf < 1 + psize then None
             else Some (t, ptr))))"

text \<open>The result is what the caller sees through \<open>out_struct\<close>, or \<open>None\<close> inside where an
  enumeration member of it holds a byte that is no enumerator.  There is no case for
  \<open>PRICE_LEVEL_UPDATE\<close>.\<close>

definition parse_message_full :: "byte list \<Rightarrow> (MessageType \<times> Payload option) option" where
  "parse_message_full buf =
    (case parse_message buf of None \<Rightarrow> None
     | Some (t, ptr) \<Rightarrow>
        (case t of
           DISCONNECT \<Rightarrow> Some (t, struct_at PayloadDisconnect_codec Disconnect ptr)
         | INSERT_ORDER \<Rightarrow> Some (t, struct_at PayloadInsertOrder_codec InsertOrder ptr)
         | CANCEL_ORDER \<Rightarrow> Some (t, struct_at PayloadCancelOrder_codec CancelOrder ptr)
         | AMEND_ORDER \<Rightarrow> Some (t, struct_at PayloadAmendOrder_codec AmendOrder ptr)
         | SUBSCRIBE \<Rightarrow> Some (t, struct_at PayloadSubscribe_codec Subscribe ptr)
         | UNSUBSCRIBE \<Rightarrow> Some (t, struct_at PayloadUnsubscribe_codec Unsubscribe ptr)
         | ORDER_STATUS_REQUEST \<Rightarrow> Some (t, struct_at PayloadOrderStatusRequest_codec OrderStatusRequest ptr)
         | ERROR_MSG \<Rightarrow> Some (t, struct_at PayloadError_codec Error ptr)
         | CONFIRM_ORDER_INSERTED \<Rightarrow> Some (t, struct_at PayloadConfirmOrderInserted_codec ConfirmOrderInserted ptr)
         | CONFIRM_ORDER_CANCELLED \<Rightarrow> Some (t, struct_at PayloadConfirmOrderCancelled_codec ConfirmOrderCancelled ptr)
         | CONFIRM_ORDER_AMENDED \<Rightarrow> Some (t, struct_at PayloadConfirmOrderAmended_codec ConfirmOrderAmended ptr)
         | PARTIAL_FILL_ORDER \<Rightarrow> Some (t, struct_at PayloadPartialFill_codec PartialFill ptr)
         | ORDER_STATUS \<Rightarrow> Some (t, struct_at PayloadOrderStatus_codec OrderStatus ptr)
         | ORDER_BOOK_SNAPSHOT \<Rightarrow> Some (t, struct_at PayloadOrderBookSnapshot_codec OrderBookSnapshot ptr)
         | TRADE_EVENT \<Rightarrow> Some (t, struct_at PayloadTradeEvent_codec TradeEvent ptr)
         | ORDER_INSERTED_EVENT \<Rightarrow> Some (t, struct_at PayloadOrderInsertedEvent_codec OrderInsertedEvent ptr)
         | ORDER_CANCELLED_EVENT \<Rightarrow> Some (t, struct_at PayloadOrderCancelledEvent_codec OrderCancelledEvent ptr)
         | ORDER_AMENDED_EVENT \<Rightarrow> Some (t, struct_at PayloadOrderAmendedEvent_codec OrderAmendedEvent ptr)
         | _ \<Rightarrow> None))"
section \<open>Sizes\<close>

lemmas payload_codec_defs =
  PayloadDisconnect_codec_def PayloadInsertOrder_codec_def PayloadCancelOrder_codec_def
  PayloadAmendOrder_codec_def PayloadSubscribe_codec_def PayloadUnsubscribe_codec_def
  PayloadOrderStatusRequest_codec_def PayloadError_codec_def
  PayloadConfirmOrderInserted_codec_def PayloadConfirmOrderCancelled_codec_def
  PayloadConfirmOrderAmended_codec_def PayloadPartialFill_codec_def
  PayloadOrderStatus_codec_def PayloadOrderBookSnapshot_codec_def
  PayloadTradeEvent_codec_def PayloadOrderInsertedEvent_codec_def
  PayloadOrderCancelledEvent_codec_def PayloadOrderAmendedEvent_codec_def
  PayloadPriceLevelUpdate_codec_def

lemma payload_sizes [codec_size]:
  "sizeof PayloadDisconnect_codec = 4"
  "sizeof PayloadInsertOrder_codec = 18"
  "sizeof PayloadCancelOrder_codec = 8"
  "sizeof PayloadAmendOrder_codec = 12"
  "sizeof PayloadSubscribe_codec = 4"
  "sizeof PayloadUnsubscribe_codec = 4"
  "sizeof PayloadOrderStatusRequest_codec = 8"
  "sizeof PayloadError_codec = 46"
  "sizeof PayloadConfirmOrderInserted_codec = 33"
  "sizeof PayloadConfirmOrderCancelled_codec = 29"
  "sizeof PayloadConfirmOrderAmended_codec = 28"
  "sizeof PayloadPartialFill_codec = 36"
  "sizeof PayloadOrderStatus_codec = 45"
  "sizeof PayloadOrderBookSnapshot_codec = 244"
  "sizeof PayloadTradeEvent_codec = 29"
  "sizeof PayloadOrderInsertedEvent_codec = 29"
  "sizeof PayloadOrderCancelledEvent_codec = 20"
  "sizeof PayloadOrderAmendedEvent_codec = 24"
  "sizeof PayloadPriceLevelUpdate_codec = 25"
  by (simp_all add: payload_codec_defs codec_size ERROR_TEXT_LEN_def ORDER_BOOK_MESSAGE_DEPTH_def)

lemmas payload_image_lengths =
  disconnect.image_length insert_order.image_length cancel_order.image_length
  amend_order.image_length subscribe.image_length unsubscribe.image_length
  order_status_request.image_length error.image_length confirm_order_inserted.image_length
  confirm_order_cancelled.image_length confirm_order_amended.image_length
  partial_fill.image_length order_status.image_length order_book_snapshot.image_length
  trade_event.image_length order_inserted_event.image_length
  order_cancelled_event.image_length order_amended_event.image_length
  price_level_update.image_length

lemmas payload_read_prefixes =
  disconnect.read_prefix insert_order.read_prefix cancel_order.read_prefix
  amend_order.read_prefix subscribe.read_prefix unsubscribe.read_prefix
  order_status_request.read_prefix error.read_prefix confirm_order_inserted.read_prefix
  confirm_order_cancelled.read_prefix confirm_order_amended.read_prefix
  partial_fill.read_prefix order_status.read_prefix order_book_snapshot.read_prefix
  trade_event.read_prefix order_inserted_event.read_prefix order_cancelled_event.read_prefix
  order_amended_event.read_prefix price_level_update.read_prefix

lemma max_sizes: "MAX_PAYLOAD_SIZE = 244" "MAX_PAYLOAD_SIZE_BUFFER = 46"
  by (simp_all add: MAX_PAYLOAD_SIZE_def MAX_PAYLOAD_SIZE_BUFFER_def max_size_def codec_size)

lemma payload_size_pos [simp]: "0 < payload_size_for_type (payload_type p)"
  by (cases p) (simp_all add: codec_size)

lemma length_payload_image [simp]:
  "payload_fits p \<Longrightarrow> length (payload_image p) = payload_size_for_type (payload_type p)"
  by (cases p) (simp_all add: payload_image_lengths)

text \<open>The two size bounds the connections rely on are right: no message type has a
  payload above \<open>MAX_PAYLOAD_SIZE\<close>, none but the order book snapshot has one above
  \<open>MAX_PAYLOAD_SIZE_BUFFER\<close> (so also the order status messages fit, which the list the bound
  is computed from leaves out), the snapshot is above it, and the static assertion
  \<open>MAX_PAYLOAD_SIZE_BUFFER <= 64\<close> holds.\<close>

lemma payload_sizes_bounded:
  "payload_size_for_type t \<le> MAX_PAYLOAD_SIZE
    \<and> (MAX_PAYLOAD_SIZE_BUFFER < payload_size_for_type t \<longleftrightarrow> t = ORDER_BOOK_SNAPSHOT)
    \<and> MAX_PAYLOAD_SIZE_BUFFER \<le> 64"
  by (cases t; simp add: max_sizes codec_size)

section \<open>Parsing what was written\<close>

lemma parse_message_Cons:
  assumes "payload_size_for_type t \<noteq> 0"
  shows "parse_message (type_code t # ptr) =
     (if length ptr < payload_size_for_type t then None else Some (t, ptr))"
  using assms by (simp add: parse_message_def)

lemma parse_full_Cons:
  assumes "payload_fits p" "payload_type p \<noteq> PRICE_LEVEL_UPDATE"
  shows "parse_message_full (type_code (payload_type p) # payload_image p @ rest) =
     Some (payload_type p, Some p)"
proof -
  have "parse_message (type_code (payload_type p) # payload_image p @ rest) =
      Some (payload_type p, payload_image p @ rest)"
    using assms(1) by (simp add: parse_message_Cons)
  with assms show ?thesis
    by (cases p) (simp_all add: parse_message_full_def struct_at_def payload_read_prefixes
        del: take_append)
qed



text \<open>C26: The parsers reject what they should.  \<open>parse_message\<close> accepts a buffer exactly when
  its first byte is the code of a message type that has a payload and the whole payload
  follows; \<open>parse_message_full\<close> accepts exactly those that are no price level update.  So
  an empty buffer, an unknown code, a \<open>CONNECT\<close> or a \<open>CONFIRM_CONNECTED\<close>, and a payload cut
  short are all rejected.\<close>

theorem parsers_accept_exactly_the_messages:
  "(parse_message buf \<noteq> None \<longleftrightarrow>
      (\<exists>t. t \<noteq> CONNECT \<and> t \<noteq> CONFIRM_CONNECTED \<and> buf \<noteq> [] \<and> hd buf = type_code t
           \<and> 1 + payload_size_for_type t \<le> length buf))
    \<and> (parse_message_full buf \<noteq> None \<longleftrightarrow>
      (\<exists>t ptr. parse_message buf = Some (t, ptr) \<and> t \<noteq> PRICE_LEVEL_UPDATE))"
proof (rule conjI)
  have size: "payload_size_for_type t = 0 \<longleftrightarrow> t = CONNECT \<or> t = CONFIRM_CONNECTED" for t
    by (cases t) (simp_all add: codec_size)
  have code: "b = type_code t" if "type_of_code b = Some t" for b t
    using that by (auto simp: type_of_code_def find_Some_iff)
  show "parse_message buf \<noteq> None \<longleftrightarrow>
      (\<exists>t. t \<noteq> CONNECT \<and> t \<noteq> CONFIRM_CONNECTED \<and> buf \<noteq> [] \<and> hd buf = type_code t
           \<and> 1 + payload_size_for_type t \<le> length buf)"
  proof (cases buf)
    case (Cons b ptr)
    show ?thesis
    proof (cases "type_of_code b")
      case None
      then have "b \<noteq> type_code t" for t by auto
      with None Cons show ?thesis by (simp add: parse_message_def)
    next
      case (Some t)
      with code have "b = type_code t" by blast
      with Cons show ?thesis
        by (cases "payload_size_for_type t = 0") (auto simp: parse_message_def size Let_def)
    qed
  qed (simp add: parse_message_def)
  have "parse_message buf = Some (t, ptr) \<Longrightarrow> t \<noteq> CONNECT \<and> t \<noteq> CONFIRM_CONNECTED" for t ptr
    by (auto simp: parse_message_def Let_def split: list.splits option.splits if_splits)
  then show "parse_message_full buf \<noteq> None \<longleftrightarrow>
      (\<exists>t ptr. parse_message buf = Some (t, ptr) \<and> t \<noteq> PRICE_LEVEL_UPDATE)"
    by (auto simp: parse_message_full_def split: option.splits MessageType.splits)
qed

text \<open>The text of an error message fits its array: it is always of the declared
  length, ends in a NUL, and read as a C string is the given text cut to 31 characters.\<close>

lemma make_error_text:
  assumes "0 \<notin> set text"
  shows "length (PayloadError.message (make_error i c text ts)) = ERROR_TEXT_LEN
    \<and> last (PayloadError.message (make_error i c text ts)) = 0
    \<and> takeWhile (\<lambda>b. b \<noteq> 0) (PayloadError.message (make_error i c text ts)) = take 31 text"
proof (intro conjI)
  have msg: "PayloadError.message (make_error i c text ts) =
      take 31 text @ replicate (32 - min 31 (length text)) 0"
    by (simp add: make_error_def ERROR_TEXT_LEN_def Let_def min_def)
  show "length (PayloadError.message (make_error i c text ts)) = ERROR_TEXT_LEN"
    by (simp add: msg ERROR_TEXT_LEN_def)
  show "last (PayloadError.message (make_error i c text ts)) = 0"
    by (simp add: msg last_append)
  have "takeWhile (\<lambda>b. b \<noteq> 0) (take 31 text @ replicate k 0) = take 31 text" for k
    using assms by (subst takeWhile_append2) (auto dest: in_set_takeD)
  then show "takeWhile (\<lambda>b. b \<noteq> 0) (PayloadError.message (make_error i c text ts)) = take 31 text"
    by (simp add: msg)
qed

end
