(* ===== verification/Spsc_Queue.thy ===== *)
theory Spsc_Queue
  imports Prelude "HOL-Library.Sublist"
begin

text \<open>
  The single-producer single-consumer ring buffer of src/spsc_queue.hpp.  The two indices
  are 64-bit words that are never reduced: they run through all of \<open>size_t\<close> and wrap, and
  a slot is an index masked with \<open>CapacityPow2 - 1\<close>.  The operations are given twice: as the
  functions the header has, and cut at their atomic loads and stores, so that a producer
  and a consumer can interleave.  The locale \<open>bounded_fifo\<close> is the contract its clients
  (the inboxes and outboxes of the connections and of the exchange) rely on.
\<close>

unbundle bit_operations_syntax

section \<open>The queue and its operations\<close>

type_synonym size_t = "64 word"

record 'a SPSCQueue =
  q_head :: size_t
  q_tail :: size_t
  q_buffer :: "'a list"

text \<open>The class's static assertions on its capacity.\<close>

definition capacity_ok :: "size_t \<Rightarrow> bool" where
  "capacity_ok c \<longleftrightarrow> c AND (c - 1) = 0 \<and> 2 \<le> c"

definition index_mask :: "size_t \<Rightarrow> size_t" where
  "index_mask c = c - 1"

text \<open>A value-initialised queue: both indices zero, \<open>c\<close> default elements.\<close>

definition new_queue :: "size_t \<Rightarrow> 'a \<Rightarrow> 'a SPSCQueue" where
  "new_queue c d = \<lparr>q_head = 0, q_tail = 0, q_buffer = replicate (unat c) d\<rparr>"

definition try_push :: "size_t \<Rightarrow> 'a \<Rightarrow> 'a SPSCQueue \<Rightarrow> bool \<times> 'a SPSCQueue" where
  "try_push c item q =
    (let head = q_head q; tail = q_tail q in
     if c \<le> head - tail then (False, q)
     else (True, q\<lparr>q_buffer := (q_buffer q)[unat (head AND index_mask c) := item], q_head := head + 1\<rparr>))"

definition try_pop :: "size_t \<Rightarrow> 'a SPSCQueue \<Rightarrow> 'a option \<times> 'a SPSCQueue" where
  "try_pop c q =
    (let tail = q_tail q; head = q_head q in
     if tail = head then (None, q)
     else (Some (q_buffer q ! unat (tail AND index_mask c)), q\<lparr>q_tail := tail + 1\<rparr>))"

definition peek :: "size_t \<Rightarrow> 'a SPSCQueue \<Rightarrow> 'a option" where
  "peek c q =
    (let tail = q_tail q; head = q_head q in
     if tail = head then None else Some (q_buffer q ! unat (tail AND index_mask c)))"

definition consume_one :: "'a SPSCQueue \<Rightarrow> bool \<times> 'a SPSCQueue" where
  "consume_one q =
    (let tail = q_tail q; head = q_head q in
     if tail = head then (False, q) else (True, q\<lparr>q_tail := tail + 1\<rparr>))"

definition size_approx :: "'a SPSCQueue \<Rightarrow> size_t" where
  "size_approx q = q_head q - q_tail q"

section \<open>What the queue holds\<close>

definition slot :: "size_t \<Rightarrow> size_t \<Rightarrow> nat" where
  "slot c i = unat (i AND index_mask c)"

definition queue_inv :: "size_t \<Rightarrow> 'a SPSCQueue \<Rightarrow> bool" where
  "queue_inv c q \<longleftrightarrow>
     capacity_ok c \<and> length (q_buffer q) = unat c \<and> q_head q - q_tail q \<le> c"

definition contents :: "size_t \<Rightarrow> 'a SPSCQueue \<Rightarrow> 'a list" where
  "contents c q =
     map (\<lambda>i. q_buffer q ! slot c (q_tail q + of_nat i)) [0..<unat (q_head q - q_tail q)]"

section \<open>Indices modulo a power of two\<close>

lemma and_pred_zero_nat:
  "n AND (n - 1) = 0 \<Longrightarrow> 0 < n \<Longrightarrow> \<exists>k. n = 2 ^ k" for n :: nat
proof (induction n rule: less_induct)
  case (less n)
  show ?case
  proof (cases "even n")
    case True
    then obtain m where n: "n = 2 * m" by blast
    with less.prems have m: "0 < m" "m < n" by simp_all
    then obtain p where p: "m = Suc p" by (cases m) auto
    have "n AND (n - 1) = 2 * (m AND (m - 1))"
      by (simp add: n p and_nat_rec [of "Suc (Suc (2 * p))"])
    with less.prems have "m AND (m - 1) = 0" by simp
    from less.IH [OF m(2) this m(1)] obtain k where "m = 2 ^ k" by blast
    with n have "n = 2 ^ Suc k" by simp
    then show ?thesis by blast
  next
    case False
    then obtain m where n: "n = 2 * m + 1" by (blast elim: oddE)
    have "n AND (n - 1) = 2 * m"
      by (simp add: n and_nat_rec [of "Suc (2 * m)"])
    with less.prems n have "n = 2 ^ 0" by simp
    then show ?thesis by blast
  qed
qed

lemma capacity_power: 
  assumes "capacity_ok c"
  obtains k where "c = 2 ^ k" "k < 64" "unat c = 2 ^ k"
proof -
  have pos: "1 \<le> c" "0 < unat c"
    using assms by (auto simp: capacity_ok_def word_le_nat_alt)
  have "unat (c AND (c - 1)) = unat c AND (unat c - 1)"
    using pos by (simp add: unsigned_and_eq unat_sub)
  with assms have "unat c AND (unat c - 1) = 0" by (simp add: capacity_ok_def)
  with pos obtain k where k: "unat c = 2 ^ k" using and_pred_zero_nat by blast
  have "unat c < 2 ^ 64" using unat_less_2p [of c] by simp
  with k have "k < 64" by (metis power_less_imp_less_exp one_less_numeral_iff semiring_norm(76))
  moreover have "c = of_nat (unat c)" by simp
  then have "c = 2 ^ k" unfolding k by simp
  ultimately show thesis using that k by blast
qed

lemma capacity_pos: "capacity_ok c \<Longrightarrow> 0 < unat c"
  by (auto simp: capacity_ok_def word_le_nat_alt)

lemma slot_mod:
  assumes "capacity_ok c"
  shows "slot c (i + of_nat n) = (unat i + n) mod unat c"
proof -
  obtain k where k: "c = 2 ^ k" "k < 64" "unat c = 2 ^ k"
    using capacity_power [OF assms] by blast
  have "slot c w = unat w mod 2 ^ k" for w
    unfolding slot_def index_mask_def k(1)
    by (simp add: take_bit_eq_mask [symmetric] mask_eq_exp_minus_1 [symmetric] unat_mod take_bit_eq_mod
        k(3) [unfolded k(1)])
  moreover have "(2::nat) ^ k dvd 2 ^ 64" by (rule le_imp_power_dvd) (use k in simp)
  then have "unat (i + of_nat n) mod 2 ^ k = (unat i + n) mod 2 ^ k"
    by (simp add: unat_word_ariths unat_of_nat mod_mod_cancel mod_simps del: power_numeral) 
  ultimately show ?thesis using k by simp
qed

lemma slot_bound: "capacity_ok c \<Longrightarrow> slot c i < unat c"
  using slot_mod [of c i 0] capacity_pos [of c] by simp

lemma mod_add_inj_nat:
  assumes "(i + a) mod n = (i + b) mod n" "a < n" "b < n"
  shows "a = (b :: nat)"
proof -
  have "x = y" if "(i + x) mod n = (i + y) mod n" "y < n" "x \<le> y" for x y
  proof -
    have "n dvd (i + y) - (i + x)"
      using that by (subst mod_eq_dvd_iff_nat [symmetric]) simp_all
    then have "n dvd y - x" by simp
    with that show "x = y" by (auto dest: dvd_imp_le)
  qed
  from this [of a b] this [of b a] assms show ?thesis by (cases "a \<le> b") simp_all
qed

lemma slot_distinct:
  assumes "capacity_ok c" "a < unat c" "b < unat c"
    and "slot c (i + of_nat a) = slot c (i + of_nat b)"
  shows "a = b"
  using assms by (intro mod_add_inj_nat [of "unat i" a "unat c" b]) (simp_all add: slot_mod)

section \<open>The bounded-queue contract\<close>

text \<open>
  What a client may rely on, in terms of the list the queue holds: an operation answers as
  the list says and leaves the list the operation promises, and never more than the
  capacity is held.
\<close>

locale bounded_fifo =
  fixes inv :: "'q \<Rightarrow> bool" and items :: "'q \<Rightarrow> 'a list" and bound :: nat
    and push :: "'a \<Rightarrow> 'q \<Rightarrow> bool \<times> 'q" and pop :: "'q \<Rightarrow> 'a option \<times> 'q"
  assumes items_bound: "inv q \<Longrightarrow> length (items q) \<le> bound"
    and push_full: "inv q \<Longrightarrow> length (items q) = bound \<Longrightarrow> push x q = (False, q)"
    and push_room: "inv q \<Longrightarrow> length (items q) < bound \<Longrightarrow>
           fst (push x q) \<and> inv (snd (push x q)) \<and> items (snd (push x q)) = items q @ [x]"
    and pop_empty: "inv q \<Longrightarrow> items q = [] \<Longrightarrow> pop q = (None, q)"
    and pop_front: "inv q \<Longrightarrow> items q = x # xs \<Longrightarrow>
           fst (pop q) = Some x \<and> inv (snd (pop q)) \<and> items (snd (pop q)) = xs"
begin

text \<open>Pushing a list, stopping nowhere: each element is accepted or dropped.\<close>

fun push_all :: "'a list \<Rightarrow> 'q \<Rightarrow> bool list \<times> 'q" where
  "push_all [] q = ([], q)"
| "push_all (x # xs) q =
     (let (b, q1) = push x q; (bs, q2) = push_all xs q1 in (b # bs, q2))"

fun pop_all :: "nat \<Rightarrow> 'q \<Rightarrow> 'a list \<times> 'q" where
  "pop_all 0 q = ([], q)"
| "pop_all (Suc n) q =
     (case pop q of (None, q1) \<Rightarrow> ([], q1)
      | (Some x, q1) \<Rightarrow> let (xs, q2) = pop_all n q1 in (x # xs, q2))"

lemma push_inv: "inv q \<Longrightarrow> inv (snd (push x q))"
  using push_room [of q x] push_full [of q x] items_bound [of q] by fastforce

lemma pop_inv: "inv q \<Longrightarrow> inv (snd (pop q))"
  using pop_front [of q] pop_empty [of q] by (cases "items q") auto

lemma push_all_room:
  "inv q \<Longrightarrow> length (items q) + length xs \<le> bound \<Longrightarrow>
     inv (snd (push_all xs q)) \<and> items (snd (push_all xs q)) = items q @ xs
     \<and> fst (push_all xs q) = replicate (length xs) True"
proof (induction xs arbitrary: q)
  case (Cons x xs)
  obtain b q1 where p: "push x q = (b, q1)" by fastforce
  from push_room [of q x] Cons.prems p
  have "b" "inv q1" "items q1 = items q @ [x]" by auto
  with Cons.IH [of q1] Cons.prems p show ?case by (auto split: prod.splits)
qed simp

lemma pop_all_items:
  "inv q \<Longrightarrow> inv (snd (pop_all n q)) \<and> fst (pop_all n q) = take n (items q)
     \<and> items (snd (pop_all n q)) = drop n (items q)"
proof (induction n arbitrary: q)
  case (Suc n)
  show ?case
  proof (cases "items q")
    case Nil
    with Suc.prems pop_empty [of q] show ?thesis by simp
  next
    case (Cons x xs)
    obtain o1 q1 where p: "pop q = (o1, q1)" by fastforce
    from pop_front [OF Suc.prems Cons] p
    have "o1 = Some x" "inv q1" "items q1 = xs" by auto
    with Suc.IH [of q1] p Cons show ?thesis by (auto split: prod.splits)
  qed
qed simp

lemma push_then_pop_all:
  assumes "inv q" "items q = []" "length xs \<le> bound"
  shows "fst (pop_all (length xs) (snd (push_all xs q))) = xs"
  using push_all_room [of q xs] pop_all_items [of "snd (push_all xs q)" "length xs"] assms
  by simp

end

section \<open>The ring buffer keeps the contract\<close>

lemma length_contents [simp]: "length (contents c q) = unat (size_approx q)"
  by (simp add: contents_def size_approx_def)

lemma new_queue_inv: "capacity_ok c \<Longrightarrow> queue_inv c (new_queue c d)"
  by (simp add: queue_inv_def new_queue_def)

lemma contents_new_queue [simp]: "contents c (new_queue c d) = []"
  by (simp add: contents_def new_queue_def)

lemma contents_empty_iff: "contents c q = [] \<longleftrightarrow> q_tail q = q_head q"
  by (auto simp: contents_def unat_eq_zero)

lemma inv_size: "queue_inv c q \<Longrightarrow> unat (q_head q - q_tail q) \<le> unat c"
  by (simp add: queue_inv_def word_le_nat_alt)

text \<open>Writing the slot at \<open>q_head\<close> of a queue with room changes none of the held items, and
  advancing \<open>q_head\<close> then makes it the last of them, also where the index wraps.\<close>

lemma unat_Suc_diff:
  fixes h t c :: size_t
  assumes "unat (h - t) < unat c"
  shows "unat (h + 1 - t) = Suc (unat (h - t))"
proof -
  have eq: "h + 1 - t = (h - t) + 1" by simp
  have "unat (h - t) + 1 < 2 ^ 64"
    using assms unat_less_2p [of c] by simp
  then show ?thesis unfolding eq using unat_add_bounded [of "h - t" 1] by simp
qed

lemma write_keeps_contents:
  assumes "queue_inv c q" "unat (q_head q - q_tail q) < unat c"
  shows "contents c (q\<lparr>q_buffer := (q_buffer q)[slot c (q_head q) := x]\<rparr>) = contents c q"
proof -
  have cap: "capacity_ok c" using assms by (simp add: queue_inv_def)
  have h: "q_head q = q_tail q + of_nat (unat (q_head q - q_tail q))" by simp
  have "slot c (q_head q) \<noteq> slot c (q_tail q + of_nat i)"
    if "i < unat (q_head q - q_tail q)" for i
    using slot_distinct [OF cap, of i "unat (q_head q - q_tail q)" "q_tail q"] that assms h
    by auto
  then show ?thesis by (simp add: contents_def nth_list_update_neq)
qed

lemma store_appends:
  assumes "queue_inv c q" "unat (q_head q - q_tail q) < unat c"
  shows "contents c (q\<lparr>q_head := q_head q + 1\<rparr>) = contents c q @ [q_buffer q ! slot c (q_head q)]"
  using unat_Suc_diff [OF assms(2)] by (simp add: contents_def)

lemma store_inv:
  assumes "queue_inv c q" "unat (q_head q - q_tail q) < unat c"
  shows "queue_inv c (q\<lparr>q_head := q_head q + 1\<rparr>)"
  using assms unat_Suc_diff [OF assms(2)] by (simp add: queue_inv_def word_le_nat_alt)

lemma write_inv [simp]:
  "queue_inv c (q\<lparr>q_buffer := (q_buffer q)[i := x]\<rparr>) \<longleftrightarrow> queue_inv c q"
  by (simp add: queue_inv_def)

lemma contents_front:
  assumes "q_tail q \<noteq> q_head q"
  shows "contents c q = q_buffer q ! slot c (q_tail q) # contents c (q\<lparr>q_tail := q_tail q + 1\<rparr>)"
proof -
  have eq: "q_head q - (q_tail q + 1) = (q_head q - q_tail q) - 1" by simp
  have nz: "1 \<le> q_head q - q_tail q" using assms by (simp add: word_le_nat_alt Suc_le_eq unat_gt_0)
  then have "unat (q_head q - q_tail q) = Suc (unat (q_head q - (q_tail q + 1)))"
    unfolding eq using unat_sub [OF nz] by (simp add: word_le_nat_alt)
  then show ?thesis
    by (simp add: contents_def upt_conv_Cons map_Suc_upt [symmetric] ac_simps del: upt_Suc)
qed

lemma advance_inv:
  assumes "queue_inv c q" "q_tail q \<noteq> q_head q"
  shows "queue_inv c (q\<lparr>q_tail := q_tail q + 1\<rparr>)"
  using assms inv_size [OF assms(1)] arg_cong [OF contents_front [OF assms(2), of c], of length]
  by (simp add: queue_inv_def word_le_nat_alt size_approx_def)

lemma try_push_room:
  assumes "queue_inv c q" "unat (q_head q - q_tail q) < unat c"
  shows "fst (try_push c x q)" "queue_inv c (snd (try_push c x q))"
    "contents c (snd (try_push c x q)) = contents c q @ [x]"
proof -
  define q1 where "q1 = q\<lparr>q_buffer := (q_buffer q)[slot c (q_head q) := x]\<rparr>"
  have nfull: "\<not> c \<le> q_head q - q_tail q" using assms by (simp add: word_le_nat_alt)
  then have push: "try_push c x q = (True, q1\<lparr>q_head := q_head q1 + 1\<rparr>)"
    by (simp add: try_push_def Let_def q1_def slot_def)
  have q1: "queue_inv c q1" "unat (q_head q1 - q_tail q1) < unat c"
    using assms by (simp_all add: q1_def)
  have "slot c (q_head q) < length (q_buffer q)"
    using assms slot_bound [of c "q_head q"] by (simp add: queue_inv_def)
  then have "q_buffer q1 ! slot c (q_head q1) = x" by (simp add: q1_def)
  with store_appends [OF q1] write_keeps_contents [OF assms, of x] push
  show "contents c (snd (try_push c x q)) = contents c q @ [x]" by (simp add: q1_def)
  show "fst (try_push c x q)" "queue_inv c (snd (try_push c x q))"
    using push store_inv [OF q1] by simp_all
qed

interpretation ring: bounded_fifo "queue_inv c" "contents c" "unat c" "try_push c" "try_pop c" for c
proof
  fix q :: "'a SPSCQueue" and x :: 'a and xs :: "'a list"
  assume inv: "queue_inv c q"
  show "length (contents c q) \<le> unat c"
    using inv_size [OF inv] by (simp add: size_approx_def)
  show "try_push c x q = (False, q)" if "length (contents c q) = unat c"
    using that by (simp add: try_push_def Let_def size_approx_def word_le_nat_alt)
  show "fst (try_push c x q) \<and> queue_inv c (snd (try_push c x q))
          \<and> contents c (snd (try_push c x q)) = contents c q @ [x]"
    if "length (contents c q) < unat c"
    using try_push_room [OF inv] that by (simp add: size_approx_def)
  show "try_pop c q = (None, q)" if "contents c q = []"
    using that by (simp add: contents_empty_iff try_pop_def)
  show "fst (try_pop c q) = Some x \<and> queue_inv c (snd (try_pop c q))
          \<and> contents c (snd (try_pop c q)) = xs" if "contents c q = x # xs"
  proof -
    have "q_tail q \<noteq> q_head q" using that contents_empty_iff [of c q] by force
    with contents_front [OF this, of c] that advance_inv [OF inv this] show ?thesis
      by (simp add: try_pop_def Let_def slot_def)
  qed
qed

text \<open>\<open>peek\<close> and \<open>consume_one\<close> are the two halves of \<open>try_pop\<close>.\<close>

lemma peek_consume_try_pop:
  "try_pop c q = (peek c q, snd (consume_one q))" "fst (consume_one q) \<longleftrightarrow> peek c q \<noteq> None"
  by (simp_all add: try_pop_def peek_def consume_one_def Let_def)

text \<open>C19: The ring buffer of src/spsc_queue.hpp is a first-in first-out queue of at most
  \<open>CapacityPow2\<close> elements, whatever its two indices are, also where they wrap past the end
  of \<open>size_t\<close>: a push is accepted exactly when there is room and appends, a pop returns and
  removes the oldest element and fails exactly on an empty queue, \<open>peek\<close> and \<open>consume_one\<close>
  agree with it, and \<open>size_approx\<close> is the number of elements.\<close>

theorem ring_buffer_is_a_bounded_fifo:
  assumes "queue_inv c q"
  shows "(fst (try_push c x q) \<longleftrightarrow> length (contents c q) < unat c)
    \<and> contents c (snd (try_push c x q)) =
           (if length (contents c q) < unat c then contents c q @ [x] else contents c q)
    \<and> queue_inv c (snd (try_push c x q)) \<and> queue_inv c (snd (try_pop c q))
    \<and> fst (try_pop c q) = (case contents c q of [] \<Rightarrow> None | y # ys \<Rightarrow> Some y)
    \<and> contents c (snd (try_pop c q)) = tl (contents c q)
    \<and> peek c q = fst (try_pop c q) \<and> snd (consume_one q) = snd (try_pop c q)
    \<and> unat (size_approx q) = length (contents c q)"
proof (intro conjI)
  have full: "length (contents c q) = unat c" if "\<not> length (contents c q) < unat c"
    using ring.items_bound [OF assms] that by simp
  show "fst (try_push c x q) \<longleftrightarrow> length (contents c q) < unat c"
    "contents c (snd (try_push c x q)) =
       (if length (contents c q) < unat c then contents c q @ [x] else contents c q)"
    using ring.push_room [OF assms, of x] ring.push_full [OF assms full, of x]
    by (cases "length (contents c q) < unat c"; simp)+
  show "queue_inv c (snd (try_push c x q))" "queue_inv c (snd (try_pop c q))"
    using ring.push_inv [OF assms] ring.pop_inv [OF assms] by blast+
  show "fst (try_pop c q) = (case contents c q of [] \<Rightarrow> None | y # ys \<Rightarrow> Some y)"
    "contents c (snd (try_pop c q)) = tl (contents c q)"
    using ring.pop_empty [OF assms] ring.pop_front [OF assms]
    by (auto split: list.split) (cases "contents c q"; auto)
qed (simp_all add: peek_consume_try_pop)

definition wrapping_queue :: "nat SPSCQueue" where
  "wrapping_queue = \<lparr>q_head = 0, q_tail = - 1, q_buffer = [4, 7]\<rparr>"

lemma wrapping_queue_eval:
  "queue_inv 2 wrapping_queue" "contents 2 wrapping_queue = [7]"
  by (simp_all add: queue_inv_def capacity_ok_def wrapping_queue_def contents_def slot_def
      index_mask_def)

theorem ring_buffer_is_a_bounded_fifo_witness:
  "contents 2 (snd (try_push 2 9 wrapping_queue)) = [7, 9]
   \<and> fst (try_pop 2 wrapping_queue) = Some 7"
  using ring_buffer_is_a_bounded_fifo [OF wrapping_queue_eval(1), of 9]
  by (simp add: wrapping_queue_eval flip: length_contents)

end
