(* ===== verification/Connectivity.thy ===== *)
theory Connectivity
  imports Messages Spsc_Queue
begin

text \<open>
  A client connection of src/connectivity.hpp and src/connectivity.cpp.  Its state is the record
  \<open>Connection\<close>; each handler is a function on it.  What a handler asks of Boost.Asio and of
  the callbacks is a list of \<open>IoAction\<close>s in the order the code issues them: starting a read
  or a write, posting a task to the strand, closing the socket, calling a callback.  The
  tasks the strand runs later are the functions \<open>drain_writes\<close>, \<open>inbound_ready_task\<close> and
  \<open>unbuffered_task\<close>.  Log output is not modelled.
\<close>

unbundle bit_operations_syntax

section \<open>The wire format of a frame\<close>

definition READ_SIZE :: nat where
  "READ_SIZE = 65535"

definition WIRE_HEADER_SIZE :: nat where
  "WIRE_HEADER_SIZE = 1 + 2"

definition OUT_BATCH_SIZE :: nat where
  "OUT_BATCH_SIZE = 64 * 1024"

definition INBOUND_Q_CAP :: size_t where
  "INBOUND_Q_CAP = 16384"

definition OUTBOUND_Q_CAP :: size_t where
  "OUTBOUND_Q_CAP = 65536"

definition write_u16_be :: "16 word \<Rightarrow> byte list" where
  "write_u16_be v = [ucast (drop_bit 8 v AND 0xFF), ucast (v AND 0xFF)]"

text \<open>The two bytes at \<open>src\<close>; the shift is on \<open>int\<close>, the result is cut to 16 bits.\<close>

definition read_u16_be :: "byte \<Rightarrow> byte \<Rightarrow> 16 word" where
  "read_u16_be b0 b1 = push_bit 8 (ucast b0) OR ucast b1"

section \<open>Messages and the state of a connection\<close>

record InboundMessage =
  connection_id :: Id_t
  message_type :: Message_t
  payload_size :: "16 word"
  payload :: "byte list"

record OutboundMessage =
  connection_id :: Id_t
  message_type :: Message_t
  payload_size :: "16 word"
  payload :: "byte list"

text \<open>A value-initialised payload array with the first bytes copied over it.\<close>

definition payload_array :: "byte list \<Rightarrow> byte list" where
  "payload_array bs = bs @ replicate (MAX_PAYLOAD_SIZE_BUFFER - length bs) 0"

type_synonym InboundQueue = "InboundMessage SPSCQueue"
type_synonym OutboundQueue = "OutboundMessage SPSCQueue"

text \<open>
  \<open>in_accum\<close> holds the first \<open>in_used_\<close> bytes of the accumulator and \<open>in_size\<close> is the length of
  the vector; \<open>out_batch\<close> holds the first \<open>out_batch_len_\<close> bytes of the batch array.  Of the
  callbacks the record has whether they are set.
\<close>

record Connection =
  conn_id :: Id_t
  socket_open :: bool
  in_accum :: "byte list"
  in_size :: nat
  outbound :: OutboundQueue
  out_batch :: "byte list"
  out_batch_sent :: nat
  write_in_progress :: bool
  write_wakeup_pending :: bool
  disconnect_notified :: bool
  inbound_ready_pending :: bool
  disconnected_set :: bool
  large_message_received_set :: bool
  inbound_ready_set :: bool

definition Connection_init :: "Id_t \<Rightarrow> OutboundQueue \<Rightarrow> Connection" where
  "Connection_init i outbound_from_engine =
    \<lparr>conn_id = i, socket_open = True, in_accum = [], in_size = READ_SIZE * 2,
     outbound = outbound_from_engine, out_batch = [], out_batch_sent = 0,
     write_in_progress = False, write_wakeup_pending = False, disconnect_notified = False,
     inbound_ready_pending = False, disconnected_set = False,
     large_message_received_set = False, inbound_ready_set = False\<rparr>"

datatype IoAction =
    Start_Read
  | Start_Write "byte list"
  | Post_Drain_Writes
  | Post_Inbound_Ready
  | Post_Unbuffered "byte list"
  | Async_Write "byte list"
  | Close_Socket
  | Call_Disconnected
  | Call_Inbound_Ready
  | Call_Large_Message Id_t Message_t "byte list"

section \<open>Notifications\<close>

definition close :: "Connection \<Rightarrow> Connection \<times> IoAction list" where
  "close c = (c\<lparr>socket_open := False\<rparr>, [Close_Socket])"

definition notify_disconnect_once :: "Connection \<Rightarrow> Connection \<times> IoAction list" where
  "notify_disconnect_once c =
    (if disconnect_notified c then (c, [])
     else let (c1, acts) = close (c\<lparr>disconnect_notified := True\<rparr>)
          in (c1, acts @ (if disconnected_set c1 then [Call_Disconnected] else [])))"

definition notify_inbound_ready :: "Connection \<Rightarrow> Connection \<times> IoAction list" where
  "notify_inbound_ready c =
    (if \<not> inbound_ready_set c then (c, [])
     else if inbound_ready_pending c then (c, [])
     else (c\<lparr>inbound_ready_pending := True\<rparr>, [Post_Inbound_Ready]))"

definition inbound_ready_task :: "Connection \<Rightarrow> Connection \<times> IoAction list" where
  "inbound_ready_task c =
    (c\<lparr>inbound_ready_pending := False\<rparr>,
     if inbound_ready_set c \<and> \<not> disconnect_notified c then [Call_Inbound_Ready] else [])"

section \<open>Reading\<close>

text \<open>The loop that doubles the accumulator's size; from size zero it would not end.\<close>

partial_function (option) grow :: "nat \<Rightarrow> nat \<Rightarrow> nat option" where
  "grow new_sz need = (if new_sz < need then grow (new_sz * 2) need else Some new_sz)"

lemma notify_inbound_ready_accum [simp]:
  "in_accum (fst (notify_inbound_ready c)) = in_accum c"
  by (simp add: notify_inbound_ready_def)

text \<open>How the frame loop of \<open>parse_accumulator_\<close> ended: by \<open>break\<close>, with the bytes consumed,
  or by \<open>return\<close> after a disconnect.\<close>

datatype parse_end = Parsed nat | Gave_Up

function parse_loop ::
    "Connection \<Rightarrow> InboundQueue \<Rightarrow> nat \<Rightarrow> parse_end \<times> Connection \<times> InboundQueue \<times> IoAction list"
where
  "parse_loop c inq offset =
    (if length (in_accum c) - offset < WIRE_HEADER_SIZE then (Parsed offset, c, inq, [])
     else let type_u8 = in_accum c ! (offset + 0);
              psz = read_u16_be (in_accum c ! (offset + 1)) (in_accum c ! (offset + 2));
              frame_sz = WIRE_HEADER_SIZE + unat psz
     in if length (in_accum c) - offset < frame_sz then (Parsed offset, c, inq, [])
     else if MAX_PAYLOAD_SIZE < unat psz then
       (let (c1, acts) = notify_disconnect_once c in (Gave_Up, c1, inq, acts))
     else let bytes = take (unat psz) (drop (offset + WIRE_HEADER_SIZE) (in_accum c))
     in if unat psz \<le> MAX_PAYLOAD_SIZE_BUFFER then
       (let msg = \<lparr>InboundMessage.connection_id = conn_id c, message_type = type_u8,
                   payload_size = psz, payload = payload_array bytes\<rparr>;
            (pushed, inq1) = try_push INBOUND_Q_CAP msg inq
        in if \<not> pushed then
             (let (c1, acts) = notify_disconnect_once c in (Gave_Up, c1, inq1, acts))
           else let c1 = fst (notify_inbound_ready c);
                    (e, c2, inq2, acts) = parse_loop c1 inq1 (offset + frame_sz)
                in (e, c2, inq2, snd (notify_inbound_ready c) @ acts))
     else let (e, c2, inq2, acts) = parse_loop c inq (offset + frame_sz)
          in (e, c2, inq2,
              (if large_message_received_set c then [Call_Large_Message (conn_id c) type_u8 bytes] else [])
              @ acts))"
  by pat_completeness auto

termination
  by (relation "measure (\<lambda>(c, inq, offset). length (in_accum c) - offset)")
    (auto simp: WIRE_HEADER_SIZE_def)

definition parse_accumulator ::
    "Connection \<Rightarrow> InboundQueue \<Rightarrow> Connection \<times> InboundQueue \<times> IoAction list" where
  "parse_accumulator c inq =
    (case parse_loop c inq 0 of
       (Gave_Up, c1, inq1, acts) \<Rightarrow> (c1, inq1, acts)
     | (Parsed offset, c1, inq1, acts) \<Rightarrow>
        (c1\<lparr>in_accum := drop offset (in_accum c1)\<rparr>, inq1, acts))"

text \<open>\<open>read\<close> is what the socket delivered: an error, or the bytes now in \<open>read_tmp_\<close>.\<close>

definition handle_read ::
    "Connection \<Rightarrow> InboundQueue \<Rightarrow> byte list option \<Rightarrow>
       (Connection \<times> InboundQueue \<times> IoAction list) option" where
  "handle_read c inq received =
    (case received of None \<Rightarrow>
       (let (c1, acts) = notify_disconnect_once c in Some (c1, inq, acts))
     | Some bytes \<Rightarrow> do {
         new_sz \<leftarrow> (if in_size c < length (in_accum c) + length bytes
                    then grow (in_size c) (length (in_accum c) + length bytes)
                    else Some (in_size c));
         let (c1, inq1, acts) =
           parse_accumulator (c\<lparr>in_size := new_sz, in_accum := in_accum c @ bytes\<rparr>) inq;
         Some (c1, inq1, acts @ (if \<not> disconnect_notified c1 then [Start_Read] else [])) })"

section \<open>Writing\<close>

definition schedule_drain_writes :: "Connection \<Rightarrow> Connection \<times> IoAction list" where
  "schedule_drain_writes c =
    (if \<not> write_wakeup_pending c
     then (c\<lparr>write_wakeup_pending := True\<rparr>, [Post_Drain_Writes]) else (c, []))"

text \<open>The size of a message type given by its code, as \<open>payload_size_for_type\<close> answers a cast
  of any byte.\<close>

definition payload_size_for_code :: "Message_t \<Rightarrow> nat" where
  "payload_size_for_code b = (case type_of_code b of None \<Rightarrow> 0 | Some t \<Rightarrow> payload_size_for_type t)"

definition send_message ::
    "Connection \<Rightarrow> Message_t \<Rightarrow> byte list \<Rightarrow> Connection \<times> IoAction list" where
  "send_message c type bytes =
    (let psz = payload_size_for_code type in
     if MAX_PAYLOAD_SIZE_BUFFER < psz then (c, [])
     else let msg = \<lparr>OutboundMessage.connection_id = conn_id c, message_type = type,
                     payload_size = of_nat psz, payload = payload_array (take psz bytes)\<rparr>;
              (pushed, q) = try_push OUTBOUND_Q_CAP msg (outbound c)
          in if \<not> pushed then (c\<lparr>outbound := q\<rparr>, [])
             else schedule_drain_writes (c\<lparr>outbound := q\<rparr>))"

text \<open>The pointer may be null; it is followed only as far as \<open>payload_size\<close> says.\<close>

definition send_message_unbuffered ::
    "Connection \<Rightarrow> Message_t \<Rightarrow> byte list option \<Rightarrow> 16 word \<Rightarrow> Connection \<times> IoAction list" where
  "send_message_unbuffered c type ptr psz =
    (if psz = 0 \<or> ptr = None then (c, [])
     else (c, [Post_Unbuffered
            ([type, ucast (drop_bit 8 psz AND 0xFF), ucast (psz AND 0xFF)]
             @ take (unat psz) (the ptr))]))"

definition unbuffered_task :: "Connection \<Rightarrow> byte list \<Rightarrow> Connection \<times> IoAction list" where
  "unbuffered_task c buffer = (c, if \<not> socket_open c then [] else [Async_Write buffer])"

definition unbuffered_done :: "Connection \<Rightarrow> bool \<Rightarrow> Connection \<times> IoAction list" where
  "unbuffered_done c failed = (if failed then notify_disconnect_once c else (c, []))"

definition frame_of :: "OutboundMessage \<Rightarrow> byte list" where
  "frame_of m = OutboundMessage.message_type m # write_u16_be (OutboundMessage.payload_size m)
     @ take (unat (OutboundMessage.payload_size m)) (OutboundMessage.payload m)"

lemma consume_one_smaller:
  assumes "peek c q = Some m"
  shows "unat (q_head (snd (consume_one q)) - q_tail (snd (consume_one q)))
           < unat (q_head q - q_tail q)"
proof -
  have ne: "q_tail q \<noteq> q_head q" using assms by (auto simp: peek_def)
  from arg_cong [OF contents_front [OF ne, of c], of length] ne show ?thesis
    by (simp add: consume_one_def size_approx_def)
qed

text \<open>The loop of \<open>drain_writes_\<close> that moves frames from the queue to the batch.\<close>

function drain_loop :: "OutboundQueue \<Rightarrow> byte list \<Rightarrow> OutboundQueue \<times> byte list" where
  "drain_loop q batch =
    (case peek OUTBOUND_Q_CAP q of None \<Rightarrow> (q, batch)
     | Some m \<Rightarrow>
        (let psz = OutboundMessage.payload_size m;
             frame_sz = WIRE_HEADER_SIZE + unat psz
         in if OUT_BATCH_SIZE < length batch + frame_sz then (q, batch)
            else drain_loop (snd (consume_one q))
              (batch @ [OutboundMessage.message_type m] @ write_u16_be psz
               @ take (unat psz) (OutboundMessage.payload m))))"
  by pat_completeness auto

termination
  by (relation "measure (\<lambda>(q, batch). unat (q_head q - q_tail q))")
    (auto intro: consume_one_smaller)

definition start_write :: "Connection \<Rightarrow> Connection \<times> IoAction list" where
  "start_write c =
    (c\<lparr>write_in_progress := True\<rparr>, [Start_Write (drop (out_batch_sent c) (out_batch c))])"

definition drain_writes :: "Connection \<Rightarrow> Connection \<times> IoAction list" where
  "drain_writes c0 =
    (let c = c0\<lparr>write_wakeup_pending := False\<rparr> in
     if write_in_progress c then (c, [])
     else let (q, batch) = drain_loop (outbound c) [];
              c1 = c\<lparr>out_batch := batch, out_batch_sent := 0, outbound := q\<rparr>
          in if length batch = 0 then (c1, []) else start_write c1)"

text \<open>\<open>written\<close> is what the socket reports: an error, or the number of bytes taken.\<close>

definition handle_write :: "Connection \<Rightarrow> nat option \<Rightarrow> Connection \<times> IoAction list" where
  "handle_write c written =
    (case written of None \<Rightarrow> notify_disconnect_once (c\<lparr>write_in_progress := False\<rparr>)
     | Some n \<Rightarrow>
        (let c1 = c\<lparr>out_batch_sent := out_batch_sent c + n\<rparr> in
         if out_batch_sent c1 < length (out_batch c1) then start_write c1
         else let c2 = c1\<lparr>write_in_progress := False\<rparr> in
           if peek OUTBOUND_Q_CAP (outbound c2) \<noteq> None then drain_writes c2
           else if write_wakeup_pending c2 then drain_writes (c2\<lparr>write_wakeup_pending := False\<rparr>)
           else (c2, [])))"

declare parse_loop.simps [simp del] drain_loop.simps [simp del]

end
