(* ===== verification/Connectivity_Read.thy ===== *)
theory Connectivity_Read
  imports Connectivity
begin

text \<open>
  What a connection makes of a byte stream.  \<open>deframe\<close> cuts a stream into its complete frames
  and a rest, \<open>deliver\<close> hands frames to the engine one by one until one has to be refused;
  together they specify \<open>parse_accumulator_\<close> (src/connectivity.cpp) on every branch.  From this
  follow that the way the network cuts the stream into reads does not matter, that sent
  frames arrive as they were sent, and the bound on the accumulator.
\<close>

section \<open>Frames of a byte stream\<close>

type_synonym frame = "Message_t \<times> byte list"

function deframe :: "byte list \<Rightarrow> frame list \<times> byte list" where
  "deframe (t # b0 # b1 # rest) =
    (let n = unat (read_u16_be b0 b1) in
     if length rest < n then ([], t # b0 # b1 # rest)
     else let (fs, r) = deframe (drop n rest) in ((t, take n rest) # fs, r))"
| "deframe [] = ([], [])"
| "deframe [a] = ([], [a])"
| "deframe [a, b] = ([], [a, b])"
  by pat_completeness auto

termination
  by (relation "measure length") auto

definition enframe :: "frame \<Rightarrow> byte list" where
  "enframe f = fst f # write_u16_be (of_nat (length (snd f))) @ snd f"

lemma read_write_u16 [simp]:
  "read_u16_be (ucast (drop_bit 8 v AND 0xFF)) (ucast (v AND 0xFF)) = v"
proof (rule bit_word_eqI)
  have ff: "(0xFF :: 16 word) = mask 8" by (simp add: mask_eq_exp_minus_1)
  fix n assume "n < LENGTH(16)"
  then show "bit (read_u16_be (ucast (drop_bit 8 v AND 0xFF)) (ucast (v AND 0xFF))) n = bit v n"
    unfolding ff by (auto simp: read_u16_be_def bit_simps)
qed

lemma write_read_u16: "write_u16_be (read_u16_be b0 b1) = [b0, b1]"
proof -
  have ff: "(0xFF :: 16 word) = mask 8" by (simp add: mask_eq_exp_minus_1)
  have "ucast (drop_bit 8 (read_u16_be b0 b1) AND mask 8) = b0"
    by (rule bit_word_eqI) (auto simp: read_u16_be_def bit_simps dest: bit_imp_le_length)
  moreover have "ucast (read_u16_be b0 b1 AND mask 8) = b1"
    by (rule bit_word_eqI) (auto simp: read_u16_be_def bit_simps)
  ultimately show ?thesis by (simp add: write_u16_be_def ff)
qed

lemma deframe_enframe:
  assumes "length (snd f) < 2 ^ 16"
  shows "deframe (enframe f @ bs) = (f # fst (deframe bs), snd (deframe bs))"
proof -
  have "unat (of_nat (length (snd f)) :: 16 word) = length (snd f)"
    using assms by (simp add: unat_of_nat)
  then show ?thesis
    by (simp add: enframe_def write_u16_be_def split: prod.split)
qed

lemma deframe_enframes:
  "list_all (\<lambda>f. length (snd f) < 2 ^ 16) fs \<Longrightarrow> deframe (concat (map enframe fs)) = (fs, [])"
  by (induction fs) (simp_all add: deframe_enframe)

lemma concat_deframe: "concat (map enframe (fst (deframe bs))) @ snd (deframe bs) = bs"
  by (induction bs rule: deframe.induct)
    (auto simp: enframe_def Let_def min_def write_read_u16 split: prod.splits)

text \<open>More bytes only add frames.\<close>

lemma deframe_append:
  "deframe (xs @ ys) =
     (fst (deframe xs) @ fst (deframe (snd (deframe xs) @ ys)), snd (deframe (snd (deframe xs) @ ys)))"
  by (induction xs rule: deframe.induct) (auto simp: Let_def split: prod.splits)

lemma deframe_rest: "deframe (snd (deframe bs)) = ([], snd (deframe bs))"
  by (induction bs rule: deframe.induct) (auto simp: Let_def split: prod.splits)

text \<open>The rest is shorter than the longest frame.\<close>

lemma deframe_rest_length: "length (snd (deframe bs)) < WIRE_HEADER_SIZE + 2 ^ 16 - 1"
proof (induction bs rule: deframe.induct)
  case (1 t b0 b1 rest)
  have "unat (read_u16_be b0 b1) < 2 ^ 16" using unat_less_2p [of "read_u16_be b0 b1"] by simp
  with 1 show ?case by (auto simp: Let_def WIRE_HEADER_SIZE_def split: prod.splits)
qed (simp_all add: WIRE_HEADER_SIZE_def)

section \<open>Handing frames to the engine\<close>

definition inbound_message :: "Id_t \<Rightarrow> frame \<Rightarrow> InboundMessage" where
  "inbound_message i f = \<lparr>InboundMessage.connection_id = i, message_type = fst f,
     payload_size = of_nat (length (snd f)), payload = payload_array (snd f)\<rparr>"

fun deliver :: "Connection \<Rightarrow> InboundQueue \<Rightarrow> frame list \<Rightarrow>
    bool \<times> Connection \<times> InboundQueue \<times> IoAction list" where
  "deliver c inq [] = (True, c, inq, [])"
| "deliver c inq (f # fs) =
    (if MAX_PAYLOAD_SIZE < length (snd f) then
       (False, fst (notify_disconnect_once c), inq, snd (notify_disconnect_once c))
     else if length (snd f) \<le> MAX_PAYLOAD_SIZE_BUFFER then
       (let (pushed, inq1) = try_push INBOUND_Q_CAP (inbound_message (conn_id c) f) inq in
        if \<not> pushed then
          (False, fst (notify_disconnect_once c), inq1, snd (notify_disconnect_once c))
        else let (ok, c2, inq2, acts) = deliver (fst (notify_inbound_ready c)) inq1 fs
             in (ok, c2, inq2, snd (notify_inbound_ready c) @ acts))
     else let (ok, c2, inq2, acts) = deliver c inq fs
          in (ok, c2, inq2,
              (if large_message_received_set c
               then [Call_Large_Message (conn_id c) (fst f) (snd f)] else []) @ acts))"


lemma deliver_keeps:
  "deliver c inq fs = (ok, c', inq', acts) \<Longrightarrow> in_accum c' = in_accum c \<and> in_size c' = in_size c"
proof (induction fs arbitrary: c inq c' inq' acts ok)
  case (Cons f fs)
  have "in_accum (fst (notify_disconnect_once c)) = in_accum c"
    "in_size (fst (notify_disconnect_once c)) = in_size c"
    "in_size (fst (notify_inbound_ready c)) = in_size c"
    by (simp_all add: notify_disconnect_once_def close_def notify_inbound_ready_def)
  with Cons.prems Cons.IH show ?case
    by (fastforce simp: Let_def split: if_splits prod.splits)
qed simp

text \<open>The frame loop is \<open>deframe\<close> followed by \<open>deliver\<close>.\<close>

lemma drop_frame_head:
  assumes "\<not> length xs - offset < WIRE_HEADER_SIZE"
  shows "drop offset xs =
    xs ! offset # xs ! (offset + 1) # xs ! (offset + 2) # drop (offset + WIRE_HEADER_SIZE) xs"
proof -
  have "offset + 2 < length xs" using assms by (simp add: WIRE_HEADER_SIZE_def)
  then show ?thesis
    by (simp add: Cons_nth_drop_Suc WIRE_HEADER_SIZE_def numeral_eq_Suc)
qed

lemma parse_loop_deliver:
  "offset \<le> length (in_accum c) \<Longrightarrow>
   parse_loop c inq offset =
    (let (fs, r) = deframe (drop offset (in_accum c)); (ok, c', inq', acts) = deliver c inq fs
     in (if ok then Parsed (length (in_accum c) - length r) else Gave_Up, c', inq', acts))"
proof (induction "length (in_accum c) - offset" arbitrary: c inq offset rule: less_induct)
  case less
  let ?bs = "drop offset (in_accum c)"
  show ?case
  proof (cases "length (in_accum c) - offset < WIRE_HEADER_SIZE")
    case True
    then have "deframe ?bs = ([], ?bs)"
      by (cases ?bs rule: deframe.cases) (auto simp: WIRE_HEADER_SIZE_def dest!: arg_cong [of _ _ length])
    with True less.prems show ?thesis by (simp add: parse_loop.simps)
  next
    case False
    define t where "t = in_accum c ! offset"
    define psz where
      "psz = read_u16_be (in_accum c ! Suc offset) (in_accum c ! Suc (Suc offset))"
    define rest where "rest = drop (offset + WIRE_HEADER_SIZE) (in_accum c)"
    let ?n = "unat psz"
    have bs: "deframe ?bs = (if length rest < ?n then ([], ?bs)
        else let (fs, r) = deframe (drop ?n rest) in ((t, take ?n rest) # fs, r))"
      unfolding drop_frame_head [OF False] by (simp add: t_def psz_def rest_def Let_def)
    have len: "length (in_accum c) - offset < WIRE_HEADER_SIZE + ?n \<longleftrightarrow> length rest < ?n"
      using False by (simp add: rest_def) arith
    have next_bs: "drop ?n rest = drop (offset + (WIRE_HEADER_SIZE + ?n)) (in_accum c)"
      by (simp add: rest_def ac_simps)
    have off: "offset + (WIRE_HEADER_SIZE + ?n) \<le> length (in_accum c)" if "\<not> length rest < ?n"
      using that False less.prems len by simp
    have IH: "parse_loop c1 inq1 (offset + (WIRE_HEADER_SIZE + ?n)) =
        (let (fs, r) = deframe (drop ?n rest); (ok, c', inq', acts) = deliver c1 inq1 fs
         in (if ok then Parsed (length (in_accum c) - length r) else Gave_Up, c', inq', acts))"
      if "\<not> length rest < ?n" "in_accum c1 = in_accum c" for c1 inq1
    proof -
      have "length (in_accum c1) - (offset + (WIRE_HEADER_SIZE + ?n)) < length (in_accum c) - offset"
        using that False by (simp add: WIRE_HEADER_SIZE_def)
      from less.hyps [OF this, of inq1] off [OF that(1)] that(2) show ?thesis
        by (simp add: next_bs split: prod.split)
    qed
    have msg: "\<lparr>InboundMessage.connection_id = conn_id c, message_type = t, payload_size = psz,
          payload = payload_array (take ?n rest)\<rparr> = inbound_message (conn_id c) (t, take ?n rest)"
      if "\<not> length rest < ?n"
      using that by (simp add: inbound_message_def min_def)
    show ?thesis
    proof (cases "length rest < ?n")
      case True
      with False less.prems bs len show ?thesis
        by (subst parse_loop.simps) (simp add: psz_def [symmetric] Let_def)
    next
      case nlt: False
      obtain fs r where d: "deframe (drop ?n rest) = (fs, r)" by fastforce
      from nlt have lt: "length (take ?n rest) = ?n" by simp
      show ?thesis
        unfolding bs using False nlt len d lt
        by (subst parse_loop.simps)
          (simp add: psz_def [symmetric] t_def [symmetric] rest_def [symmetric] msg IH Let_def split: prod.split)
    qed
  qed
qed

section \<open>Reads\<close>

lemma deliver_append:
  "deliver c inq (fs @ gs) =
    (let (ok, c1, inq1, acts1) = deliver c inq fs in
     if ok then let (ok2, c2, inq2, acts2) = deliver c1 inq1 gs in (ok2, c2, inq2, acts1 @ acts2)
     else (False, c1, inq1, acts1))"
  by (induction fs arbitrary: c inq) (simp_all add: Let_def split: prod.split)

text \<open>Delivery does not look at the accumulator.\<close>

lemma notify_accum:
  "notify_disconnect_once (c\<lparr>in_size := n, in_accum := a\<rparr>) =
     ((fst (notify_disconnect_once c))\<lparr>in_size := n, in_accum := a\<rparr>, snd (notify_disconnect_once c))"
  "notify_inbound_ready (c\<lparr>in_size := n, in_accum := a\<rparr>) =
     ((fst (notify_inbound_ready c))\<lparr>in_size := n, in_accum := a\<rparr>, snd (notify_inbound_ready c))"
  by (simp_all add: notify_disconnect_once_def close_def notify_inbound_ready_def)

lemma deliver_accum:
  "deliver (c\<lparr>in_size := n, in_accum := a\<rparr>) inq fs =
    (let (ok, c1, inq1, acts) = deliver c inq fs
     in (ok, c1\<lparr>in_size := n, in_accum := a\<rparr>, inq1, acts))"
  by (induction fs arbitrary: c inq) (simp_all add: notify_accum Let_def split: prod.split)

lemma deliver_disconnect:
  "deliver c inq fs = (ok, c', inq', acts) \<Longrightarrow>
     disconnect_notified c' \<longleftrightarrow> disconnect_notified c \<or> \<not> ok"
proof (induction fs arbitrary: c inq acts)
  case (Cons f fs)
  have "disconnect_notified (fst (notify_disconnect_once c))"
    "disconnect_notified (fst (notify_inbound_ready c)) = disconnect_notified c"
    by (simp_all add: notify_disconnect_once_def close_def notify_inbound_ready_def)
  with Cons.prems Cons.IH show ?case
    by (fastforce simp: Let_def split: if_splits prod.splits)
qed simp

lemma deliver_no_start_read:
  "deliver c inq fs = (ok, c', inq', acts) \<Longrightarrow> Start_Read \<notin> set acts"
proof (induction fs arbitrary: c inq acts)
  case (Cons f fs)
  have "Start_Read \<notin> set (snd (notify_disconnect_once c))"
    "Start_Read \<notin> set (snd (notify_inbound_ready c))"
    by (simp_all add: notify_disconnect_once_def close_def notify_inbound_ready_def)
  with Cons.prems Cons.IH show ?case
    by (fastforce simp: Let_def split: if_splits prod.splits)
qed simp

text \<open>The accumulator's size is doubled until it is enough, and this ends.\<close>

lemma grow_returns:
  "0 < sz \<Longrightarrow> \<exists>m. grow sz need = Some m \<and> need \<le> m \<and> sz \<le> m \<and> (m = sz \<or> m < 2 * need)"
proof (induction "need - sz" arbitrary: sz rule: less_induct)
  case less
  show ?case
  proof (cases "sz < need")
    case True
    then have "need - sz * 2 < need - sz" using less.prems by simp
    from less.hyps [OF this] less.prems obtain m where
      "grow (sz * 2) need = Some m" "need \<le> m" "sz * 2 \<le> m" "m = sz * 2 \<or> m < 2 * need" by auto
    with True show ?thesis by (subst grow.simps) auto
  qed (subst grow.simps, simp)
qed

definition new_size :: "Connection \<Rightarrow> byte list \<Rightarrow> nat" where
  "new_size c bytes = the (if in_size c < length (in_accum c) + length bytes
     then grow (in_size c) (length (in_accum c) + length bytes) else Some (in_size c))"

lemma handle_read_eq:
  fixes bytes :: "byte list"
  assumes "0 < in_size c"
  defines "bs \<equiv> in_accum c @ bytes"
  shows "handle_read c inq (Some bytes) =
    (let (ok, c1, inq1, acts) = deliver c inq (fst (deframe bs)) in
     Some (c1\<lparr>in_size := new_size c bytes, in_accum := if ok then snd (deframe bs) else bs\<rparr>,
           inq1, acts @ (if \<not> disconnect_notified c1 then [Start_Read] else [])))"
proof -
  let ?c = "c\<lparr>in_size := new_size c bytes, in_accum := bs\<rparr>"
  obtain fs r where d: "deframe bs = (fs, r)" by fastforce
  obtain ok c1 inq1 acts where dl: "deliver c inq fs = (ok, c1, inq1, acts)"
    by (metis prod_cases4)
  have "bs = concat (map enframe fs) @ r" using concat_deframe [of bs] d by simp
  then have r: "drop (length bs - length r) bs = r" by (metis append_eq_conv_conj length_append diff_add_inverse2)
  have g: "(if in_size c < length (in_accum c) + length bytes
      then grow (in_size c) (length (in_accum c) + length bytes) else Some (in_size c))
      = Some (new_size c bytes)"
    using grow_returns [OF assms(1), of "length bs"] by (auto simp: new_size_def bs_def)
  have "handle_read c inq (Some bytes) =
      (case parse_accumulator ?c inq of (c1, inq1, acts) \<Rightarrow>
         Some (c1, inq1, acts @ (if \<not> disconnect_notified c1 then [Start_Read] else [])))"
    unfolding handle_read_def option.case g by (simp add: bs_def)
  also have "parse_accumulator ?c inq =
      (c1\<lparr>in_size := new_size c bytes, in_accum := if ok then r else bs\<rparr>, inq1, acts)"
    using parse_loop_deliver [of 0 ?c inq] r
    by (simp add: parse_accumulator_def d deliver_accum dl)
  finally show ?thesis by (simp add: d dl)
qed

text \<open>The read loop: each read is followed by the next until the connection gives up.\<close>

fun read_all :: "Connection \<Rightarrow> InboundQueue \<Rightarrow> byte list list \<Rightarrow>
    (Connection \<times> InboundQueue \<times> IoAction list) option" where
  "read_all c inq [] = Some (c, inq, [])"
| "read_all c inq (chunk # chunks) =
    (case handle_read c inq (Some chunk) of None \<Rightarrow> None
     | Some (c1, inq1, acts1) \<Rightarrow>
        if Start_Read \<notin> set acts1 then Some (c1, inq1, acts1)
        else map_option (\<lambda>(c2, inq2, acts2). (c2, inq2, acts1 @ acts2)) (read_all c1 inq1 chunks))"

definition waiting :: "Connection \<Rightarrow> bool" where
  "waiting c \<longleftrightarrow> 0 < in_size c \<and> \<not> disconnect_notified c \<and> fst (deframe (in_accum c)) = []"

lemma read_all_deliver:
  assumes "waiting c"
    and "deliver c inq (fst (deframe (in_accum c @ concat chunks))) = (ok, c1, inq1, acts1)"
  shows "\<exists>c' acts. read_all c inq chunks = Some (c', inq1, acts)
     \<and> (disconnect_notified c' \<longleftrightarrow> \<not> ok) \<and> filter (\<lambda>a. a \<noteq> Start_Read) acts = acts1
     \<and> (ok \<longrightarrow> waiting c' \<and> in_accum c' = snd (deframe (in_accum c @ concat chunks))
          \<and> inbound_ready_pending c' = inbound_ready_pending c1)"
  using assms
proof (induction chunks arbitrary: c inq ok c1 inq1 acts1)
  case Nil
  then show ?case using concat_deframe [of "in_accum c"] by (simp add: waiting_def)
next
  case (Cons b bs)
  let ?bs = "in_accum c @ b"
  let ?fs = "fst (deframe ?bs)" and ?r = "snd (deframe ?bs)"
  have w: "0 < in_size c" "\<not> disconnect_notified c" using Cons.prems by (simp_all add: waiting_def)
  obtain ok2 c2 inq2 acts2 where d: "deliver c inq ?fs = (ok2, c2, inq2, acts2)"
    by (metis prod_cases4)
  have dn: "disconnect_notified c2 \<longleftrightarrow> \<not> ok2" using deliver_disconnect [OF d] w by simp
  have nsr: "Start_Read \<notin> set acts2" using deliver_no_start_read [OF d] .
  have split: "deframe (in_accum c @ concat (b # bs)) =
      (?fs @ fst (deframe (?r @ concat bs)), snd (deframe (?r @ concat bs)))"
    using deframe_append [of ?bs "concat bs"] by simp
  note total = Cons.prems(2) [unfolded split fst_conv deliver_append d Let_def prod.case]
  note hr = handle_read_eq [OF w(1), of inq b, unfolded d Let_def prod.case]
  show ?case
  proof (cases ok2)
    case False
    then show ?thesis using total hr dn nsr by (auto simp: filter_id_conv)
  next
    case True
    define c3 where "c3 = c2\<lparr>in_size := new_size c b, in_accum := ?r\<rparr>"
    obtain ok4 c4 inq4 acts4 where d4: "deliver c2 inq2 (fst (deframe (?r @ concat bs))) =
        (ok4, c4, inq4, acts4)" by (metis prod_cases4)
    have tot: "ok = ok4" "c1 = c4" "inq1 = inq4" "acts1 = acts2 @ acts4" using total d4 True by auto
    have size: "0 < new_size c b"
      using grow_returns [OF w(1), of "length ?bs"] w(1) by (auto simp: new_size_def)
    have w3: "waiting c3" using True dn size deframe_rest [of ?bs] by (simp add: waiting_def c3_def)
    have d3: "deliver c3 inq2 (fst (deframe (in_accum c3 @ concat bs))) =
        (ok4, c4\<lparr>in_size := new_size c b, in_accum := ?r\<rparr>, inq4, acts4)"
      by (simp add: c3_def deliver_accum d4)
    from Cons.IH [OF w3 d3] obtain c' acts where IH: "read_all c3 inq2 bs = Some (c', inq4, acts)"
      "disconnect_notified c' \<longleftrightarrow> \<not> ok4" "filter (\<lambda>a. a \<noteq> Start_Read) acts = acts4"
      "ok4 \<longrightarrow> waiting c' \<and> in_accum c' = snd (deframe (in_accum c3 @ concat bs))
        \<and> inbound_ready_pending c' = inbound_ready_pending c4" by auto
    have "handle_read c inq (Some b) = Some (c3, inq2, acts2 @ [Start_Read])"
      using hr True dn by (simp add: c3_def)
    with IH tot nsr have "read_all c inq (b # bs) = Some (c', inq4, (acts2 @ [Start_Read]) @ acts)"
      by simp
    moreover have "in_accum c3 = ?r" by (simp add: c3_def)
    moreover have "filter (\<lambda>a. a \<noteq> Start_Read) ((acts2 @ [Start_Read]) @ acts) = acts2 @ acts4"
      using IH(3) nsr by (auto simp: filter_id_conv)
    ultimately show ?thesis using IH(2,4) tot split by auto
  qed
qed

section \<open>Properties of reading\<close>

definition port :: Connection where
  "port = (Connection_init 4 (new_queue OUTBOUND_Q_CAP \<lparr>connection_id = 0, message_type = 0,
     payload_size = 0, payload = []\<rparr>))\<lparr>disconnected_set := True, inbound_ready_set := True\<rparr>"

definition inbox0 :: InboundQueue where
  "inbox0 = new_queue INBOUND_Q_CAP
     \<lparr>InboundMessage.connection_id = 0, message_type = 0, payload_size = 0, payload = []\<rparr>"

lemma port_waiting: "waiting port"
  by (simp add: waiting_def port_def Connection_init_def READ_SIZE_def)

lemma caps_ok: "capacity_ok INBOUND_Q_CAP" "capacity_ok OUTBOUND_Q_CAP"
  by (simp_all add: capacity_ok_def INBOUND_Q_CAP_def OUTBOUND_Q_CAP_def)

lemma inbox0_inv: "queue_inv INBOUND_Q_CAP inbox0"
  unfolding inbox0_def by (rule new_queue_inv) (rule caps_ok)

text \<open>The frame parser does what the frame format says on every input: it cuts the
  accumulated bytes into complete frames, hands them over in order, each to the inbox or,
  when too large for it, to the large-message callback, and keeps the incomplete rest.  At the
  first frame that is over-long or that the full inbox refuses it disconnects and hands over
  nothing more.\<close>

theorem parse_accumulator_refines_delivery:
  "parse_accumulator c inq =
    (let (fs, r) = deframe (in_accum c); (ok, c', inq', acts) = deliver c inq fs
     in (if ok then c'\<lparr>in_accum := r\<rparr> else c', inq', acts))"
proof -
  obtain fs r where d: "deframe (in_accum c) = (fs, r)" by fastforce
  obtain ok c' inq' acts where dl: "deliver c inq fs = (ok, c', inq', acts)" by (metis prod_cases4)
  have "in_accum c = concat (map enframe fs) @ r" using concat_deframe [of "in_accum c"] d by simp
  then have "drop (length (in_accum c) - length r) (in_accum c) = r"
    by (metis append_eq_conv_conj length_append diff_add_inverse2)
  then show ?thesis
    using parse_loop_deliver [of 0 c inq] deliver_keeps [OF dl]
    by (simp add: parse_accumulator_def d dl)
qed



text \<open>Frames that fit the inbox's messages, when there is room for them.\<close>

lemma deliver_small:
  assumes "list_all (\<lambda>f. length (snd f) \<le> MAX_PAYLOAD_SIZE_BUFFER) fs"
    and "queue_inv INBOUND_Q_CAP inq" "length (contents INBOUND_Q_CAP inq) + length fs \<le> 16384"
  shows "\<exists>c' inq' acts. deliver c inq fs = (True, c', inq', acts) \<and> queue_inv INBOUND_Q_CAP inq'
     \<and> contents INBOUND_Q_CAP inq' =
         contents INBOUND_Q_CAP inq @ map (inbound_message (conn_id c)) fs
     \<and> (inbound_ready_set c \<and> fs \<noteq> [] \<longrightarrow> inbound_ready_pending c')
     \<and> (inbound_ready_pending c \<longrightarrow> inbound_ready_pending c')"
  using assms
proof (induction fs arbitrary: c inq)
  case (Cons f fs)
  let ?m = "inbound_message (conn_id c) f"
  let ?c = "fst (notify_inbound_ready c)"
  have c: "conn_id ?c = conn_id c" "inbound_ready_set ?c = inbound_ready_set c"
    "inbound_ready_set c \<Longrightarrow> inbound_ready_pending ?c"
    "inbound_ready_pending c \<Longrightarrow> inbound_ready_pending ?c"
    by (simp_all add: notify_inbound_ready_def)
  obtain b q where p: "try_push INBOUND_Q_CAP ?m inq = (b, q)" by fastforce
  have "unat INBOUND_Q_CAP = 16384" by (simp add: INBOUND_Q_CAP_def)
  with Cons.prems(3) have "length (contents INBOUND_Q_CAP inq) < unat INBOUND_Q_CAP" by simp
  from ring.push_room [OF Cons.prems(2) this, of ?m] p
  have b: "b" and q: "queue_inv INBOUND_Q_CAP q"
    "contents INBOUND_Q_CAP q = contents INBOUND_Q_CAP inq @ [?m]" by auto
  have "length (contents INBOUND_Q_CAP q) + length fs \<le> 16384"
    using Cons.prems(3) q(2) by simp
  from Cons.IH [OF _ q(1) this, of ?c] Cons.prems(1) obtain c' inq' acts where
    IH: "deliver ?c q fs = (True, c', inq', acts)" "queue_inv INBOUND_Q_CAP inq'"
      "contents INBOUND_Q_CAP inq' = contents INBOUND_Q_CAP q @ map (inbound_message (conn_id ?c)) fs"
      "inbound_ready_pending ?c \<longrightarrow> inbound_ready_pending c'" by auto
  have "\<not> MAX_PAYLOAD_SIZE < length (snd f)" "length (snd f) \<le> MAX_PAYLOAD_SIZE_BUFFER"
    using Cons.prems(1) by (simp_all add: max_sizes)
  then have "deliver c inq (f # fs) = (True, c', inq', snd (notify_inbound_ready c) @ acts)"
    using p b IH(1) by simp
  with IH q c show ?case by auto
qed simp

text \<open>C24: What is sent arrives.  The bytes of any frames that fit the inbox's messages, cut
  into reads in any way, put exactly these messages, in order and tagged with the
  connection, behind what the inbox holds, as long as it has room; the connection stays
  up, nothing is left over, and the engine's wake-up is pending.\<close>

theorem sent_frames_arrive:
  assumes "waiting c" "in_accum c = []"
    and "list_all (\<lambda>f. length (snd f) \<le> MAX_PAYLOAD_SIZE_BUFFER) fs"
    and "concat chunks = concat (map enframe fs)"
    and "queue_inv INBOUND_Q_CAP inq" "length (contents INBOUND_Q_CAP inq) + length fs \<le> 16384"
  shows "\<exists>c' inq' acts. read_all c inq chunks = Some (c', inq', acts)
     \<and> contents INBOUND_Q_CAP inq' =
         contents INBOUND_Q_CAP inq @ map (inbound_message (conn_id c)) fs
     \<and> queue_inv INBOUND_Q_CAP inq' \<and> waiting c' \<and> in_accum c' = []
     \<and> (inbound_ready_set c \<and> fs \<noteq> [] \<longrightarrow> inbound_ready_pending c')"
proof -
  have "list_all (\<lambda>f. length (snd f) < 2 ^ 16) fs"
    using assms(3) by (auto simp: list_all_iff max_sizes)
  from deframe_enframes [OF this] have df: "deframe (in_accum c @ concat chunks) = (fs, [])"
    using assms(2,4) by simp
  from deliver_small [OF assms(3,5,6), of c] obtain c1 inq' acts where
    d: "deliver c inq fs = (True, c1, inq', acts)" "queue_inv INBOUND_Q_CAP inq'"
      "contents INBOUND_Q_CAP inq' = contents INBOUND_Q_CAP inq @ map (inbound_message (conn_id c)) fs"
      "inbound_ready_set c \<and> fs \<noteq> [] \<longrightarrow> inbound_ready_pending c1" by blast
  from read_all_deliver [OF assms(1), of inq chunks, unfolded df fst_conv, OF d(1)] d(2-) df
  show ?thesis by auto
qed

theorem sent_frames_arrive_witness:
  "\<exists>c' inq' acts. read_all port inbox0 [[4, 0], [2, 8, 9, 6], [0, 0]] = Some (c', inq', acts)
     \<and> contents INBOUND_Q_CAP inq' = map (inbound_message 4) [(4, [8, 9]), (6, [])]"
  using sent_frames_arrive [OF port_waiting, of "[(4, [8, 9]), (6, [])]"
      "[[4, 0], [2, 8, 9, 6], [0, 0]]" inbox0] inbox0_inv
  by (auto simp: port_def Connection_init_def max_sizes enframe_def write_u16_be_def inbox0_def)

text \<open>The accumulator: what it holds fits its vector, and between reads less than one
  longest frame is left in it.\<close>

definition accumulator_ok :: "Connection \<Rightarrow> bool" where
  "accumulator_ok c \<longleftrightarrow> length (in_accum c) \<le> in_size c
     \<and> (in_size c = 2 * READ_SIZE \<or> in_size c = 4 * READ_SIZE)
     \<and> (\<not> disconnect_notified c \<longrightarrow> length (in_accum c) < WIRE_HEADER_SIZE + 2 ^ 16 - 1)"

text \<open>C25: The accumulator of a connection is bounded and never overrun.  Although an over-long
  frame is only refused once it has arrived in full, a read of at most \<open>READ_SIZE\<close> bytes
  always returns, what is copied fits the vector, and the vector, which starts at twice
  \<open>READ_SIZE\<close>, is doubled at most once in the life of the connection.\<close>

theorem accumulator_bounded:
  assumes "accumulator_ok c" "\<not> disconnect_notified c" "length bytes \<le> READ_SIZE"
  shows "\<exists>c' inq' acts. handle_read c inq (Some bytes) = Some (c', inq', acts)
     \<and> accumulator_ok c' \<and> in_size c \<le> in_size c'
     \<and> length (in_accum c) + length bytes \<le> in_size c'"
proof -
  let ?bs = "in_accum c @ bytes"
  have pos: "0 < in_size c" using assms(1) by (auto simp: accumulator_ok_def READ_SIZE_def)
  obtain ok c1 inq1 acts where d: "deliver c inq (fst (deframe ?bs)) = (ok, c1, inq1, acts)"
    by (metis prod_cases4)
  have len: "length ?bs \<le> 131072"
    using assms by (simp add: accumulator_ok_def READ_SIZE_def WIRE_HEADER_SIZE_def)
  have size: "(new_size c bytes = 2 * READ_SIZE \<or> new_size c bytes = 4 * READ_SIZE)
      \<and> length ?bs \<le> new_size c bytes \<and> in_size c \<le> new_size c bytes"
  proof (cases "in_size c < length ?bs")
    case True
    then have "in_size c = 131070"
      using assms(1) len by (auto simp: accumulator_ok_def READ_SIZE_def)
    with True len have "new_size c bytes = 262140"
      by (simp add: new_size_def grow.simps [of 131070] grow.simps [of 262140])
    with \<open>in_size c = 131070\<close> len show ?thesis by (simp add: READ_SIZE_def)
  next
    case False
    then show ?thesis using assms(1) by (auto simp: new_size_def accumulator_ok_def)
  qed
  have "length (snd (deframe ?bs)) \<le> length ?bs"
    using arg_cong [OF concat_deframe [of ?bs], of length] by simp
  with size deframe_rest_length [of ?bs] deliver_disconnect [OF d] assms(2)
  show ?thesis
    using handle_read_eq [OF pos, of inq bytes] d by (auto simp: accumulator_ok_def)
qed

theorem accumulator_bounded_witness:
  "\<exists>c' inq' acts. handle_read port inbox0 (Some [1, 2, 3]) = Some (c', inq', acts)
     \<and> accumulator_ok c'"
  using accumulator_bounded [of port "[1, 2, 3]" inbox0]
  by (auto simp: accumulator_ok_def port_def Connection_init_def READ_SIZE_def WIRE_HEADER_SIZE_def)

end
