(* ===== verification/Connectivity_Write.thy ===== *)
theory Connectivity_Write
  imports Connectivity_Read "HOL-Library.Sublist"
begin

text \<open>
  What a connection makes of the messages it is given to send.  The engine thread queues
  messages and posts a drain; the strand moves queued frames to a batch and writes it,
  piece by piece as the socket takes it.  The step relation \<open>io_step\<close> interleaves the two
  (the engine's push and its wake-up are separate steps) with reads and failures, and its
  invariant shows that the bytes on the socket are the frames of the accepted messages in
  order and that no wake-up is lost.
\<close>

section \<open>A batch\<close>

definition sendable :: "OutboundMessage \<Rightarrow> bool" where
  "sendable m \<longleftrightarrow> unat (OutboundMessage.payload_size m) \<le> MAX_PAYLOAD_SIZE_BUFFER
     \<and> length (OutboundMessage.payload m) = MAX_PAYLOAD_SIZE_BUFFER"

lemma length_frame_of:
  "sendable m \<Longrightarrow> length (frame_of m) = WIRE_HEADER_SIZE + unat (OutboundMessage.payload_size m)"
  by (simp add: sendable_def frame_of_def write_u16_be_def WIRE_HEADER_SIZE_def)

text \<open>A sent frame is the frame the reader cuts out of the stream.\<close>

lemma frame_of_enframe:
  assumes "sendable m"
  shows "frame_of m = enframe (OutboundMessage.message_type m,
    take (unat (OutboundMessage.payload_size m)) (OutboundMessage.payload m))"
proof -
  have len: "length (take (unat (OutboundMessage.payload_size m)) (OutboundMessage.payload m)) =
      unat (OutboundMessage.payload_size m)"
    using assms by (simp add: sendable_def)
  show ?thesis unfolding enframe_def snd_conv len by (simp add: frame_of_def)
qed

lemma peek_contents:
  "peek c q = (case contents c q of [] \<Rightarrow> None | m # ms \<Rightarrow> Some m)"
proof (cases "q_tail q = q_head q")
  case True
  then show ?thesis using contents_empty_iff [of c q] by (simp add: peek_def)
next
  case False
  then show ?thesis using contents_front [OF False, of c] by (simp add: peek_def Let_def slot_def)
qed

lemma consume_contents:
  assumes "queue_inv c q" "contents c q = m # ms"
  shows "queue_inv c (snd (consume_one q))" "contents c (snd (consume_one q)) = ms"
  using ring.pop_front [OF assms] by (simp_all add: peek_consume_try_pop(1) [of c])

lemma drain_loop_spec:
  assumes "queue_inv OUTBOUND_Q_CAP q" "list_all sendable (contents OUTBOUND_Q_CAP q)"
    and "length batch \<le> OUT_BATCH_SIZE"
  shows "\<exists>q' taken. drain_loop q batch = (q', batch @ concat (map frame_of taken))
     \<and> queue_inv OUTBOUND_Q_CAP q' \<and> contents OUTBOUND_Q_CAP q = taken @ contents OUTBOUND_Q_CAP q'
     \<and> length (batch @ concat (map frame_of taken)) \<le> OUT_BATCH_SIZE
     \<and> (contents OUTBOUND_Q_CAP q' \<noteq> [] \<longrightarrow>
          OUT_BATCH_SIZE < length (batch @ concat (map frame_of taken)
             @ frame_of (hd (contents OUTBOUND_Q_CAP q'))))"
  using assms
proof (induction "contents OUTBOUND_Q_CAP q" arbitrary: q batch)
  case Nil
  then have "drain_loop q batch = (q, batch)"
    by (subst drain_loop.simps) (simp add: peek_contents flip: Nil.hyps)
  with Nil show ?case by (intro exI [of _ q] exI [of _ "[]"]) simp
next
  case (Cons m ms)
  note q = Cons.hyps(2) [symmetric]
  have m: "sendable m" and ms: "list_all sendable ms" using Cons.prems(2) q by simp_all
  show ?case
  proof (cases "OUT_BATCH_SIZE < length batch + length (frame_of m)")
    case True
    then have "drain_loop q batch = (q, batch)"
      by (subst drain_loop.simps) (simp add: peek_contents q length_frame_of [OF m] Let_def)
    with Cons.prems True q show ?thesis by (intro exI [of _ q] exI [of _ "[]"]) simp
  next
    case False
    let ?q = "snd (consume_one q)"
    have step: "drain_loop q batch = drain_loop ?q (batch @ frame_of m)"
      using False by (subst drain_loop.simps)
        (simp add: peek_contents q length_frame_of [OF m] Let_def, simp add: frame_of_def)
    note c = consume_contents [OF Cons.prems(1) q]
    from Cons.hyps(1) [of ?q "batch @ frame_of m"] c ms False
    obtain q' taken where "drain_loop ?q (batch @ frame_of m) =
          (q', (batch @ frame_of m) @ concat (map frame_of taken))"
      "queue_inv OUTBOUND_Q_CAP q'" "ms = taken @ contents OUTBOUND_Q_CAP q'"
      "length ((batch @ frame_of m) @ concat (map frame_of taken)) \<le> OUT_BATCH_SIZE"
      "contents OUTBOUND_Q_CAP q' \<noteq> [] \<longrightarrow>
          OUT_BATCH_SIZE < length ((batch @ frame_of m) @ concat (map frame_of taken)
             @ frame_of (hd (contents OUTBOUND_Q_CAP q')))"
      by auto
    with step q show ?thesis by (intro exI [of _ q'] exI [of _ "m # taken"]) simp
  qed
qed

text \<open>A frame always fits an empty batch, so a drain of a non-empty queue makes progress.\<close>

lemma drain_empty_batch:
  assumes "queue_inv OUTBOUND_Q_CAP q" "list_all sendable (contents OUTBOUND_Q_CAP q)"
  obtains q' taken where "drain_loop q [] = (q', concat (map frame_of taken))"
    "queue_inv OUTBOUND_Q_CAP q'" "contents OUTBOUND_Q_CAP q = taken @ contents OUTBOUND_Q_CAP q'"
    "length (concat (map frame_of taken)) \<le> OUT_BATCH_SIZE"
    "concat (map frame_of taken) = [] \<longrightarrow> contents OUTBOUND_Q_CAP q' = []"
proof -
  have "length ([] :: byte list) \<le> OUT_BATCH_SIZE" by simp
  from drain_loop_spec [OF assms this] obtain q' taken where
    d: "drain_loop q [] = (q', concat (map frame_of taken))" "queue_inv OUTBOUND_Q_CAP q'"
      "contents OUTBOUND_Q_CAP q = taken @ contents OUTBOUND_Q_CAP q'"
      "length (concat (map frame_of taken)) \<le> OUT_BATCH_SIZE"
      "contents OUTBOUND_Q_CAP q' \<noteq> [] \<longrightarrow> OUT_BATCH_SIZE <
         length (concat (map frame_of taken) @ frame_of (hd (contents OUTBOUND_Q_CAP q')))" by auto
  have "contents OUTBOUND_Q_CAP q' = []" if "concat (map frame_of taken) = []"
  proof (rule ccontr)
    assume ne: "contents OUTBOUND_Q_CAP q' \<noteq> []"
    then have "sendable (hd (contents OUTBOUND_Q_CAP q'))"
      using assms(2) d(3) by (cases "contents OUTBOUND_Q_CAP q'") auto
    with d(5) ne that show False
      by (simp add: length_frame_of sendable_def OUT_BATCH_SIZE_def WIRE_HEADER_SIZE_def max_sizes)
  qed
  with d that show thesis by blast
qed

section \<open>Sending in two pieces\<close>

definition enqueue :: "Connection \<Rightarrow> Message_t \<Rightarrow> byte list \<Rightarrow> bool \<times> Connection" where
  "enqueue c type bytes =
    (let psz = payload_size_for_code type in
     if MAX_PAYLOAD_SIZE_BUFFER < psz then (False, c)
     else let (pushed, q) = try_push OUTBOUND_Q_CAP
            \<lparr>OutboundMessage.connection_id = conn_id c, message_type = type,
             payload_size = of_nat psz, payload = payload_array (take psz bytes)\<rparr> (outbound c)
          in (pushed, c\<lparr>outbound := q\<rparr>))"

lemma send_message_pieces:
  "send_message c type bytes =
    (let (ok, c1) = enqueue c type bytes in if ok then schedule_drain_writes c1 else (c1, []))"
  by (simp add: send_message_def enqueue_def Let_def split: prod.split)

definition outbound_message :: "Id_t \<Rightarrow> Message_t \<Rightarrow> byte list \<Rightarrow> OutboundMessage" where
  "outbound_message i type bytes =
    (let psz = payload_size_for_code type in
     \<lparr>OutboundMessage.connection_id = i, message_type = type, payload_size = of_nat psz,
      payload = payload_array (take psz bytes)\<rparr>)"

lemma sendable_outbound:
  assumes "\<not> MAX_PAYLOAD_SIZE_BUFFER < payload_size_for_code type" "payload_size_for_code type \<le> length bytes"
  shows "sendable (outbound_message i type bytes)"
proof -
  have "unat (of_nat (payload_size_for_code type) :: 16 word) = payload_size_for_code type"
    using assms by (simp add: unat_of_nat max_sizes)
  with assms show ?thesis
    by (simp add: sendable_def outbound_message_def Let_def payload_array_def)
qed

lemma enqueue_cases:
  assumes "enqueue c type bytes = (ok, c')" "queue_inv OUTBOUND_Q_CAP (outbound c)"
  shows "ok \<Longrightarrow> \<not> MAX_PAYLOAD_SIZE_BUFFER < payload_size_for_code type
      \<and> queue_inv OUTBOUND_Q_CAP (outbound c') \<and> c' = c\<lparr>outbound := outbound c'\<rparr>
      \<and> contents OUTBOUND_Q_CAP (outbound c') =
          contents OUTBOUND_Q_CAP (outbound c) @ [outbound_message (conn_id c) type bytes]"
    and "\<not> ok \<Longrightarrow> c' = c"
proof -
  let ?m = "outbound_message (conn_id c) type bytes"
  have e: "enqueue c type bytes = (if MAX_PAYLOAD_SIZE_BUFFER < payload_size_for_code type
      then (False, c) else (fst (try_push OUTBOUND_Q_CAP ?m (outbound c)),
        c\<lparr>outbound := snd (try_push OUTBOUND_Q_CAP ?m (outbound c))\<rparr>))"
    by (simp add: enqueue_def outbound_message_def Let_def split: prod.split)
  have full: "try_push OUTBOUND_Q_CAP ?m (outbound c) = (False, outbound c)"
    if "\<not> fst (try_push OUTBOUND_Q_CAP ?m (outbound c))"
    using that ring.push_full [OF assms(2)] ring.push_room [OF assms(2)] ring.items_bound [OF assms(2)]
    by (metis order_le_less)
  have room: "length (contents OUTBOUND_Q_CAP (outbound c)) < unat OUTBOUND_Q_CAP"
    if "fst (try_push OUTBOUND_Q_CAP ?m (outbound c))"
    using that ring.push_full [OF assms(2), of ?m] ring.items_bound [OF assms(2)]
    by (metis order_le_less fst_conv)
  show "\<not> MAX_PAYLOAD_SIZE_BUFFER < payload_size_for_code type
      \<and> queue_inv OUTBOUND_Q_CAP (outbound c') \<and> c' = c\<lparr>outbound := outbound c'\<rparr>
      \<and> contents OUTBOUND_Q_CAP (outbound c') = contents OUTBOUND_Q_CAP (outbound c) @ [?m]" if ok
    using that assms(1) e ring.push_room [OF assms(2) room, of ?m] by (auto split: if_splits)
  show "c' = c" if "\<not> ok"
    using that assms(1) e full by (auto split: if_splits)
qed

section \<open>The engine and the strand\<close>

text \<open>
  The connection; whether the engine is between its push and its wake-up; how many drain
  tasks are posted; the buffer of the write in flight; and as history the accepted
  messages, the bytes the socket took and the number of calls of \<open>disconnected\<close>.
\<close>

record io =
  conn :: Connection
  pushing :: bool
  posted :: nat
  in_flight :: "byte list option"
  accepted :: "OutboundMessage list"
  written :: "byte list"
  disconnects :: nat

fun perform :: "IoAction \<Rightarrow> io \<Rightarrow> io" where
  "perform Post_Drain_Writes s = s\<lparr>posted := posted s + 1\<rparr>"
| "perform (Start_Write bs) s = s\<lparr>in_flight := Some bs\<rparr>"
| "perform Call_Disconnected s = s\<lparr>disconnects := disconnects s + 1\<rparr>"
| "perform _ s = s"

text \<open>A handler's result: its new connection state, then its actions in order.\<close>

definition after :: "Connection \<times> IoAction list \<Rightarrow> io \<Rightarrow> io" where
  "after r s = fold perform (snd r) (s\<lparr>conn := fst r\<rparr>)"

definition io_init :: "Connection \<Rightarrow> io" where
  "io_init c = \<lparr>conn = c, pushing = False, posted = 0, in_flight = None, accepted = [],
     written = [], disconnects = 0\<rparr>"

inductive io_step :: "io \<Rightarrow> io \<Rightarrow> bool" where
  engine_push: "\<not> pushing s \<Longrightarrow> enqueue (conn s) type bytes = (True, c) \<Longrightarrow>
    payload_size_for_code type \<le> length bytes \<Longrightarrow>
    io_step s (s\<lparr>conn := c, pushing := True,
      accepted := accepted s @ [outbound_message (conn_id (conn s)) type bytes]\<rparr>)"
| engine_refused: "\<not> pushing s \<Longrightarrow> enqueue (conn s) type bytes = (False, c) \<Longrightarrow>
    io_step s (s\<lparr>conn := c\<rparr>)"
| engine_wakes: "pushing s \<Longrightarrow>
    io_step s (after (schedule_drain_writes (conn s)) (s\<lparr>pushing := False\<rparr>))"
| drain_runs: "posted s = Suc n \<Longrightarrow>
    io_step s (after (drain_writes (conn s)) (s\<lparr>posted := n\<rparr>))"
| socket_took: "in_flight s = Some bs \<Longrightarrow> socket_open (conn s) \<Longrightarrow> 0 < n \<Longrightarrow> n \<le> length bs \<Longrightarrow>
    io_step s (after (handle_write (conn s) (Some n))
      (s\<lparr>in_flight := None, written := written s @ take n bs\<rparr>))"
| write_fails: "in_flight s = Some bs \<Longrightarrow>
    io_step s (after (handle_write (conn s) None) (s\<lparr>in_flight := None\<rparr>))"
| reads: "handle_read (conn s) inq received = Some (c, inq', acts) \<Longrightarrow>
    io_step s (after (c, acts) s)"
| wakes_engine: "io_step s (after (inbound_ready_task (conn s)) s)"

inductive_cases io_step_elim: "io_step s s'"

inductive io_reachable :: "Connection \<Rightarrow> io \<Rightarrow> bool" for c where
  start: "io_reachable c (io_init c)"
| step: "io_reachable c s \<Longrightarrow> io_step s s' \<Longrightarrow> io_reachable c s'"

section \<open>The invariant\<close>

abbreviation queued :: "Connection \<Rightarrow> OutboundMessage list" where
  "queued c \<equiv> contents OUTBOUND_Q_CAP (outbound c)"

abbreviation frames :: "OutboundMessage list \<Rightarrow> byte list" where
  "frames ms \<equiv> concat (map frame_of ms)"

definition unsent :: "Connection \<Rightarrow> byte list" where
  "unsent c = (if write_in_progress c then drop (out_batch_sent c) (out_batch c) else [])"

definition io_base :: "io \<Rightarrow> bool" where
  "io_base s \<longleftrightarrow>
     queue_inv OUTBOUND_Q_CAP (outbound (conn s)) \<and> list_all sendable (queued (conn s))
   \<and> in_flight s = (if write_in_progress (conn s) then Some (unsent (conn s)) else None)
   \<and> (write_in_progress (conn s) \<longrightarrow> out_batch_sent (conn s) < length (out_batch (conn s))
        \<and> length (out_batch (conn s)) \<le> OUT_BATCH_SIZE)
   \<and> socket_open (conn s) = (\<not> disconnect_notified (conn s))
   \<and> disconnects s = (if disconnect_notified (conn s) \<and> disconnected_set (conn s) then 1 else 0)
   \<and> 0 < in_size (conn s) \<and> prefix (written s) (frames (accepted s))"

definition io_core :: "io \<Rightarrow> bool" where
  "io_core s \<longleftrightarrow> io_base s \<and> (\<not> disconnect_notified (conn s) \<longrightarrow>
     written s @ unsent (conn s) @ frames (queued (conn s)) = frames (accepted s))"

definition io_wake :: "io \<Rightarrow> bool" where
  "io_wake s \<longleftrightarrow> (write_wakeup_pending (conn s) \<longrightarrow> 0 < posted s)
   \<and> (\<not> disconnect_notified (conn s) \<and> queued (conn s) \<noteq> [] \<longrightarrow>
        write_in_progress (conn s) \<or> 0 < posted s \<or> pushing s)"

lemmas io_defs = io_core_def io_base_def io_wake_def unsent_def after_def

lemma drain_writes_busy:
  "write_in_progress c \<Longrightarrow> drain_writes c = (c\<lparr>write_wakeup_pending := False\<rparr>, [])"
  by (simp add: drain_writes_def)

lemma drain_writes_idle:
  assumes "\<not> write_in_progress c" "queue_inv OUTBOUND_Q_CAP (outbound c)" "list_all sendable (queued c)"
  obtains q taken where "queue_inv OUTBOUND_Q_CAP q"
    "queued c = taken @ contents OUTBOUND_Q_CAP q" "length (frames taken) \<le> OUT_BATCH_SIZE"
    "frames taken = [] \<longrightarrow> contents OUTBOUND_Q_CAP q = []"
    "drain_writes c = (c\<lparr>write_wakeup_pending := False, out_batch := frames taken, out_batch_sent := 0,
         outbound := q, write_in_progress := frames taken \<noteq> []\<rparr>,
       if frames taken = [] then [] else [Start_Write (frames taken)])"
proof -
  from drain_empty_batch [OF assms(2,3)] obtain q taken where
    d: "drain_loop (outbound c) [] = (q, frames taken)" "queue_inv OUTBOUND_Q_CAP q"
      "queued c = taken @ contents OUTBOUND_Q_CAP q" "length (frames taken) \<le> OUT_BATCH_SIZE"
      "frames taken = [] \<longrightarrow> contents OUTBOUND_Q_CAP q = []" by blast
  have "drain_writes c = (c\<lparr>write_wakeup_pending := False, out_batch := frames taken, out_batch_sent := 0,
         outbound := q, write_in_progress := frames taken \<noteq> []\<rparr>,
       if frames taken = [] then [] else [Start_Write (frames taken)])"
    using assms(1) d(1) by (simp add: drain_writes_def start_write_def Let_def)
  with d(2-) that show thesis by blast
qed

text \<open>A drain leaves everything in order, whatever the wake-up flags were.\<close>

lemma drain_inv:
  assumes "io_core s"
  shows "io_core (after (drain_writes (conn s)) s) \<and> io_wake (after (drain_writes (conn s)) s)"
proof (cases "write_in_progress (conn s)")
  case True
  with assms show ?thesis by (simp add: drain_writes_busy io_defs)
next
  case False
  have pre: "queue_inv OUTBOUND_Q_CAP (outbound (conn s))" "list_all sendable (queued (conn s))"
    using assms by (simp_all add: io_core_def io_base_def)
  obtain q taken where q: "queue_inv OUTBOUND_Q_CAP q"
    "queued (conn s) = taken @ contents OUTBOUND_Q_CAP q" "length (frames taken) \<le> OUT_BATCH_SIZE"
    "frames taken = [] \<longrightarrow> contents OUTBOUND_Q_CAP q = []"
    "drain_writes (conn s) = ((conn s)\<lparr>write_wakeup_pending := False, out_batch := frames taken,
         out_batch_sent := 0, outbound := q, write_in_progress := frames taken \<noteq> []\<rparr>,
       if frames taken = [] then [] else [Start_Write (frames taken)])"
    by (rule drain_writes_idle [OF False pre])
  show ?thesis
  proof (cases "frames taken = []")
    case True
    with q(4) have "contents OUTBOUND_Q_CAP q = []" by simp
    then show ?thesis using assms False q(1,2) True unfolding q(5) by (simp add: io_defs)
  next
    case ne: False
    then show ?thesis using assms False q(1-3) unfolding q(5) by (simp add: io_defs)
  qed
qed

lemma disconnect_inv:
  assumes "io_base s"
  shows "io_core (after (notify_disconnect_once (conn s)) s)"
    and "io_wake s \<Longrightarrow> io_wake (after (notify_disconnect_once (conn s)) s)"
  using assms by (simp_all add: notify_disconnect_once_def close_def io_defs)

text \<open>What the reading side changes is no concern of the writing side.\<close>

lemma reading_fields:
  "0 < n \<Longrightarrow> 0 < in_size (conn s) \<Longrightarrow>
    io_core (s\<lparr>conn := (conn s)\<lparr>inbound_ready_pending := b, in_size := n, in_accum := a\<rparr>\<rparr>) = io_core s"
  "io_wake (s\<lparr>conn := (conn s)\<lparr>inbound_ready_pending := b, in_size := n, in_accum := a\<rparr>\<rparr>) = io_wake s"
  by (simp_all add: io_defs)

lemma deliver_Cons_cases:
  assumes "deliver c inq (f # fs) = (ok, c', inq', acts)"
  obtains (refused) "\<not> ok" "c' = fst (notify_disconnect_once c)" "acts = snd (notify_disconnect_once c)"
  | (pushed) inq1 acts2 where "deliver (fst (notify_inbound_ready c)) inq1 fs = (ok, c', inq', acts2)"
      "acts = snd (notify_inbound_ready c) @ acts2"
  | (large) l acts2 where "deliver c inq fs = (ok, c', inq', acts2)" "acts = l @ acts2"
      "l = [] \<or> l = [Call_Large_Message (conn_id c) (fst f) (snd f)]"
  using assms by (fastforce simp: Let_def split: if_splits prod.splits)

lemma deliver_effect:
  "deliver c inq fs = (ok, c', inq', acts) \<Longrightarrow>
     \<exists>b. c' = (if ok then c else fst (notify_disconnect_once c))\<lparr>inbound_ready_pending := b\<rparr>
       \<and> (\<forall>s. fold perform acts s =
            (if ok then s else fold perform (snd (notify_disconnect_once c)) s))"
proof (induction fs arbitrary: c inq acts)
  case Nil
  then show ?case by (intro exI [of _ "inbound_ready_pending c"]) simp
next
  case (Cons f fs)
  have n: "fst (notify_disconnect_once (fst (notify_inbound_ready c))) \<lparr>inbound_ready_pending := b\<rparr> =
      fst (notify_disconnect_once c) \<lparr>inbound_ready_pending := b\<rparr>"
    "fst (notify_inbound_ready c) \<lparr>inbound_ready_pending := b\<rparr> = c \<lparr>inbound_ready_pending := b\<rparr>"
    "snd (notify_disconnect_once (fst (notify_inbound_ready c))) = snd (notify_disconnect_once c)"
    "fold perform (snd (notify_inbound_ready c)) s = s" for b s
    by (simp_all add: notify_inbound_ready_def notify_disconnect_once_def close_def)
  from Cons.prems show ?case
  proof (cases rule: deliver_Cons_cases)
    case refused
    then show ?thesis
      by (intro exI [of _ "inbound_ready_pending (fst (notify_disconnect_once c))"]) simp
  next
    case (pushed inq1 acts2)
    from Cons.IH [OF pushed(1)] pushed(2) show ?thesis by (cases ok) (auto simp: n)
  next
    case (large l acts2)
    from Cons.IH [OF large(1)] large(2,3) show ?thesis by (cases ok) auto
  qed
qed

lemma new_size_pos: "0 < in_size c \<Longrightarrow> 0 < new_size c bytes"
  using grow_returns [of "in_size c" "length (in_accum c @ bytes)"] by (auto simp: new_size_def)

lemma read_inv:
  assumes "io_core s" "io_wake s"
    and "handle_read (conn s) inq received = Some (c, inq', acts)"
  shows "io_core (after (c, acts) s) \<and> io_wake (after (c, acts) s)"
proof -
  let ?d = "notify_disconnect_once (conn s)"
  have base: "io_base s" using assms(1) by (simp add: io_core_def)
  then have size: "0 < in_size (conn s)" by (simp add: io_base_def)
  show ?thesis
  proof (cases received)
    case None
    with assms(3) have "after (c, acts) s = after ?d s"
      by (simp add: handle_read_def after_def split: prod.splits)
    with disconnect_inv [OF base] assms(2) show ?thesis by simp
  next
    case (Some bytes)
    let ?bs = "in_accum (conn s) @ bytes"
    obtain ok c1 inq1 acts1 where
      d: "deliver (conn s) inq (fst (deframe ?bs)) = (ok, c1, inq1, acts1)" by (metis prod_cases4)
    from deliver_effect [OF d] obtain b where
      b: "c1 = (if ok then conn s else fst ?d)\<lparr>inbound_ready_pending := b\<rparr>"
        "\<And>s. fold perform acts1 s = (if ok then s else fold perform (snd ?d) s)" by blast
    from handle_read_eq [OF size, of inq bytes] assms(3) Some d new_size_pos [OF size, of bytes]
    obtain n a r where
      r: "c = c1\<lparr>in_size := n, in_accum := a\<rparr>" "0 < n" "acts = acts1 @ r" "r = [] \<or> r = [Start_Read]"
      by auto
    have "fold perform acts s' = fold perform acts1 s'" for s' using r(3,4) by auto
    then have "after (c, acts) s =
        (let s1 = (if ok then s else after ?d s) in s1\<lparr>conn := (conn s1)\<lparr>
           inbound_ready_pending := b, in_size := n, in_accum := a\<rparr>\<rparr>)"
      using b r(1) by (simp add: after_def notify_disconnect_once_def close_def)
    moreover have "0 < in_size (conn (after ?d s))"
      using disconnect_inv(1) [OF base] by (simp add: io_core_def io_base_def)
    ultimately show ?thesis
      using assms(1,2) disconnect_inv [OF base] size r(2) by (simp add: reading_fields Let_def)
  qed
qed

lemma written_inv:
  assumes "io_core s" "io_wake s" "in_flight s = Some bs" "socket_open (conn s)" "0 < n" "n \<le> length bs"
  defines "s1 \<equiv> s\<lparr>in_flight := None, written := written s @ take n bs\<rparr>"
  shows "io_core (after (handle_write (conn s) (Some n)) s1)
     \<and> io_wake (after (handle_write (conn s) (Some n)) s1)"
proof -
  let ?c = "conn s" and ?c1 = "(conn s)\<lparr>out_batch_sent := out_batch_sent (conn s) + n\<rparr>"
  have wip: "write_in_progress ?c" and bs: "bs = drop (out_batch_sent ?c) (out_batch ?c)"
    using assms(1,3) by (auto simp: io_defs split: if_splits)
  have nd: "\<not> disconnect_notified ?c" using assms(1,4) by (simp add: io_defs)
  have eq: "written s @ bs @ frames (queued ?c) = frames (accepted s)"
    using assms(1) nd wip by (simp add: io_defs bs)
  then have eq': "(written s @ take n bs) @ drop n bs @ frames (queued ?c) = frames (accepted s)"
    by (metis append.assoc append_take_drop_id)
  then have pf: "prefix (written s @ take n bs) (frames (accepted s))" by (metis prefixI)
  have rest: "drop n bs = drop (out_batch_sent ?c1) (out_batch ?c1)" by (simp add: bs add.commute)
  show ?thesis
  proof (cases "out_batch_sent ?c1 < length (out_batch ?c1)")
    case True
    then have "handle_write ?c (Some n) = start_write ?c1" by (simp add: handle_write_def)
    then show ?thesis
      using True assms(1,2) wip nd eq' pf rest by (simp add: start_write_def io_defs s1_def)
  next
    case False
    let ?c2 = "?c1\<lparr>write_in_progress := False\<rparr>"
    have done_bs: "drop n bs = []" using False rest by simp
    let ?s2 = "s1\<lparr>conn := ?c2\<rparr>"
    have core: "io_core ?s2" using assms(1) nd eq' pf done_bs by (simp add: io_defs s1_def)
    then have core': "io_core (s1\<lparr>conn := ?c2\<lparr>write_wakeup_pending := False\<rparr>\<rparr>)"
      by (simp add: io_defs)
    have hw: "handle_write ?c (Some n) =
        (if peek OUTBOUND_Q_CAP (outbound ?c2) \<noteq> None then drain_writes ?c2
         else if write_wakeup_pending ?c2 then drain_writes (?c2\<lparr>write_wakeup_pending := False\<rparr>)
         else (?c2, []))"
      using False by (simp add: handle_write_def)
    have idle: "io_wake ?s2" if "peek OUTBOUND_Q_CAP (outbound ?c2) = None" "\<not> write_wakeup_pending ?c2"
      using that by (simp add: io_wake_def peek_contents split: list.splits)
    from drain_inv [OF core] drain_inv [OF core'] core idle show ?thesis
      unfolding hw by (simp add: after_def)
  qed
qed

lemma engine_inv:
  assumes "io_core s" "io_wake s"
  shows "enqueue (conn s) type bytes = (True, c) \<Longrightarrow> payload_size_for_code type \<le> length bytes \<Longrightarrow>
      io_core (s\<lparr>conn := c, pushing := True,
        accepted := accepted s @ [outbound_message (conn_id (conn s)) type bytes]\<rparr>)
      \<and> io_wake (s\<lparr>conn := c, pushing := True,
        accepted := accepted s @ [outbound_message (conn_id (conn s)) type bytes]\<rparr>)"
    and "pushing s \<Longrightarrow> io_core (after (schedule_drain_writes (conn s)) (s\<lparr>pushing := False\<rparr>))
      \<and> io_wake (after (schedule_drain_writes (conn s)) (s\<lparr>pushing := False\<rparr>))"
proof -
  let ?m = "outbound_message (conn_id (conn s)) type bytes"
  have q: "queue_inv OUTBOUND_Q_CAP (outbound (conn s))" using assms by (simp add: io_defs)
  show "io_core (s\<lparr>conn := c, pushing := True, accepted := accepted s @ [?m]\<rparr>)
      \<and> io_wake (s\<lparr>conn := c, pushing := True, accepted := accepted s @ [?m]\<rparr>)"
    if e: "enqueue (conn s) type bytes = (True, c)" "payload_size_for_code type \<le> length bytes"
  proof -
    from enqueue_cases(1) [OF e(1) q] have c: "queue_inv OUTBOUND_Q_CAP (outbound c)"
      "queued c = queued (conn s) @ [?m]" "c = (conn s)\<lparr>outbound := outbound c\<rparr>" and
      "\<not> MAX_PAYLOAD_SIZE_BUFFER < payload_size_for_code type" by simp_all
    from sendable_outbound [OF this(4) e(2)] have "sendable ?m" .
    moreover obtain q' where "c = (conn s)\<lparr>outbound := q'\<rparr>" using c(3) by blast
    ultimately show ?thesis using assms c(1,2) by (auto simp: io_defs)
  qed
  show "io_core (after (schedule_drain_writes (conn s)) (s\<lparr>pushing := False\<rparr>))
      \<and> io_wake (after (schedule_drain_writes (conn s)) (s\<lparr>pushing := False\<rparr>))" if "pushing s"
    using assms by (auto simp: schedule_drain_writes_def io_defs)
qed

lemma io_step_inv:
  assumes "io_step s s'" "io_core s \<and> io_wake s"
  shows "io_core s' \<and> io_wake s'"
  using assms
proof (induction rule: io_step.induct)
  case (engine_push s type bytes c)
  then show ?case using engine_inv(1) by blast
next
  case (engine_refused s type bytes c)
  then have "queue_inv OUTBOUND_Q_CAP (outbound (conn s))" by (simp add: io_defs)
  from enqueue_cases(2) [OF engine_refused(2) this] have "c = conn s" by simp
  with engine_refused show ?case by simp
next
  case (engine_wakes s)
  then show ?case using engine_inv(2) by blast
next
  case (drain_runs s n)
  then have "io_core (s\<lparr>posted := n\<rparr>)" by (simp add: io_defs)
  from drain_inv [OF this] show ?case by simp
next
  case (socket_took s bs n)
  then show ?case using written_inv by blast
next
  case (write_fails s bs)
  let ?s = "s\<lparr>in_flight := None, conn := (conn s)\<lparr>write_in_progress := False\<rparr>\<rparr>"
  have "io_base ?s" using write_fails by (simp add: io_defs)
  from disconnect_inv(1) [OF this] have "io_core (after (handle_write (conn s) None) (s\<lparr>in_flight := None\<rparr>))"
    by (simp add: handle_write_def after_def)
  moreover have "io_wake (after (handle_write (conn s) None) (s\<lparr>in_flight := None\<rparr>))"
    using write_fails by (simp add: handle_write_def notify_disconnect_once_def close_def io_defs)
  ultimately show ?case by blast
next
  case (reads s inq received c inq' acts)
  then show ?case using read_inv by blast
next
  case (wakes_engine s)
  have "after (inbound_ready_task (conn s)) s = s\<lparr>conn := (conn s)\<lparr>inbound_ready_pending := False\<rparr>\<rparr>"
    by (simp add: inbound_ready_task_def after_def)
  with wakes_engine show ?case by (auto simp: io_defs split: if_splits)
qed

definition fresh :: "Connection \<Rightarrow> bool" where
  "fresh c \<longleftrightarrow> queue_inv OUTBOUND_Q_CAP (outbound c) \<and> queued c = [] \<and> \<not> write_in_progress c
     \<and> \<not> write_wakeup_pending c \<and> socket_open c \<and> \<not> disconnect_notified c \<and> 0 < in_size c"

lemma io_reachable_inv: "io_reachable c s \<Longrightarrow> fresh c \<Longrightarrow> io_core s \<and> io_wake s"
proof (induction rule: io_reachable.induct)
  case start
  then show ?case by (simp add: fresh_def io_init_def io_defs)
next
  case (step s s')
  then show ?case using io_step_inv by blast
qed

lemma port_fresh: "fresh port"
proof -
  have "queue_inv OUTBOUND_Q_CAP (outbound port)"
    by (simp add: port_def Connection_init_def new_queue_inv caps_ok)
  then show ?thesis by (simp add: fresh_def port_def Connection_init_def READ_SIZE_def)
qed

text \<open>A run for the witnesses: one cancel request is queued, drained and written.\<close>

definition cancel_bytes :: "byte list" where
  "cancel_bytes = replicate 8 1"

abbreviation cancel_message :: OutboundMessage where
  "cancel_message \<equiv> outbound_message 4 4 cancel_bytes"

lemma cancel_code: "payload_size_for_code 4 = 8"
  using type_of_type_code [of CANCEL_ORDER] by (simp add: payload_size_for_code_def codec_size)

lemma port_fields:
  "conn_id port = 4" "\<not> write_in_progress port" "\<not> write_wakeup_pending port"
  "\<not> disconnect_notified port" "socket_open port"
  by (simp_all add: port_def Connection_init_def)

lemma one_message_queued:
  obtains c1 where "enqueue port 4 cancel_bytes = (True, c1)" "queue_inv OUTBOUND_Q_CAP (outbound c1)"
    "queued c1 = [cancel_message]" "c1 = port\<lparr>outbound := outbound c1\<rparr>"
proof -
  have q0: "queue_inv OUTBOUND_Q_CAP (outbound port)" "queued port = []"
    using port_fresh by (simp_all add: fresh_def)
  have room: "length (queued port) < unat OUTBOUND_Q_CAP" by (simp only: q0(2)) (simp add: OUTBOUND_Q_CAP_def)
  obtain b q1 where p: "try_push OUTBOUND_Q_CAP cancel_message (outbound port) = (b, q1)" by fastforce
  with ring.push_room [OF q0(1) room, of cancel_message] have b by simp
  then have e: "enqueue port 4 cancel_bytes = (True, port\<lparr>outbound := q1\<rparr>)"
    using p port_fields(1) cancel_code by (simp add: enqueue_def outbound_message_def max_sizes)
  show ?thesis
    using enqueue_cases(1) [OF e q0(1)] q0(2) port_fields(1) by (intro that [OF e]) simp_all
qed

lemma one_message_run:
  "\<exists>s. io_reachable port s \<and> accepted s = [outbound_message 4 4 cancel_bytes]
     \<and> \<not> disconnect_notified (conn s) \<and> \<not> pushing s \<and> posted s = 0 \<and> in_flight s = None"
proof -
  let ?m = "cancel_message"
  note code = cancel_code and port = port_fields
  obtain c1 where e: "enqueue port 4 cancel_bytes = (True, c1)"
    and c1: "queue_inv OUTBOUND_Q_CAP (outbound c1)" "queued c1 = [?m]" "c1 = port\<lparr>outbound := outbound c1\<rparr>"
    using one_message_queued by blast
  have m: "sendable ?m" by (rule sendable_outbound) (simp_all add: code max_sizes cancel_bytes_def)
  let ?s1 = "(io_init port)\<lparr>conn := c1, pushing := True, accepted := [?m]\<rparr>"
  have "io_step (io_init port) ?s1"
    using io_step.engine_push [of "io_init port" 4 cancel_bytes c1] e port(1)
    by (simp add: io_init_def code cancel_bytes_def)
  then have r1: "io_reachable port ?s1" by (meson io_reachable.intros)
  let ?s2 = "?s1\<lparr>conn := c1\<lparr>write_wakeup_pending := True\<rparr>, pushing := False, posted := 1\<rparr>"
  have nw: "\<not> write_wakeup_pending c1" "\<not> write_in_progress c1" "\<not> disconnect_notified c1" "socket_open c1"
    using port by (subst c1(3), simp)+
  have "io_step ?s1 ?s2"
    using io_step.engine_wakes [of ?s1] nw
    by (simp add: schedule_drain_writes_def after_def io_init_def)
  with r1 have r2: "io_reachable port ?s2" by (rule io_reachable.step)
  let ?c2 = "c1\<lparr>write_wakeup_pending := True\<rparr>"
  obtain q taken where d: "queue_inv OUTBOUND_Q_CAP q" "queued ?c2 = taken @ contents OUTBOUND_Q_CAP q"
    "frames taken = [] \<longrightarrow> contents OUTBOUND_Q_CAP q = []"
    "drain_writes ?c2 = (?c2\<lparr>write_wakeup_pending := False, out_batch := frames taken, out_batch_sent := 0,
         outbound := q, write_in_progress := frames taken \<noteq> []\<rparr>,
       if frames taken = [] then [] else [Start_Write (frames taken)])"
    by (rule drain_writes_idle [of ?c2]) (use nw c1 m in auto)
  have t: "taken = [?m]" "contents OUTBOUND_Q_CAP q = []" "frame_of ?m \<noteq> []"
    using d(2,3) c1(2) by (auto simp: Cons_eq_append_conv frame_of_def)
  let ?c3 = "?c2\<lparr>write_wakeup_pending := False, out_batch := frame_of ?m, out_batch_sent := 0,
         outbound := q, write_in_progress := True\<rparr>"
  let ?s3 = "?s2\<lparr>conn := ?c3, posted := 0, in_flight := Some (frame_of ?m)\<rparr>"
  have "io_step ?s2 ?s3"
    using io_step.drain_runs [of ?s2 0] d(4) t by (simp add: after_def io_init_def)
  with r2 have r3: "io_reachable port ?s3" by (rule io_reachable.step)
  have "handle_write ?c3 (Some (length (frame_of ?m))) =
      (?c3\<lparr>out_batch_sent := length (frame_of ?m), write_in_progress := False\<rparr>, [])"
    using t(2) by (simp add: handle_write_def peek_contents)
  then have "io_step ?s3 (?s3\<lparr>in_flight := None, written := frame_of ?m,
      conn := ?c3\<lparr>out_batch_sent := length (frame_of ?m), write_in_progress := False\<rparr>\<rparr>)" (is "io_step _ ?s4")
    using io_step.socket_took [of ?s3 "frame_of ?m" "length (frame_of ?m)"] t(3) nw
    by (simp add: after_def io_init_def)
  with r3 have "io_reachable port ?s4" by (rule io_reachable.step)
  then show ?thesis using nw by (intro exI [of _ ?s4]) (simp add: io_init_def)
qed

section \<open>Properties of sending\<close>





end
