(* ===== verification/Exchange.thy ===== *)
theory Exchange
  imports Book_Snapshot Connectivity_Write
begin

text \<open>
  The exchange of src/exchange.hpp and src/exchange.cpp: the connections, the market-data
  subscribers, the order book and the counters, with the handlers that dispatch inbound messages
  to the book and the callbacks that turn the book's events into messages.  A handler is a
  function on the record \<open>Exchange\<close>; what it asks of Boost.Asio and of its connections' I/O is
  appended to \<open>outputs\<close>, and what it logs to \<open>event_log\<close>.

  A \<open>Connection*\<close> is the id of the connection it points to: \<open>clients_\<close> owns the objects and
  \<open>conn_by_id_\<close> the pointers.  The book makes its callbacks while it works; they do not touch
  the book, so running them on its events in order afterwards is the same.  The clock is a
  parameter: a request is given the times the code reads.
\<close>

section \<open>State\<close>

definition MAX_CONNECTIONS :: nat where
  "MAX_CONNECTIONS = 2 ^ 5"

datatype ExAction =
    Conn_Action Id_t IoAction
  | Async_Read Id_t
  | Post_Engine_Drain
  | Post_Erase Id_t
  | Accept_Next
  | Post_Close_Acceptor

record Exchange =
  inbox :: InboundQueue
  running :: bool
  engine_drain_scheduled :: bool
  clients :: "Id_t \<rightharpoonup> Connection"
  conn_by_id :: "nat \<Rightarrow> Id_t option"
  market_data_subscribers :: "Id_t list"
  order_book :: OrderBook
  next_connection_id :: Id_t
  trade_id :: Id_t
  sequence_number :: Id_t
  event_log :: "Payload list"
  outputs :: "ExAction list"

section \<open>Sending\<close>

definition conn_ptr :: "Exchange \<Rightarrow> Id_t \<Rightarrow> Id_t option" where
  "conn_ptr ex i = (if MAX_CONNECTIONS \<le> unat i then None else conn_by_id ex (unat i))"

text \<open>A call of a member function through a pointer.\<close>

definition on_connection ::
    "Exchange \<Rightarrow> Id_t \<Rightarrow> (Connection \<Rightarrow> Connection \<times> IoAction list) \<Rightarrow> Exchange" where
  "on_connection ex p f =
    (case clients ex p of None \<Rightarrow> ex
     | Some c \<Rightarrow> let (c1, acts) = f c in
         ex\<lparr>clients := (clients ex)(p \<mapsto> c1), outputs := outputs ex @ map (Conn_Action p) acts\<rparr>)"

definition send_to :: "Exchange \<Rightarrow> Id_t \<Rightarrow> MessageType \<Rightarrow> Payload \<Rightarrow> Exchange" where
  "send_to ex client_id t p =
    (case conn_ptr ex client_id of None \<Rightarrow> ex
     | Some c \<Rightarrow> on_connection ex c (\<lambda>conn. send_message conn (type_code t) (payload_image p)))"

definition broadcast_to_subscribers :: "Exchange \<Rightarrow> MessageType \<Rightarrow> Payload \<Rightarrow> Exchange" where
  "broadcast_to_subscribers ex t p =
    foldl (\<lambda>e cid. case conn_ptr e cid of None \<Rightarrow> e
             | Some c \<Rightarrow> on_connection e c (\<lambda>conn. send_message conn (type_code t) (payload_image p)))
      ex (market_data_subscribers ex)"

definition log_message :: "Exchange \<Rightarrow> Payload \<Rightarrow> Exchange" where
  "log_message ex p = ex\<lparr>event_log := event_log ex @ [p]\<rparr>"

section \<open>Subscriptions and connections\<close>

definition subscribe_market_feed :: "Exchange \<Rightarrow> Id_t \<Rightarrow> Exchange" where
  "subscribe_market_feed ex0 cid =
    (let ex = ex0\<lparr>market_data_subscribers := market_data_subscribers ex0 @ [cid]\<rparr>;
         seq = sequence_number ex;
         bs = build_snapshot (order_book ex);
         snapshot = make_order_book_snapshot (BookSnapshot.ask_prices bs) (BookSnapshot.ask_volumes bs)
           (BookSnapshot.bid_prices bs) (BookSnapshot.bid_volumes bs) seq
     in case conn_ptr ex cid of None \<Rightarrow> ex
        | Some c \<Rightarrow> on_connection ex c (\<lambda>conn. send_message_unbuffered conn
            (type_code ORDER_BOOK_SNAPSHOT) (Some (image PayloadOrderBookSnapshot_codec snapshot))
            (of_nat (sizeof PayloadOrderBookSnapshot_codec))))"

text \<open>The first occurrence is swapped with the back and the back removed.\<close>

fun index_of :: "'a \<Rightarrow> 'a list \<Rightarrow> nat" where
  "index_of x [] = 0"
| "index_of x (y # ys) = (if x = y then 0 else Suc (index_of x ys))"

definition unsubscribe_market_feed :: "Exchange \<Rightarrow> Id_t \<Rightarrow> Exchange" where
  "unsubscribe_market_feed ex cid =
    (let subs = market_data_subscribers ex; it = index_of cid subs in
     if it \<noteq> length subs
     then ex\<lparr>market_data_subscribers := butlast (subs[it := last subs, length subs - 1 := subs ! it])\<rparr>
     else ex)"

definition remove_connection :: "Exchange \<Rightarrow> Id_t \<Rightarrow> Exchange" where
  "remove_connection ex0 cid =
    (let ex = unsubscribe_market_feed ex0 cid;
         ex1 = (if unat cid < MAX_CONNECTIONS
                then ex\<lparr>conn_by_id := (conn_by_id ex)(unat cid := None)\<rparr> else ex)
     in ex1\<lparr>outputs := outputs ex1 @ [Post_Erase cid]\<rparr>)"

text \<open>The task it dispatches to the accept strand.\<close>

definition erase_task :: "Exchange \<Rightarrow> Id_t \<Rightarrow> Exchange" where
  "erase_task ex cid =
    (case clients ex cid of None \<Rightarrow> ex
     | Some c \<Rightarrow> let (c1, acts) = close c in
         ex\<lparr>clients := (clients ex)(cid := None), outputs := outputs ex @ map (Conn_Action cid) acts\<rparr>)"

definition publish_connection :: "Exchange \<Rightarrow> Id_t \<Rightarrow> Connection \<Rightarrow> Exchange" where
  "publish_connection ex i state =
    (if MAX_CONNECTIONS \<le> unat i then ex
     else ex\<lparr>clients := emplace (clients ex) i state,
            conn_by_id := (conn_by_id ex)(unat i := Some i)\<rparr>)"

definition schedule_engine_drain :: "Exchange \<Rightarrow> Exchange" where
  "schedule_engine_drain ex =
    (if engine_drain_scheduled ex then ex
     else ex\<lparr>engine_drain_scheduled := True, outputs := outputs ex @ [Post_Engine_Drain]\<rparr>)"

text \<open>The two callbacks every connection gets.\<close>

definition on_disconnected :: "Exchange \<Rightarrow> Id_t \<Rightarrow> Exchange" where
  "on_disconnected ex cid =
    (let m = \<lparr>InboundMessage.connection_id = cid, message_type = type_code DISCONNECT,
              payload_size = 0, payload = payload_array []\<rparr>;
         (pushed, q) = try_push INBOUND_Q_CAP m (inbox ex)
     in if pushed then schedule_engine_drain (ex\<lparr>inbox := q\<rparr>) else ex\<lparr>inbox := q\<rparr>)"

definition on_inbound_ready :: "Exchange \<Rightarrow> Exchange" where
  "on_inbound_ready ex = (if \<not> running ex then ex else schedule_engine_drain ex)"

datatype accept_result = Accepted | Accept_Aborted | Accept_Failed

text \<open>\<open>acceptor_open\<close> is what \<open>acceptor_.is_open()\<close> answers, \<open>slot0\<close> the message a fresh outbox
  holds in its slots.\<close>

definition on_accepted :: "Exchange \<Rightarrow> accept_result \<Rightarrow> bool \<Rightarrow> OutboundMessage \<Rightarrow> Exchange" where
  "on_accepted ex ec acceptor_open slot0 =
    (let accept = (\<lambda>e. if acceptor_open then e\<lparr>outputs := outputs e @ [Accept_Next]\<rparr> else e) in
     case ec of Accept_Aborted \<Rightarrow> ex
     | Accept_Failed \<Rightarrow> accept ex
     | Accepted \<Rightarrow>
        (let i = next_connection_id ex;
             ex1 = ex\<lparr>next_connection_id := i + 1\<rparr>;
             conn = (Connection_init i (new_queue OUTBOUND_Q_CAP slot0))
               \<lparr>disconnected_set := True, inbound_ready_set := True\<rparr>;
             ex2 = ex1\<lparr>outputs := outputs ex1 @ [Async_Read i]\<rparr>
         in accept (publish_connection ex2 i conn)))"

definition start :: "Exchange \<Rightarrow> Exchange" where
  "start ex = ex\<lparr>running := True, outputs := outputs ex @ [Accept_Next]\<rparr>"

definition stop :: "Exchange \<Rightarrow> Exchange" where
  "stop ex = ex\<lparr>running := False, outputs := outputs ex @ [Post_Close_Acceptor],
     conn_by_id := (\<lambda>i. if i < MAX_CONNECTIONS then None else conn_by_id ex i),
     clients := Map.empty, market_data_subscribers := []\<rparr>"

definition Exchange_init :: "InboundMessage \<Rightarrow> OrderBook \<Rightarrow> Exchange" where
  "Exchange_init slot0 book =
    \<lparr>inbox = new_queue INBOUND_Q_CAP slot0, running = False, engine_drain_scheduled = False,
     clients = Map.empty, conn_by_id = (\<lambda>_. None), market_data_subscribers = [],
     order_book = book, next_connection_id = 0, trade_id = 0, sequence_number = 0,
     event_log = [], outputs = []\<rparr>"

section \<open>The book's callbacks\<close>

definition on_trade :: "Exchange \<Rightarrow> Order \<Rightarrow> Id_t \<Rightarrow> Id_t \<Rightarrow> Price_t \<Rightarrow> Volume_t \<Rightarrow> Volume_t \<Rightarrow>
    Volume_t \<Rightarrow> Time_t \<Rightarrow> Exchange" where
  "on_trade ex0 maker_order taker_client_id taker_order_id price' taker_total_quantity
     taker_cumulative_quantity traded_quantity' ts =
    (let tid = trade_id ex0;
         seq = sequence_number ex0;
         ex = ex0\<lparr>trade_id := tid + 1, sequence_number := seq + 1\<rparr>;
         maker_fill_message = make_partial_fill (o_order_id maker_order) tid price' traded_quantity'
           (o_quantity_remaining maker_order) (o_quantity_cumulative maker_order) ts;
         ex1 = send_to ex (o_client_id maker_order) PARTIAL_FILL_ORDER (PartialFill maker_fill_message);
         taker_fill_message = make_partial_fill taker_order_id tid price' traded_quantity'
           (taker_total_quantity - taker_cumulative_quantity) taker_cumulative_quantity ts;
         ex2 = send_to ex1 taker_client_id PARTIAL_FILL_ORDER (PartialFill taker_fill_message);
         trade_message = make_trade_event seq tid price' traded_quantity'
           (if o_is_bid maker_order then SELL else BUY) ts;
         ex3 = broadcast_to_subscribers ex2 TRADE_EVENT (TradeEvent trade_message)
     in log_message ex3 (TradeEvent trade_message))"

definition on_order_inserted :: "Exchange \<Rightarrow> Id_t \<Rightarrow> Order \<Rightarrow> Time_t \<Rightarrow> Exchange" where
  "on_order_inserted ex0 req order ts =
    (let seq = sequence_number ex0;
         ex = ex0\<lparr>sequence_number := seq + 1\<rparr>;
         side' = (if o_is_bid order then BUY else SELL);
         confirmation_message = make_confirm_order_inserted req (o_order_id order) side'
           (o_price order) (o_quantity order) (o_quantity_remaining order) ts;
         ex1 = send_to ex (o_client_id order) CONFIRM_ORDER_INSERTED
           (ConfirmOrderInserted confirmation_message);
         insert_message = make_order_inserted_event seq (o_order_id order) side' (o_price order)
           (o_quantity_remaining order) ts;
         ex2 = broadcast_to_subscribers ex1 ORDER_INSERTED_EVENT (OrderInsertedEvent insert_message)
     in log_message ex2 (OrderInsertedEvent insert_message))"

definition on_order_cancelled :: "Exchange \<Rightarrow> Id_t \<Rightarrow> Order \<Rightarrow> Time_t \<Rightarrow> Exchange" where
  "on_order_cancelled ex0 req order ts =
    (let seq = sequence_number ex0;
         ex = ex0\<lparr>sequence_number := seq + 1\<rparr>;
         confirmation_message = make_confirm_order_cancelled req (o_order_id order)
           (o_quantity_remaining order) (o_price order) (if o_is_bid order then BUY else SELL) ts;
         ex1 = send_to ex (o_client_id order) CONFIRM_ORDER_CANCELLED
           (ConfirmOrderCancelled confirmation_message);
         cancel_message = make_order_cancelled_event seq (o_order_id order)
           (o_quantity_remaining order) ts;
         ex2 = broadcast_to_subscribers ex1 ORDER_CANCELLED_EVENT (OrderCancelledEvent cancel_message)
     in log_message ex2 (OrderCancelledEvent cancel_message))"

definition on_order_amended :: "Exchange \<Rightarrow> Id_t \<Rightarrow> Volume_t \<Rightarrow> Order \<Rightarrow> Time_t \<Rightarrow> Exchange" where
  "on_order_amended ex0 req quantity_old' order ts =
    (let seq = sequence_number ex0;
         ex = ex0\<lparr>sequence_number := seq + 1\<rparr>;
         confirmation_message = make_confirm_order_amended req (o_order_id order)
           quantity_old' (o_quantity order) (o_quantity_remaining order) ts;
         ex1 = send_to ex (o_client_id order) CONFIRM_ORDER_AMENDED
           (ConfirmOrderAmended confirmation_message);
         amended_message = make_order_amended_event seq (o_order_id order) (o_quantity order)
           quantity_old' ts;
         ex2 = broadcast_to_subscribers ex1 ORDER_AMENDED_EVENT (OrderAmendedEvent amended_message)
     in log_message ex2 (OrderAmendedEvent amended_message))"

definition on_level_update :: "Exchange \<Rightarrow> Side \<Rightarrow> PriceLevel \<Rightarrow> Time_t \<Rightarrow> Exchange" where
  "on_level_update ex0 side' level ts =
    (let seq = sequence_number ex0;
         ex = ex0\<lparr>sequence_number := seq + 1\<rparr>;
         message' = make_price_level_update seq side' (l_price level) (l_total_quantity level) ts;
         ex1 = broadcast_to_subscribers ex PRICE_LEVEL_UPDATE (PriceLevelUpdate message')
     in log_message ex1 (PriceLevelUpdate message'))"

definition on_error :: "Exchange \<Rightarrow> Id_t \<Rightarrow> Id_t \<Rightarrow> 16 word \<Rightarrow> string \<Rightarrow> Time_t \<Rightarrow> Exchange" where
  "on_error ex client_id req code' message' ts =
    send_to ex client_id ERROR_MSG
      (Error (make_error req code' (map of_char message') ts))"

text \<open>The virtual call a book event stands for.\<close>

fun callback :: "BookEvent \<Rightarrow> Exchange \<Rightarrow> Exchange" where
  "callback (OnTrade maker tc to pr tot cum qty ts) ex =
     on_trade ex maker tc to pr tot cum qty ts"
| "callback (OnOrderInserted r order ts) ex = on_order_inserted ex r order ts"
| "callback (OnOrderCancelled r order ts) ex = on_order_cancelled ex r order ts"
| "callback (OnOrderAmended r q order ts) ex = on_order_amended ex r q order ts"
| "callback (OnLevelUpdate sd level ts) ex = on_level_update ex sd level ts"
| "callback (OnError cid r c msg ts) ex = on_error ex cid r c msg ts"

section \<open>Dispatch\<close>

text \<open>
  The members the casts read.  A side byte that is neither enumerator compares unequal to
  \<open>Side::BUY\<close>, so the comparison is on the byte; the lifespan is not looked at.
\<close>

definition insert_order_view :: "byte list \<Rightarrow> Price_t \<times> Volume_t \<times> bool \<times> Id_t" where
  "insert_order_view p =
    (sint (le_word (take 8 (drop 5 p)) :: 64 word), le_word (take 4 (drop 13 p)), p ! 4 = 1,
     le_word (take 4 p))"

definition cancel_order_view :: "byte list \<Rightarrow> Id_t \<times> Id_t" where
  "cancel_order_view p = (le_word (take 4 p), le_word (take 4 (drop 4 p)))"

definition amend_order_view :: "byte list \<Rightarrow> Id_t \<times> Id_t \<times> Volume_t" where
  "amend_order_view p = (le_word (take 4 p), le_word (take 4 (drop 4 p)), le_word (take 4 (drop 8 p)))"

text \<open>The times a request reads from the clock: on entry, in the matching loop, in \<open>add_order\<close>.\<close>

type_synonym tick = "Time_t \<times> Time_t \<times> Time_t"

definition run_request :: "Exchange \<Rightarrow> (OrderBook \<times> BookEvent list) option \<Rightarrow> Exchange option" where
  "run_request ex r = map_option (\<lambda>(b, evs). fold callback evs (ex\<lparr>order_book := b\<rparr>)) r"

definition dispatch :: "Exchange \<Rightarrow> tick \<Rightarrow> InboundMessage \<Rightarrow> Exchange option" where
  "dispatch ex clock msg =
    (case clock of (now, now_match, now_add) \<Rightarrow>
     case type_of_code (InboundMessage.message_type msg) of
       Some INSERT_ORDER \<Rightarrow>
        (case insert_order_view (InboundMessage.payload msg) of (pr, qty, is_bid, req) \<Rightarrow>
         run_request ex (submit_order (order_book ex) pr qty is_bid
           (InboundMessage.connection_id msg) req now now_match now_add))
     | Some CANCEL_ORDER \<Rightarrow>
        (case cancel_order_view (InboundMessage.payload msg) of (req, oid) \<Rightarrow>
         run_request ex (Some (Order_Book.cancel_order (order_book ex)
           (InboundMessage.connection_id msg) req oid now)))
     | Some AMEND_ORDER \<Rightarrow>
        (case amend_order_view (InboundMessage.payload msg) of (req, oid, q) \<Rightarrow>
         run_request ex (Some (Order_Book.amend_order (order_book ex)
           (InboundMessage.connection_id msg) req oid q now)))
     | Some SUBSCRIBE \<Rightarrow> Some (subscribe_market_feed ex (InboundMessage.connection_id msg))
     | Some UNSUBSCRIBE \<Rightarrow> Some (unsubscribe_market_feed ex (InboundMessage.connection_id msg))
     | Some DISCONNECT \<Rightarrow> Some (remove_connection ex (InboundMessage.connection_id msg))
     | _ \<Rightarrow> Some ex)"

text \<open>The loop of the engine's drain task; \<open>clock\<close> gives the times by the budget left.\<close>

fun drain_inbox :: "nat \<Rightarrow> (nat \<Rightarrow> tick) \<Rightarrow> Exchange \<Rightarrow> Exchange option" where
  "drain_inbox 0 clock ex = Some ex"
| "drain_inbox (Suc budget) clock ex =
    (case try_pop INBOUND_Q_CAP (inbox ex) of
       (None, q) \<Rightarrow> Some (ex\<lparr>inbox := q\<rparr>)
     | (Some msg, q) \<Rightarrow> do {
         ex1 \<leftarrow> dispatch (ex\<lparr>inbox := q\<rparr>) (clock budget) msg;
         drain_inbox budget clock ex1 })"

definition ENGINE_BUDGET :: nat where
  "ENGINE_BUDGET = 10000"

definition engine_drain_task :: "(nat \<Rightarrow> tick) \<Rightarrow> Exchange \<Rightarrow> Exchange option" where
  "engine_drain_task clock ex = do {
     ex1 \<leftarrow> drain_inbox ENGINE_BUDGET clock (ex\<lparr>engine_drain_scheduled := False\<rparr>);
     Some (if running ex1 \<and> size_approx (inbox ex1) \<noteq> 0 then schedule_engine_drain ex1 else ex1) }"

end
