(* ===== verification/Exchange_Callbacks.thy ===== *)
theory Exchange_Callbacks
  imports Exchange
begin

text \<open>
  What the exchange's callbacks (src/exchange.cpp) tell whom.  \<open>private_messages\<close> and
  \<open>feed_message\<close> say for one book event which messages go to which clients and which goes to the
  market feed; the callbacks are shown to queue exactly these, to number the feed without
  gaps and to leave the rest of the exchange alone.
\<close>

section \<open>Specification\<close>

fun private_messages :: "Id_t \<Rightarrow> BookEvent \<Rightarrow> (Id_t \<times> Payload) list" where
  "private_messages tid (OnTrade maker tc to pr tot cum qty ts) =
    [(o_client_id maker, PartialFill (make_partial_fill (o_order_id maker) tid pr qty
        (o_quantity_remaining maker) (o_quantity_cumulative maker) ts)),
     (tc, PartialFill (make_partial_fill to tid pr qty (tot - cum) cum ts))]"
| "private_messages tid (OnOrderInserted req order ts) =
    [(o_client_id order, ConfirmOrderInserted (make_confirm_order_inserted req (o_order_id order)
        (if o_is_bid order then BUY else SELL) (o_price order) (o_quantity order)
        (o_quantity_remaining order) ts))]"
| "private_messages tid (OnOrderCancelled req order ts) =
    [(o_client_id order, ConfirmOrderCancelled (make_confirm_order_cancelled req (o_order_id order)
        (o_quantity_remaining order) (o_price order) (if o_is_bid order then BUY else SELL) ts))]"
| "private_messages tid (OnOrderAmended req old order ts) =
    [(o_client_id order, ConfirmOrderAmended (make_confirm_order_amended req (o_order_id order) old
        (o_quantity order) (o_quantity_remaining order) ts))]"
| "private_messages tid (OnLevelUpdate sd level ts) = []"
| "private_messages tid (OnError cid req cd msg ts) =
    [(cid, Error (make_error req cd (map of_char msg) ts))]"

fun feed_message :: "Id_t \<Rightarrow> Id_t \<Rightarrow> BookEvent \<Rightarrow> Payload option" where
  "feed_message tid seq (OnTrade maker tc to pr tot cum qty ts) =
    Some (TradeEvent (make_trade_event seq tid pr qty (if o_is_bid maker then SELL else BUY) ts))"
| "feed_message tid seq (OnOrderInserted req order ts) =
    Some (OrderInsertedEvent (make_order_inserted_event seq (o_order_id order)
      (if o_is_bid order then BUY else SELL) (o_price order) (o_quantity_remaining order) ts))"
| "feed_message tid seq (OnOrderCancelled req order ts) =
    Some (OrderCancelledEvent (make_order_cancelled_event seq (o_order_id order)
      (o_quantity_remaining order) ts))"
| "feed_message tid seq (OnOrderAmended req old order ts) =
    Some (OrderAmendedEvent (make_order_amended_event seq (o_order_id order) (o_quantity order) old ts))"
| "feed_message tid seq (OnLevelUpdate sd level ts) =
    Some (PriceLevelUpdate (make_price_level_update seq sd (l_price level) (l_total_quantity level) ts))"
| "feed_message tid seq (OnError cid req cd msg ts) = None"

fun is_trade :: "BookEvent \<Rightarrow> bool" where
  "is_trade (OnTrade maker tc to pr tot cum qty ts) \<longleftrightarrow> True"
| "is_trade _ \<longleftrightarrow> False"

fun is_error :: "BookEvent \<Rightarrow> bool" where
  "is_error (OnError cid req cd msg ts) \<longleftrightarrow> True"
| "is_error _ \<longleftrightarrow> False"

text \<open>The feed of a sequence of events from given counters.\<close>

fun feed_messages :: "Id_t \<Rightarrow> Id_t \<Rightarrow> BookEvent list \<Rightarrow> Payload list" where
  "feed_messages tid seq [] = []"
| "feed_messages tid seq (ev # evs) =
    (case feed_message tid seq ev of None \<Rightarrow> [] | Some p \<Rightarrow> [p])
    @ feed_messages (if is_trade ev then tid + 1 else tid) (if is_error ev then seq else seq + 1) evs"

text \<open>All a client is told, in order: per event its private messages, then the feed message
  once for each of its subscriptions.\<close>

fun messages_for :: "Id_t list \<Rightarrow> Id_t \<Rightarrow> Id_t \<Rightarrow> Id_t \<Rightarrow> BookEvent list \<Rightarrow> Payload list" where
  "messages_for subs i tid seq [] = []"
| "messages_for subs i tid seq (ev # evs) =
    map snd (filter (\<lambda>(j, p). j = i) (private_messages tid ev))
    @ (case feed_message tid seq ev of None \<Rightarrow> [] | Some p \<Rightarrow> replicate (count_list subs i) p)
    @ messages_for subs i (if is_trade ev then tid + 1 else tid)
        (if is_error ev then seq else seq + 1) evs"

section \<open>The callbacks in one form\<close>

lemma callback_error: "is_error ev \<longleftrightarrow> feed_message tid seq ev = None"
  by (cases ev) simp_all

definition send_payload :: "Exchange \<Rightarrow> Id_t \<times> Payload \<Rightarrow> Exchange" where
  "send_payload ex m = send_to ex (fst m) (payload_type (snd m)) (snd m)"

lemma callback_eq:
  "callback ev ex =
    (let tid = trade_id ex; seq = sequence_number ex;
         ex1 = ex\<lparr>trade_id := if is_trade ev then tid + 1 else tid,
                  sequence_number := if is_error ev then seq else seq + 1\<rparr>;
         ex2 = foldl send_payload ex1 (private_messages tid ev)
     in case feed_message tid seq ev of None \<Rightarrow> ex2
        | Some p \<Rightarrow> log_message (broadcast_to_subscribers ex2 (payload_type p) p) p)"
  by (cases ev)
    (simp_all add: on_trade_def on_order_inserted_def on_order_cancelled_def on_order_amended_def
      on_level_update_def on_error_def send_payload_def Let_def)

lemma broadcast_foldl:
  "broadcast_to_subscribers ex (payload_type p) p =
     foldl send_payload ex (map (\<lambda>i. (i, p)) (market_data_subscribers ex))"
  by (simp add: broadcast_to_subscribers_def send_payload_def send_to_def foldl_map)

text \<open>Sending changes the connections and their I/O and nothing else.\<close>

definition same_but_sent :: "Exchange \<Rightarrow> Exchange \<Rightarrow> bool" where
  "same_but_sent ex ex' \<longleftrightarrow> (\<exists>cl out. ex' = ex\<lparr>clients := cl, outputs := out\<rparr>
     \<and> dom cl = dom (clients ex))"

lemma same_but_sentI:
  "ex' = ex\<lparr>clients := cl, outputs := out\<rparr> \<Longrightarrow> dom cl = dom (clients ex) \<Longrightarrow> same_but_sent ex ex'"
  unfolding same_but_sent_def by blast

lemma same_but_sent_refl [simp]: "same_but_sent ex ex"
  by (rule same_but_sentI [where cl = "clients ex" and out = "outputs ex"]) simp_all

lemma same_but_sent_trans:
  assumes "same_but_sent a b" "same_but_sent b c"
  shows "same_but_sent a c"
proof -
  obtain cl1 out1 where b: "b = a\<lparr>clients := cl1, outputs := out1\<rparr>" "dom cl1 = dom (clients a)"
    using assms(1) unfolding same_but_sent_def by blast
  obtain cl2 out2 where c: "c = b\<lparr>clients := cl2, outputs := out2\<rparr>" "dom cl2 = dom (clients b)"
    using assms(2) unfolding same_but_sent_def by blast
  show ?thesis by (rule same_but_sentI [where cl = cl2 and out = out2]) (use b c in simp_all)
qed

lemma same_but_sentD:
  assumes "same_but_sent ex ex'"
  shows "order_book ex' = order_book ex" "inbox ex' = inbox ex" "trade_id ex' = trade_id ex"
    "sequence_number ex' = sequence_number ex" "event_log ex' = event_log ex"
    "market_data_subscribers ex' = market_data_subscribers ex" "conn_by_id ex' = conn_by_id ex"
    "running ex' = running ex" "next_connection_id ex' = next_connection_id ex"
    "conn_ptr ex' = conn_ptr ex" "dom (clients ex') = dom (clients ex)"
    "engine_drain_scheduled ex' = engine_drain_scheduled ex"
proof -
  obtain cl out where "ex' = ex\<lparr>clients := cl, outputs := out\<rparr>" "dom cl = dom (clients ex)"
    using assms unfolding same_but_sent_def by blast
  then show "order_book ex' = order_book ex" "inbox ex' = inbox ex" "trade_id ex' = trade_id ex"
    "sequence_number ex' = sequence_number ex" "event_log ex' = event_log ex"
    "market_data_subscribers ex' = market_data_subscribers ex" "conn_by_id ex' = conn_by_id ex"
    "running ex' = running ex" "next_connection_id ex' = next_connection_id ex"
    "conn_ptr ex' = conn_ptr ex" "dom (clients ex') = dom (clients ex)"
    "engine_drain_scheduled ex' = engine_drain_scheduled ex"
    by (simp_all add: conn_ptr_def fun_eq_iff)
qed

lemma on_connection_same: "same_but_sent ex (on_connection ex p f)"
proof (cases "clients ex p")
  case (Some c)
  then show ?thesis
    by (intro same_but_sentI [where cl = "(clients ex)(p \<mapsto> fst (f c))"
          and out = "outputs ex @ map (Conn_Action p) (snd (f c))"])
      (auto simp: on_connection_def split: prod.split)
qed (simp add: on_connection_def)

lemma send_payload_same: "same_but_sent ex (send_payload ex m)"
  by (simp add: send_payload_def send_to_def on_connection_same split: option.split)

lemma foldl_send_same: "same_but_sent ex (foldl send_payload ex ms)"
  by (induction ms arbitrary: ex) (auto intro: same_but_sent_trans send_payload_same)

section \<open>Who gets what\<close>

text \<open>The connections as the exchange keeps them: each knows its own id, each pointer is
  kept under the id it points to, and the outboxes are in order.\<close>

definition wired :: "Exchange \<Rightarrow> bool" where
  "wired ex \<longleftrightarrow> (\<forall>j p. conn_ptr ex j = Some p \<longrightarrow> p = j)
     \<and> (\<forall>p c. clients ex p = Some c \<longrightarrow> conn_id c = p \<and> queue_inv OUTBOUND_Q_CAP (outbound c))"

definition connected :: "Exchange \<Rightarrow> Id_t \<Rightarrow> bool" where
  "connected ex i \<longleftrightarrow> conn_ptr ex i \<noteq> None \<and> i \<in> dom (clients ex)"

definition outbox :: "Exchange \<Rightarrow> Id_t \<Rightarrow> OutboundMessage list" where
  "outbox ex i = (case clients ex i of None \<Rightarrow> [] | Some c \<Rightarrow> queued c)"

definition outbound_of :: "Id_t \<Rightarrow> Payload \<Rightarrow> OutboundMessage" where
  "outbound_of i p = outbound_message i (type_code (payload_type p)) (payload_image p)"

lemma schedule_drain_keeps [simp]:
  "outbound (fst (schedule_drain_writes c)) = outbound c"
  "conn_id (fst (schedule_drain_writes c)) = conn_id c"
  by (simp_all add: schedule_drain_writes_def)

lemma payload_size_of_type_code: "payload_size_for_code (type_code t) = payload_size_for_type t"
  by (simp add: payload_size_for_code_def)

lemma send_message_outbound:
  assumes "queue_inv OUTBOUND_Q_CAP (outbound c)"
    and c'_def: "c' = fst (send_message c (type_code t) bytes)"
  shows "queue_inv OUTBOUND_Q_CAP (outbound c')" "conn_id c' = conn_id c"
    and "t \<noteq> ORDER_BOOK_SNAPSHOT \<Longrightarrow> length (queued c) < 65536 \<Longrightarrow>
       queued c' = queued c @ [outbound_message (conn_id c) (type_code t) bytes]"
proof -
  obtain ok c1 where e: "enqueue c (type_code t) bytes = (ok, c1)" by fastforce
  have c': "c' = (if ok then fst (schedule_drain_writes c1) else c1)"
    by (simp add: c'_def send_message_pieces e)
  note cases = enqueue_cases [OF e assms(1)]
  have "\<exists>q. c1 = c\<lparr>outbound := q\<rparr>" if ok using cases(1) [OF that] by blast
  then show "queue_inv OUTBOUND_Q_CAP (outbound c')" "conn_id c' = conn_id c"
    using cases assms(1) by (cases ok; auto simp: c')+
  have "ok" if "t \<noteq> ORDER_BOOK_SNAPSHOT" "length (queued c) < 65536"
  proof -
    let ?m = "outbound_message (conn_id c) (type_code t) bytes"
    have "length (queued c) < unat OUTBOUND_Q_CAP" using that(2) by (simp add: OUTBOUND_Q_CAP_def)
    from ring.push_room [OF assms(1) this, of ?m]
    obtain q where "try_push OUTBOUND_Q_CAP ?m (outbound c) = (True, q)"
      by (cases "try_push OUTBOUND_Q_CAP ?m (outbound c)") auto
    moreover have "\<not> MAX_PAYLOAD_SIZE_BUFFER < payload_size_for_code (type_code t)"
      using that(1) unfolding payload_size_of_type_code by (cases t) (simp_all add: max_sizes codec_size)
    ultimately show ok
      using e by (simp add: enqueue_def outbound_message_def Let_def)
  qed
  then show "queued c' = queued c @ [outbound_message (conn_id c) (type_code t) bytes]"
    if "t \<noteq> ORDER_BOOK_SNAPSHOT" "length (queued c) < 65536"
    using cases(1) that by (simp add: c')
qed

lemma send_payload_wired:
  assumes "wired ex"
  shows "wired (send_payload ex m)"
proof (cases "conn_ptr ex (fst m)")
  case (Some p)
  show ?thesis
  proof (cases "clients ex p")
    case (Some c)
    let ?t = "payload_type (snd m)" and ?b = "payload_image (snd m)"
    have c: "conn_id c = p" "queue_inv OUTBOUND_Q_CAP (outbound c)"
      using assms Some by (auto simp: wired_def)
    have "send_payload ex m = ex\<lparr>clients := (clients ex)(p \<mapsto> fst (send_message c (type_code ?t) ?b)),
        outputs := outputs ex @ map (Conn_Action p) (snd (send_message c (type_code ?t) ?b))\<rparr>"
      using Some \<open>conn_ptr ex (fst m) = Some p\<close>
      by (simp add: send_payload_def send_to_def on_connection_def split: prod.split)
    with assms send_message_outbound(1,2) [OF c(2) refl, of ?t ?b] c(1) show ?thesis
      by (auto simp: wired_def conn_ptr_def)
  next
    case None
    with Some assms show ?thesis by (simp add: send_payload_def send_to_def on_connection_def)
  qed
qed (use assms in \<open>simp add: send_payload_def send_to_def\<close>)

lemma send_payload_outbox:
  assumes "wired ex" "connected ex i" "payload_type (snd m) \<noteq> ORDER_BOOK_SNAPSHOT"
    and "fst m = i \<Longrightarrow> length (outbox ex i) < 65536"
  shows "outbox (send_payload ex m) i =
    outbox ex i @ (if fst m = i then [outbound_of i (snd m)] else [])"
proof (cases "conn_ptr ex (fst m)")
  case (Some p)
  then have p: "p = fst m" using assms(1) by (simp add: wired_def)
  show ?thesis
  proof (cases "clients ex p")
    case c: (Some c)
    then have inv: "conn_id c = p" "queue_inv OUTBOUND_Q_CAP (outbound c)"
      using assms(1) by (auto simp: wired_def)
    have room: "length (queued c) < 65536" if "i = p"
    proof -
      have "fst m = i" using that p by simp
      from assms(4) [OF this] c that show ?thesis by (simp add: outbox_def)
    qed
    show ?thesis
      using Some c p inv send_message_outbound(3)
        [where bytes = "payload_image (snd m)", OF inv(2) refl assms(3) room]
      by (auto simp: send_payload_def send_to_def on_connection_def outbox_def outbound_of_def
          split: prod.split)
  next
    case None
    with Some p assms(2) show ?thesis
      by (auto simp: send_payload_def send_to_def on_connection_def connected_def)
  qed
next
  case None
  with assms(2) show ?thesis by (auto simp: send_payload_def send_to_def connected_def)
qed

lemma connected_same: "same_but_sent ex ex' \<Longrightarrow> connected ex' i = connected ex i"
  by (simp add: connected_def same_but_sentD)

lemma foldl_send_outbox:
  assumes "wired ex" "connected ex i" "list_all (\<lambda>m. payload_type (snd m) \<noteq> ORDER_BOOK_SNAPSHOT) ms"
    and "length (outbox ex i) + length (filter (\<lambda>m. fst m = i) ms) \<le> 65536"
  shows "wired (foldl send_payload ex ms)"
    and "outbox (foldl send_payload ex ms) i =
       outbox ex i @ map (\<lambda>m. outbound_of i (snd m)) (filter (\<lambda>m. fst m = i) ms)"
proof -
  have "wired (foldl send_payload ex ms) \<and> outbox (foldl send_payload ex ms) i =
       outbox ex i @ map (\<lambda>m. outbound_of i (snd m)) (filter (\<lambda>m. fst m = i) ms)"
    using assms
  proof (induction ms arbitrary: ex)
    case (Cons m ms)
    have "outbox (send_payload ex m) i = outbox ex i @ (if fst m = i then [outbound_of i (snd m)] else [])"
      using Cons.prems by (intro send_payload_outbox) (simp_all split: if_splits)
    moreover from this have
      "length (outbox (send_payload ex m) i) + length (filter (\<lambda>m. fst m = i) ms) \<le> 65536"
      using Cons.prems(4) by (simp split: if_splits)
    ultimately show ?case
      using Cons.IH [of "send_payload ex m"] Cons.prems send_payload_wired
        connected_same [OF send_payload_same] by simp
  qed simp
  then show "wired (foldl send_payload ex ms)" "outbox (foldl send_payload ex ms) i =
       outbox ex i @ map (\<lambda>m. outbound_of i (snd m)) (filter (\<lambda>m. fst m = i) ms)" by simp_all
qed

section \<open>A sequence of callbacks\<close>

lemma broadcast_same: "same_but_sent ex (broadcast_to_subscribers ex (payload_type p) p)"
  by (simp add: broadcast_foldl foldl_send_same)

text \<open>What a callback leaves alone, and the counters and the log.\<close>

lemma callback_state:
  "order_book (callback ev ex) = order_book ex" "inbox (callback ev ex) = inbox ex"
  "market_data_subscribers (callback ev ex) = market_data_subscribers ex"
  "conn_by_id (callback ev ex) = conn_by_id ex" "conn_ptr (callback ev ex) = conn_ptr ex"
  "running (callback ev ex) = running ex" "next_connection_id (callback ev ex) = next_connection_id ex"
  "engine_drain_scheduled (callback ev ex) = engine_drain_scheduled ex"
  "dom (clients (callback ev ex)) = dom (clients ex)"
  "trade_id (callback ev ex) = (if is_trade ev then trade_id ex + 1 else trade_id ex)"
  "sequence_number (callback ev ex) = (if is_error ev then sequence_number ex else sequence_number ex + 1)"
  "event_log (callback ev ex) = event_log ex @
     (case feed_message (trade_id ex) (sequence_number ex) ev of None \<Rightarrow> [] | Some p \<Rightarrow> [p])"
  unfolding callback_eq Let_def
  by (simp_all add: log_message_def conn_ptr_def same_but_sentD [OF broadcast_same]
      same_but_sentD [OF foldl_send_same] fun_eq_iff split: option.split)

lemma no_snapshots:
  "list_all (\<lambda>m. payload_type (snd m) \<noteq> ORDER_BOOK_SNAPSHOT) (private_messages tid ev)"
  "feed_message tid seq ev = Some p \<Longrightarrow> payload_type p \<noteq> ORDER_BOOK_SNAPSHOT"
  by (cases ev; auto)+

lemma filter_subscribers:
  "map (\<lambda>m. outbound_of i (snd m)) (filter (\<lambda>m. fst m = i) (map (\<lambda>j. (j, p)) subs)) =
     replicate (count_list subs i) (outbound_of i p)"
  by (induction subs) auto

lemma callback_outbox:
  assumes "wired ex" "connected ex i"
    and "length (outbox ex i) + length (messages_for (market_data_subscribers ex) i
           (trade_id ex) (sequence_number ex) [ev]) \<le> 65536"
  shows "wired (callback ev ex)"
    and "outbox (callback ev ex) i = outbox ex i @ map (outbound_of i)
       (messages_for (market_data_subscribers ex) i (trade_id ex) (sequence_number ex) [ev])"
proof -
  let ?tid = "trade_id ex" and ?seq = "sequence_number ex" and ?subs = "market_data_subscribers ex"
  let ?ms = "private_messages ?tid ev"
  define ex1 where "ex1 = ex\<lparr>trade_id := if is_trade ev then ?tid + 1 else ?tid,
                  sequence_number := if is_error ev then ?seq else ?seq + 1\<rparr>"
  define ex2 where "ex2 = foldl send_payload ex1 ?ms"
  have "conn_ptr ex1 = conn_ptr ex" by (simp add: ex1_def conn_ptr_def fun_eq_iff)
  then have ex1: "wired ex1" "connected ex1 i" "outbox ex1 i = outbox ex i"
    using assms(1,2) by (simp_all add: wired_def connected_def outbox_def) (simp_all add: ex1_def)
  have priv: "map snd (filter (\<lambda>(j, p). j = i) ?ms) = map snd (filter (\<lambda>m. fst m = i) ?ms)"
    by (simp add: case_prod_unfold)
  have "length (outbox ex1 i) + length (filter (\<lambda>m. fst m = i) ?ms) \<le> 65536"
    using assms(3) by (simp add: ex1(3) case_prod_unfold)
  note s2 = foldl_send_outbox [OF ex1(1,2) no_snapshots(1) this, folded ex2_def, unfolded ex1(3)]
  have same: "same_but_sent ex1 ex2" by (simp add: ex2_def foldl_send_same)
  have subs: "market_data_subscribers ex2 = ?subs" using same_but_sentD(6) [OF same] by (simp add: ex1_def)
  have con: "connected ex2 i" using connected_same [OF same] ex1(2) by simp
  have cb: "callback ev ex = (case feed_message ?tid ?seq ev of None \<Rightarrow> ex2
      | Some p \<Rightarrow> log_message (broadcast_to_subscribers ex2 (payload_type p) p) p)"
    unfolding callback_eq ex1_def ex2_def Let_def ..
  have log: "wired (log_message e p) = wired e" "outbox (log_message e p) = outbox e" for e p
    by (simp_all add: log_message_def wired_def conn_ptr_def outbox_def fun_eq_iff)
  have "wired (callback ev ex) \<and> outbox (callback ev ex) i = outbox ex i @ map (outbound_of i)
       (messages_for ?subs i ?tid ?seq [ev])"
  proof (cases "feed_message ?tid ?seq ev")
    case None
    then show ?thesis using s2 by (simp add: cb case_prod_unfold comp_def)
  next
    case (Some p)
    let ?bs = "map (\<lambda>j. (j, p)) ?subs"
    have n: "length (filter (\<lambda>m. fst m = i) ?bs) = count_list ?subs i"
      using arg_cong [OF filter_subscribers [of i p ?subs], of length] by simp
    have "list_all (\<lambda>m. payload_type (snd m) \<noteq> ORDER_BOOK_SNAPSHOT) ?bs"
      using no_snapshots(2) [OF Some] by (simp add: list_all_iff)
    moreover have "length (outbox ex2 i) + length (filter (\<lambda>m. fst m = i) ?bs) \<le> 65536"
      using assms(3) Some s2(2) unfolding n by (simp add: case_prod_unfold)
    ultimately have "wired (foldl send_payload ex2 ?bs)"
      "outbox (foldl send_payload ex2 ?bs) i = outbox ex2 i @ replicate (count_list ?subs i) (outbound_of i p)"
      using foldl_send_outbox [OF s2(1) con] filter_subscribers [of i p ?subs] by simp_all
    then show ?thesis
      using s2(2) Some by (simp add: cb log broadcast_foldl subs case_prod_unfold comp_def)
  qed
  then show "wired (callback ev ex)" "outbox (callback ev ex) i = outbox ex i @ map (outbound_of i)
       (messages_for ?subs i ?tid ?seq [ev])" by simp_all
qed

lemma callbacks_state:
  "order_book (fold callback evs ex) = order_book ex" "inbox (fold callback evs ex) = inbox ex"
  "market_data_subscribers (fold callback evs ex) = market_data_subscribers ex"
  "conn_by_id (fold callback evs ex) = conn_by_id ex" "conn_ptr (fold callback evs ex) = conn_ptr ex"
  "running (fold callback evs ex) = running ex"
  "next_connection_id (fold callback evs ex) = next_connection_id ex"
  "engine_drain_scheduled (fold callback evs ex) = engine_drain_scheduled ex"
  "dom (clients (fold callback evs ex)) = dom (clients ex)"
  by (induction evs arbitrary: ex) (simp_all add: callback_state)

lemma callback_wired: "wired ex \<Longrightarrow> wired (callback ev ex)"
proof -
  have "wired (foldl send_payload e ms)" if "wired e" for e ms
    using that by (induction ms arbitrary: e) (simp_all add: send_payload_wired)
  moreover have "wired (e\<lparr>trade_id := t\<rparr>) = wired e" "wired (e\<lparr>sequence_number := q\<rparr>) = wired e"
    "wired (e\<lparr>trade_id := t, sequence_number := q\<rparr>) = wired e"
    "wired (log_message e p) = wired e" for e t q p
    by (simp_all add: log_message_def wired_def conn_ptr_def)
  ultimately show "wired ex \<Longrightarrow> wired (callback ev ex)"
    unfolding callback_eq Let_def broadcast_foldl by (simp split: option.split)
qed

lemma callbacks_wired: "wired ex \<Longrightarrow> wired (fold callback evs ex)"
  by (induction evs arbitrary: ex) (simp_all add: callback_wired)

lemma messages_for_append:
  "messages_for subs i tid seq (ev # evs) = messages_for subs i tid seq [ev] @
     messages_for subs i (if is_trade ev then tid + 1 else tid) (if is_error ev then seq else seq + 1) evs"
  by simp

lemma connected_callback: "connected (callback ev ex) i = connected ex i"
  by (simp add: connected_def callback_state)

section \<open>Properties of the callbacks\<close>

definition quiet :: Exchange where
  "quiet = (Exchange_init \<lparr>InboundMessage.connection_id = 0, message_type = 0, payload_size = 0,
     payload = []\<rparr> empty_book)\<lparr>clients := [4 \<mapsto> port], conn_by_id := (\<lambda>_. None)(4 := Some 4),
     market_data_subscribers := [4], next_connection_id := 5\<rparr>"

definition level100 :: PriceLevel where
  "level100 = \<lparr>l_first = None, l_last = None, l_total_quantity = 5, l_price = 100, l_idx = 99\<rparr>"

lemma quiet_wired: "wired quiet" "connected quiet 4" "outbox quiet 4 = []"
  "market_data_subscribers quiet = [4]" "trade_id quiet = 0" "sequence_number quiet = 0"
  "order_book quiet = empty_book"
proof -
  have "fresh port" by (rule port_fresh)
  then have port: "queue_inv OUTBOUND_Q_CAP (outbound port)" "queued port = []" "conn_id port = 4"
    by (simp_all add: fresh_def) (simp add: port_def Connection_init_def)
  have ptr: "conn_ptr quiet j = (if j = 4 then Some 4 else None)" for j :: Id_t
    by (auto simp: conn_ptr_def quiet_def Exchange_init_def MAX_CONNECTIONS_def word_unat_eq_iff)
  have cl: "clients quiet = [4 \<mapsto> port]" by (simp add: quiet_def)
  show "wired quiet" "connected quiet 4" "outbox quiet 4 = []"
    using port by (simp_all add: wired_def connected_def outbox_def ptr cl)
  show "market_data_subscribers quiet = [4]" "trade_id quiet = 0" "sequence_number quiet = 0"
    "order_book quiet = empty_book"
    by (simp_all add: quiet_def Exchange_init_def)
qed

text \<open>C13: The callbacks tell every client exactly what concerns it.  For any sequence of book
  events a connected client with room in its outbox gets, in order, the messages addressed to
  it (both fills of a trade with the same trade id, confirmations, errors) and every feed
  message once for each of its subscriptions, and nothing else; the book, the inbox and
  the subscriptions stay as they are.\<close>

theorem callbacks_tell_each_client_exactly:
  assumes "wired ex" "connected ex i"
    and "length (outbox ex i) + length (messages_for (market_data_subscribers ex) i
           (trade_id ex) (sequence_number ex) evs) \<le> 65536"
  shows "outbox (fold callback evs ex) i = outbox ex i @ map (outbound_of i)
       (messages_for (market_data_subscribers ex) i (trade_id ex) (sequence_number ex) evs)
    \<and> order_book (fold callback evs ex) = order_book ex \<and> inbox (fold callback evs ex) = inbox ex
    \<and> market_data_subscribers (fold callback evs ex) = market_data_subscribers ex"
proof (intro conjI)
  show "outbox (fold callback evs ex) i = outbox ex i @ map (outbound_of i)
       (messages_for (market_data_subscribers ex) i (trade_id ex) (sequence_number ex) evs)"
    using assms
  proof (induction evs arbitrary: ex)
    case (Cons ev evs)
    let ?subs = "market_data_subscribers ex" and ?tid = "trade_id ex" and ?seq = "sequence_number ex"
    have room: "length (outbox ex i) + length (messages_for ?subs i ?tid ?seq [ev]) \<le> 65536"
      using Cons.prems(3) by (subst (asm) messages_for_append) simp
    note one = callback_outbox [OF Cons.prems(1,2) room]
    have "length (outbox (callback ev ex) i) + length (messages_for ?subs i
        (if is_trade ev then ?tid + 1 else ?tid) (if is_error ev then ?seq else ?seq + 1) evs) \<le> 65536"
      using Cons.prems(3) by (subst (asm) messages_for_append) (simp add: one(2))
    with Cons.IH [of "callback ev ex"] one Cons.prems(2)
    have "outbox (fold callback evs (callback ev ex)) i = outbox (callback ev ex) i @
        map (outbound_of i) (messages_for ?subs i (if is_trade ev then ?tid + 1 else ?tid)
          (if is_error ev then ?seq else ?seq + 1) evs)"
      by (simp add: callback_state connected_callback)
    then show ?case using one(2) by (subst messages_for_append) simp
  qed simp
qed (simp_all add: callbacks_state)

theorem callbacks_tell_each_client_exactly_witness:
  "outbox (fold callback [OnError 4 9 3 ''no'' 1, OnLevelUpdate SELL level100 2] quiet) 4 =
     [outbound_of 4 (Error (make_error 9 3 (map of_char ''no'') 1)),
      outbound_of 4 (PriceLevelUpdate (make_price_level_update 0 SELL 100 5 2))]"
  using callbacks_tell_each_client_exactly [OF quiet_wired(1,2), of
      "[OnError 4 9 3 ''no'' 1, OnLevelUpdate SELL level100 2]"]
  by (simp add: quiet_wired level100_def)

text \<open>The sequence number of a feed message, and the trade id of a trade.\<close>

fun feed_sequence :: "Payload \<Rightarrow> Id_t option" where
  "feed_sequence (TradeEvent p) = Some (PayloadTradeEvent.sequence_number p)"
| "feed_sequence (OrderInsertedEvent p) = Some (PayloadOrderInsertedEvent.sequence_number p)"
| "feed_sequence (OrderCancelledEvent p) = Some (PayloadOrderCancelledEvent.sequence_number p)"
| "feed_sequence (OrderAmendedEvent p) = Some (PayloadOrderAmendedEvent.sequence_number p)"
| "feed_sequence (PriceLevelUpdate p) = Some (PayloadPriceLevelUpdate.sequence_number p)"
| "feed_sequence _ = None"

fun feed_trade :: "Payload \<Rightarrow> Id_t list" where
  "feed_trade (TradeEvent p) = [PayloadTradeEvent.trade_id p]"
| "feed_trade _ = []"

lemma feed_message_sequence: "feed_message tid seq ev = Some p \<Longrightarrow> feed_sequence p = Some seq"
  by (cases ev)
    (auto simp: make_trade_event_def make_order_inserted_event_def make_order_cancelled_event_def
      make_order_amended_event_def make_price_level_update_def)

lemma feed_message_trade:
  "feed_message tid seq ev = Some p \<Longrightarrow> feed_trade p = (if is_trade ev then [tid] else [])"
  by (cases ev) (auto simp: make_trade_event_def)

lemma map_shift: "map (\<lambda>k. f (s + 1 + of_nat k)) [0..<n] = map (\<lambda>k. f (s + of_nat k)) [Suc 0..<Suc n]"
  for s :: "'a::len word"
  by (simp add: map_Suc_upt [symmetric] comp_def add.assoc del: upt_Suc)

lemma feed_numbered:
  "map feed_sequence (feed_messages tid seq evs) =
     map (\<lambda>k. Some (seq + of_nat k)) [0..<length (feed_messages tid seq evs)]"
proof (induction evs arbitrary: tid seq)
  case (Cons ev evs)
  show ?case
  proof (cases "feed_message tid seq ev")
    case None
    then show ?thesis using Cons.IH callback_error [of ev tid seq] by simp
  next
    case (Some p)
    let ?rest = "feed_messages (if is_trade ev then tid + 1 else tid) (seq + 1) evs"
    have ne: "\<not> is_error ev" using Some callback_error [of ev tid seq] by simp
    have "map feed_sequence ?rest = map (\<lambda>k. Some (seq + of_nat k)) [Suc 0..<Suc (length ?rest)]"
      using Cons.IH [of "if is_trade ev then tid + 1 else tid" "seq + 1"]
        map_shift [of Some seq "length ?rest"]
      by (simp del: upt_Suc)
    then show ?thesis
      using Some ne feed_message_sequence [OF Some]
      by (simp add: upt_conv_Cons comp_def del: upt_Suc)
  qed
qed simp

lemma feed_trades_numbered:
  "concat (map feed_trade (feed_messages tid seq evs)) =
     map (\<lambda>k. tid + of_nat k) [0..<length (filter is_trade evs)]"
proof (induction evs arbitrary: tid seq)
  case (Cons ev evs)
  have nt: "is_trade ev \<Longrightarrow> \<not> is_error ev" by (cases ev) simp_all
  show ?case
  proof (cases "is_trade ev")
    case True
    then obtain p where "feed_message tid seq ev = Some p"
      using nt callback_error [of ev tid seq] by auto
    moreover from this feed_message_trade True have "feed_trade p = [tid]" by simp
    ultimately show ?thesis
      using True Cons.IH [of "tid + 1"] map_shift [of "\<lambda>x. x" tid "length (filter is_trade evs)"]
      by (simp add: upt_conv_Cons del: upt_Suc)
  next
    case False
    then show ?thesis
      using Cons.IH [of tid] feed_message_trade [of tid seq ev] by (auto split: option.split)
  qed
qed simp

text \<open>A client with one subscription gets the feed, interleaved with its private messages.\<close>

lemma private_not_feed: "m \<in> set (private_messages tid ev) \<Longrightarrow> feed_sequence (snd m) = None"
  by (cases ev) auto

lemma subscriber_feed:
  "count_list subs i = 1 \<Longrightarrow>
     filter (\<lambda>p. feed_sequence p \<noteq> None) (messages_for subs i tid seq evs) = feed_messages tid seq evs"
proof (induction evs arbitrary: tid seq)
  case (Cons ev evs)
  have "filter (\<lambda>p. feed_sequence p \<noteq> None) (map snd (filter (\<lambda>(j, p). j = i) (private_messages tid ev))) = []"
    using private_not_feed by (fastforce simp: filter_empty_conv)
  with Cons feed_message_sequence [of tid seq ev] show ?case
    by (auto split: option.split)
qed simp



end
