(* ===== verification/Exchange_Engine.thy ===== *)
theory Exchange_Engine
  imports Exchange_Callbacks "HOL-Library.Multiset"
begin

text \<open>
  The engine of src/exchange.cpp: that \<open>dispatch_\<close> acts on the request a client sent, that the
  drain task empties the inbox in order and always returns, with the book in order and
  itself rescheduled when messages are left, and what subscribing and unsubscribing do.
\<close>

section \<open>Reading requests\<close>

lemma insert_order_image:
  "image PayloadInsertOrder_codec (make_insert_order r s p q l) =
     le_bytes 4 r @ [case s of SELL \<Rightarrow> 0 | BUY \<Rightarrow> 1] @ le_bytes 8 (word_of_int p :: 64 word)
     @ le_bytes 4 q @ [case l of FILL_AND_KILL \<Rightarrow> 0 | GOOD_FOR_DAY \<Rightarrow> 1]"
  by (simp add: PayloadInsertOrder_codec_def make_insert_order_def struct_codec_def seq_codec_def
      word_codec_def side_codec_def lifespan_codec_def enum_codec_def int64_codec_def)

lemma cancel_order_image:
  "image PayloadCancelOrder_codec (make_cancel_order r oid) = le_bytes 4 r @ le_bytes 4 oid"
  by (simp add: PayloadCancelOrder_codec_def make_cancel_order_def struct_codec_def seq_codec_def
      word_codec_def)

lemma amend_order_image:
  "image PayloadAmendOrder_codec (make_amend_order r oid q) = le_bytes 4 r @ le_bytes 4 oid @ le_bytes 4 q"
  by (simp add: PayloadAmendOrder_codec_def make_amend_order_def struct_codec_def seq_codec_def
      word_codec_def)

lemma insert_order_view_image:
  assumes "int64 p"
  shows "insert_order_view (payload_array (image PayloadInsertOrder_codec (make_insert_order r s p q l))) =
    (p, q, s = BUY, r)"
proof -
  have "sint (word_of_int p :: 64 word) = p"
    using assms by (simp add: int64_def sint_sbintrunc' signed_take_bit_int_eq_self)
  then show ?thesis
    by (simp add: insert_order_view_def payload_array_def insert_order_image nth_append
        split: Side.split)
qed

lemma cancel_order_view_image:
  "cancel_order_view (payload_array (image PayloadCancelOrder_codec (make_cancel_order r oid))) = (r, oid)"
  by (simp add: cancel_order_view_def payload_array_def cancel_order_image)

lemma amend_order_view_image:
  "amend_order_view (payload_array (image PayloadAmendOrder_codec (make_amend_order r oid q))) = (r, oid, q)"
  by (simp add: amend_order_view_def payload_array_def amend_order_image)

text \<open>The engine acts on exactly the request a client sent.  A frame with the memory image
  of an insert, cancel or amend request of connection \<open>i\<close>, as the connection hands it over, is
  dispatched to the book's operation with the members the client put in and \<open>i\<close> as the client.
  The lifespan has no influence: an order sent as fill-and-kill is treated as any other.\<close>

theorem dispatch_acts_on_the_sent_request:
  assumes "int64 p"
  shows "dispatch ex (now, now_match, now_add) (inbound_message i (type_code INSERT_ORDER,
           image PayloadInsertOrder_codec (make_insert_order r s p q l))) =
         run_request ex (submit_order (order_book ex) p q (s = BUY) i r now now_match now_add)
    \<and> dispatch ex (now, now_match, now_add) (inbound_message i (type_code CANCEL_ORDER,
           image PayloadCancelOrder_codec (make_cancel_order r oid))) =
         run_request ex (Some (Order_Book.cancel_order (order_book ex) i r oid now))
    \<and> dispatch ex (now, now_match, now_add) (inbound_message i (type_code AMEND_ORDER,
           image PayloadAmendOrder_codec (make_amend_order r oid q))) =
         run_request ex (Some (Order_Book.amend_order (order_book ex) i r oid q now))"
proof (intro conjI)
  note codes = type_of_type_code [of INSERT_ORDER] type_of_type_code [of CANCEL_ORDER]
    type_of_type_code [of AMEND_ORDER]
  show "dispatch ex (now, now_match, now_add) (inbound_message i (type_code INSERT_ORDER,
           image PayloadInsertOrder_codec (make_insert_order r s p q l))) =
         run_request ex (submit_order (order_book ex) p q (s = BUY) i r now now_match now_add)"
    unfolding dispatch_def inbound_message_def InboundMessage.select_convs fst_conv snd_conv codes
      insert_order_view_image [OF assms] by simp
  show "dispatch ex (now, now_match, now_add) (inbound_message i (type_code CANCEL_ORDER,
           image PayloadCancelOrder_codec (make_cancel_order r oid))) =
         run_request ex (Some (Order_Book.cancel_order (order_book ex) i r oid now))"
    unfolding dispatch_def inbound_message_def InboundMessage.select_convs fst_conv snd_conv codes
      cancel_order_view_image by simp
  show "dispatch ex (now, now_match, now_add) (inbound_message i (type_code AMEND_ORDER,
           image PayloadAmendOrder_codec (make_amend_order r oid q))) =
         run_request ex (Some (Order_Book.amend_order (order_book ex) i r oid q now))"
    unfolding dispatch_def inbound_message_def InboundMessage.select_convs fst_conv snd_conv codes
      amend_order_view_image by simp
qed

theorem dispatch_acts_on_the_sent_request_witness:
  "dispatch quiet (1, 2, 3) (inbound_message 4 (3,
     image PayloadInsertOrder_codec (make_insert_order 7 SELL 100 5 FILL_AND_KILL))) =
   run_request quiet (submit_order empty_book 100 5 False 4 7 1 2 3)"
  using dispatch_acts_on_the_sent_request
    [of 100 quiet 1 2 3 4 7 SELL 5 FILL_AND_KILL]
  by (simp add: int64_def quiet_wired)

section \<open>Requests of a message\<close>

definition request_of :: "tick \<Rightarrow> InboundMessage \<Rightarrow> Request option" where
  "request_of clock msg =
    (case clock of (now, now_match, now_add) \<Rightarrow>
     let i = InboundMessage.connection_id msg; bytes = InboundMessage.payload msg in
     case type_of_code (InboundMessage.message_type msg) of
       Some INSERT_ORDER \<Rightarrow> (case insert_order_view bytes of (p, q, d, r) \<Rightarrow>
         Some (Submit p q d i r now now_match now_add))
     | Some CANCEL_ORDER \<Rightarrow> (case cancel_order_view bytes of (r, oid) \<Rightarrow> Some (Cancel i r oid now))
     | Some AMEND_ORDER \<Rightarrow> (case amend_order_view bytes of (r, oid, q) \<Rightarrow> Some (Amend i r oid q now))
     | _ \<Rightarrow> None)"

lemma on_connection_state:
  "order_book (on_connection ex p f) = order_book ex" "inbox (on_connection ex p f) = inbox ex"
  "running (on_connection ex p f) = running ex"
  "engine_drain_scheduled (on_connection ex p f) = engine_drain_scheduled ex"
  using same_but_sentD [OF on_connection_same [of ex p f]] by simp_all

lemma feeds_state:
  "order_book (subscribe_market_feed ex i) = order_book ex"
  "inbox (subscribe_market_feed ex i) = inbox ex" "running (subscribe_market_feed ex i) = running ex"
  "order_book (unsubscribe_market_feed ex i) = order_book ex"
  "inbox (unsubscribe_market_feed ex i) = inbox ex" "running (unsubscribe_market_feed ex i) = running ex"
  "order_book (remove_connection ex i) = order_book ex"
  "inbox (remove_connection ex i) = inbox ex" "running (remove_connection ex i) = running ex"
  by (simp_all add: subscribe_market_feed_def unsubscribe_market_feed_def remove_connection_def
      on_connection_state Let_def split: option.split)

text \<open>Dispatching a message runs its request, if it has one, on the book.\<close>

lemma dispatch_request:
  "(\<exists>r b evs. request_of clock msg = Some r \<and> handle (order_book ex) r = Some (b, evs)
      \<and> dispatch ex clock msg = Some (fold callback evs (ex\<lparr>order_book := b\<rparr>)))
   \<or> (\<exists>r. request_of clock msg = Some r \<and> handle (order_book ex) r = None
      \<and> dispatch ex clock msg = None)
   \<or> (\<exists>ex'. request_of clock msg = None \<and> dispatch ex clock msg = Some ex'
      \<and> order_book ex' = order_book ex \<and> inbox ex' = inbox ex \<and> running ex' = running ex)"
proof -
  obtain now nm na where c: "clock = (now, nm, na)" by (metis prod_cases3)
  show ?thesis
  proof (cases "\<exists>r. request_of clock msg = Some r")
    case True
    then obtain r where r: "request_of clock msg = Some r" by blast
    then have "dispatch ex clock msg = run_request ex (handle (order_book ex) r)"
      by (auto simp: request_of_def dispatch_def c Let_def split: option.splits MessageType.splits prod.splits)
    with r show ?thesis by (cases "handle (order_book ex) r") (auto simp: run_request_def)
  next
    case False
    then show ?thesis
      by (auto simp: request_of_def dispatch_def c Let_def feeds_state
          split: option.splits MessageType.splits prod.splits)
  qed
qed

section \<open>Draining the inbox\<close>

lemma set_side_id [simp]: "ob_order_id (set_side b d s) = ob_order_id b"
  by (simp add: set_side_def)

lemma remove_order_id [simp]: "ob_order_id (remove_order b d idx x) = ob_order_id b"
  by (simp add: remove_order_def Let_def split: prod.split)

lemma handle_order_id:
  "handle b r = Some (b', evs) \<Longrightarrow> ob_order_id b' = ob_order_id b \<or> ob_order_id b' = ob_order_id b + 1"
proof (cases r)
  case (Submit p q d i rid now nm na)
  have rest: "ob_order_id (fst (rest_order b p q d rem oid cid rid now na)) = ob_order_id b"
    for b p q d rem oid cid rid now na
    by (simp add: rest_order_def Let_def split: prod.split option.split)
  have fin: "ob_order_id (match_finish b d ms) = ob_order_id b" for b d ms
    by (simp add: match_finish_def)
  assume "handle b r = Some (b', evs)"
  then show ?thesis
  proof (cases "q = 0 \<or> p < MINIMUM_BID \<or> p > MAXIMUM_ASK")
    case True
    then show ?thesis using \<open>handle b r = Some (b', evs)\<close> by (auto simp: Submit submit_order_def split: if_splits)
  next
    case False
    then have f: "q \<noteq> 0" "\<not> (p < MINIMUM_BID \<or> p > MAXIMUM_ASK)" by simp_all
    define m where "m = (if d
        then match_buy p (ob_order_id b) i nm (match_start (b\<lparr>ob_order_id := ob_order_id b + 1\<rparr>) False q)
        else match_sell p (ob_order_id b) i nm (match_start (b\<lparr>ob_order_id := ob_order_id b + 1\<rparr>) True q))"
    define b2 where "b2 = (\<lambda>ms. match_finish (b\<lparr>ob_order_id := ob_order_id b + 1\<rparr>) (\<not> d) ms)"
    have "handle b r = m \<bind> (\<lambda>ms. if 0 < m_incoming ms
        then let (b3, evs) = rest_order (b2 ms) d p q (m_incoming ms) (ob_order_id b) i rid now na
             in Some (b3, m_events ms @ evs)
        else Some (b2 ms, m_events ms))"
      unfolding Submit handle.simps submit_order_def m_def b2_def Let_def
      by (simp only: f if_False)
    then obtain ms where "m = Some ms"
      "b' = b2 ms \<or> b' = fst (rest_order (b2 ms) d p q (m_incoming ms) (ob_order_id b) i rid now na)"
      using \<open>handle b r = Some (b', evs)\<close>
      by (cases m) (auto split: if_splits prod.splits)
    then show ?thesis by (auto simp: rest fin b2_def)
  qed
next
  case (Cancel i rid oid now)
  assume "handle b r = Some (b', evs)"
  then show ?thesis unfolding Cancel
    by (auto simp: Order_Book.cancel_order_def Let_def split: if_splits option.splits)
next
  case (Amend i rid oid q now)
  assume "handle b r = Some (b', evs)"
  then show ?thesis unfolding Amend
    by (auto simp: Order_Book.amend_order_def Let_def split: if_splits option.splits)
qed

text \<open>A message dispatched to a book in order is handled, and leaves it in order.\<close>

lemma dispatch_returns:
  assumes "wf_book (order_book ex)" "ids_left (order_book ex)"
  obtains ex' where "dispatch ex clock msg = Some ex'" "wf_book (order_book ex')"
    "inbox ex' = inbox ex" "running ex' = running ex"
    "unat (ob_order_id (order_book ex')) \<le> unat (ob_order_id (order_book ex)) + 1"
    "request_of clock msg = None \<Longrightarrow> order_book ex' = order_book ex"
    "\<And>r. request_of clock msg = Some r \<Longrightarrow>
       map_option fst (handle (order_book ex) r) = Some (order_book ex')"
proof (cases "request_of clock msg")
  case None
  with dispatch_request [of clock msg ex] that assms(1) show thesis by auto
next
  case (Some r)
  from handle_wf [OF assms, of r] obtain b evs where
    h: "handle (order_book ex) r = Some (b, evs)" "wf_book b" by blast
  let ?ex = "fold callback evs (ex\<lparr>order_book := b\<rparr>)"
  have "dispatch ex clock msg = Some ?ex" using dispatch_request [of clock msg ex] Some h by auto
  moreover have "unat (ob_order_id (order_book ?ex)) \<le> unat (ob_order_id (order_book ex)) + 1"
    using handle_order_id [OF h(1)] assms(2)
    by (auto simp: callbacks_state ids_left_def unat_add_bounded)
  ultimately show thesis using that [of ?ex] Some h by (simp add: callbacks_state)
qed

text \<open>The requests among the first messages of the inbox, with the times they are given, and
  the book after requests.\<close>

fun requests :: "(nat \<Rightarrow> tick) \<Rightarrow> nat \<Rightarrow> InboundMessage list \<Rightarrow> Request list" where
  "requests clock (Suc k) (m # ms) =
     (case request_of (clock k) m of None \<Rightarrow> [] | Some r \<Rightarrow> [r]) @ requests clock k ms"
| "requests clock _ _ = []"

fun book_after :: "OrderBook \<Rightarrow> Request list \<Rightarrow> OrderBook option" where
  "book_after b [] = Some b"
| "book_after b (r # rs) = do { (b1, evs) \<leftarrow> handle b r; book_after b1 rs }"

lemma drain_inbox_spec:
  assumes "wf_book (order_book ex)" "unat (ob_order_id (order_book ex)) + n < 2 ^ 32"
    and "queue_inv INBOUND_Q_CAP (inbox ex)"
  shows "\<exists>ex'. drain_inbox n clock ex = Some ex' \<and> wf_book (order_book ex')
     \<and> queue_inv INBOUND_Q_CAP (inbox ex') \<and> running ex' = running ex
     \<and> contents INBOUND_Q_CAP (inbox ex') = drop n (contents INBOUND_Q_CAP (inbox ex))
     \<and> book_after (order_book ex) (requests clock n (contents INBOUND_Q_CAP (inbox ex))) =
         Some (order_book ex')"
  using assms
proof (induction n arbitrary: ex)
  case 0
  then show ?case by simp
next
  case (Suc n)
  show ?case
  proof (cases "contents INBOUND_Q_CAP (inbox ex)")
    case Nil
    with Suc.prems ring.pop_empty [OF Suc.prems(3)] show ?thesis by simp
  next
    case (Cons m ms)
    obtain out q where p: "try_pop INBOUND_Q_CAP (inbox ex) = (out, q)" by fastforce
    with ring.pop_front [OF Suc.prems(3) Cons] have
      q: "out = Some m" "queue_inv INBOUND_Q_CAP q" "contents INBOUND_Q_CAP q = ms" by simp_all
    have ids: "ids_left (order_book (ex\<lparr>inbox := q\<rparr>))" using Suc.prems(2) by (simp add: ids_left_def)
    obtain ex1 where d: "dispatch (ex\<lparr>inbox := q\<rparr>) (clock n) m = Some ex1" "wf_book (order_book ex1)"
      "inbox ex1 = q" "running ex1 = running ex"
      "unat (ob_order_id (order_book ex1)) \<le> unat (ob_order_id (order_book ex)) + 1"
      "request_of (clock n) m = None \<Longrightarrow> order_book ex1 = order_book ex"
      "\<And>r. request_of (clock n) m = Some r \<Longrightarrow>
         map_option fst (handle (order_book ex) r) = Some (order_book ex1)"
      by (rule dispatch_returns [of "ex\<lparr>inbox := q\<rparr>" "clock n" m]) (use Suc.prems(1) ids in simp_all)
    have "unat (ob_order_id (order_book ex1)) + n < 2 ^ 32" using d(5) Suc.prems(2) by simp
    from Suc.IH [OF d(2) this] d(3) q(2,3) obtain ex' where
      IH: "drain_inbox n clock ex1 = Some ex'" "wf_book (order_book ex')"
        "queue_inv INBOUND_Q_CAP (inbox ex')" "running ex' = running ex1"
        "contents INBOUND_Q_CAP (inbox ex') = drop n ms"
        "book_after (order_book ex1) (requests clock n ms) = Some (order_book ex')" by auto
    have "book_after (order_book ex) (requests clock (Suc n) (m # ms)) = Some (order_book ex')"
      using d(6,7) IH(6) by (cases "request_of (clock n) m") auto
    with IH d(1,4) p q(1) Cons show ?thesis by simp
  qed
qed


lemma quiet_inbox:
  "queue_inv INBOUND_Q_CAP (inbox quiet)" "contents INBOUND_Q_CAP (inbox quiet) = []"
  by (simp_all add: quiet_def Exchange_init_def new_queue_inv caps_ok)


section \<open>Subscriptions\<close>

lemma index_of_less: "x \<in> set xs \<Longrightarrow> index_of x xs < length xs"
  by (induction xs) auto

lemma index_of_nth: "x \<in> set xs \<Longrightarrow> xs ! index_of x xs = x"
  by (induction xs) auto

lemma index_of_length: "index_of x xs = length xs \<longleftrightarrow> x \<notin> set xs"
  by (induction xs) auto

lemma mset_swap_remove:
  assumes "i < length xs"
  shows "mset (butlast (xs[i := last xs, length xs - 1 := xs ! i])) = mset xs - {#xs ! i#}"
proof -
  let ?n = "length xs - 1"
  have n: "?n < length xs" "xs \<noteq> []" using assms by auto
  let ?ys = "xs[i := xs ! ?n, ?n := xs ! i]"
  have "last ?ys = xs ! i" using n by (simp add: last_conv_nth)
  moreover have "?ys \<noteq> []" using n by simp
  ultimately have "mset (butlast ?ys) = mset ?ys - {#xs ! i#}"
    by (metis add_mset_remove_trivial append_butlast_last_id mset.simps(1,2) mset_append union_mset_add_mset_right add.right_neutral)
  moreover have "mset ?ys = mset xs" by (rule mset_swap [OF n(1) assms])
  ultimately show ?thesis using n(2) by (simp add: last_conv_nth)
qed

text \<open>Unsubscribing, also when a client disconnects, removes exactly one subscription of
  that client and no other's; a client without one is left alone.  So a client that
  subscribed twice is still subscribed after unsubscribing once.\<close>

theorem unsubscribe_removes_one_subscription:
  "mset (market_data_subscribers (unsubscribe_market_feed ex i)) =
           mset (market_data_subscribers ex) - {#i#}
    \<and> mset (market_data_subscribers (remove_connection ex i)) =
           mset (market_data_subscribers ex) - {#i#}
    \<and> conn_ptr (remove_connection ex i) i = None
    \<and> i \<in> set (market_data_subscribers
          (unsubscribe_market_feed (subscribe_market_feed (subscribe_market_feed ex i) i) i))"
proof (intro conjI)
  have one: "mset (market_data_subscribers (unsubscribe_market_feed ex i)) =
      mset (market_data_subscribers ex) - {#i#}" for ex
  proof (cases "i \<in> set (market_data_subscribers ex)")
    case True
    then show ?thesis
      using mset_swap_remove [OF index_of_less [OF True]] index_of_nth [OF True]
        index_of_length [of i "market_data_subscribers ex"] True
      by (simp add: unsubscribe_market_feed_def Let_def)
  next
    case False
    then show ?thesis
      by (simp add: unsubscribe_market_feed_def Let_def index_of_length diff_single_trivial)
  qed
  show "mset (market_data_subscribers (unsubscribe_market_feed ex i)) =
      mset (market_data_subscribers ex) - {#i#}" by (rule one)
  show "mset (market_data_subscribers (remove_connection ex i)) =
      mset (market_data_subscribers ex) - {#i#}"
    using one [of ex] by (simp add: remove_connection_def Let_def)
  show "conn_ptr (remove_connection ex i) i = None"
    by (simp add: remove_connection_def Let_def conn_ptr_def)
  have sub: "market_data_subscribers (subscribe_market_feed e i) = market_data_subscribers e @ [i]" for e
    using same_but_sentD(6) [OF on_connection_same]
    by (simp add: subscribe_market_feed_def Let_def split: option.split)
  let ?ex = "unsubscribe_market_feed (subscribe_market_feed (subscribe_market_feed ex i) i) i"
  from one [of "subscribe_market_feed (subscribe_market_feed ex i) i"]
  have "mset (market_data_subscribers ?ex) = add_mset i (mset (market_data_subscribers ex))"
    by (simp add: sub)
  then show "i \<in> set (market_data_subscribers ?ex)" by (metis set_mset_mset union_single_eq_member)
qed

lemma build_snapshot_lengths:
  "length (BookSnapshot.bid_prices (build_snapshot b)) = 10" "length (BookSnapshot.bid_volumes (build_snapshot b)) = 10"
  "length (BookSnapshot.ask_prices (build_snapshot b)) = 10" "length (BookSnapshot.ask_volumes (build_snapshot b)) = 10"
proof -
  have "length (snapshot_down lv idx n) \<le> n" for lv idx n
  proof (cases "idx < NUM_BOOK_LEVELS")
    case False
    then show ?thesis by (subst snapshot_down.simps) simp
  qed (simp add: snapshot_down_eq)
  moreover have "length (snapshot_up lv idx n) \<le> n" for lv idx n by (simp add: snapshot_up_eq)
  ultimately show
    "length (BookSnapshot.bid_prices (build_snapshot b)) = 10" "length (BookSnapshot.bid_volumes (build_snapshot b)) = 10"
    "length (BookSnapshot.ask_prices (build_snapshot b)) = 10" "length (BookSnapshot.ask_volumes (build_snapshot b)) = 10"
    by (simp_all add: build_snapshot_def Let_def pad_levels_def ORDER_BOOK_MESSAGE_DEPTH_def)
qed

lemma length_snapshot_image:
  assumes "length ap = 10" "length av = 10" "length bp = 10" "length bv = 10"
  shows "length (image PayloadOrderBookSnapshot_codec (make_order_book_snapshot ap av bp bv seq)) = 244"
proof -
  have arr: "length (image (array_codec n c) xs) = length xs * k" if "\<And>x. length (image c x) = k"
    for n k and c :: "'a codec" and xs
    using that by (induction xs) (simp_all add: array_codec_def)
  have "length (image int64_codec x) = 8" "length (image (word_codec 4) (w :: 32 word)) = 4" for x w
    by (simp_all add: int64_codec_def word_codec_def)
  then show ?thesis
    using assms by (simp add: PayloadOrderBookSnapshot_codec_def make_order_book_snapshot_def
        struct_codec_def seq_codec_def arr)
qed

text \<open>A new subscriber is told where the feed stands.  Subscribing posts to the client's
  connection one frame: the order book snapshot with the current book's depth and the
  sequence number the next feed message will have; it sends nothing to anyone else and
  uses up no sequence number.\<close>

theorem subscriber_gets_the_current_snapshot:
  assumes "wired ex" "connected ex i"
  defines "bs \<equiv> build_snapshot (order_book ex)"
  defines "snapshot \<equiv> make_order_book_snapshot (BookSnapshot.ask_prices bs) (BookSnapshot.ask_volumes bs)
      (BookSnapshot.bid_prices bs) (BookSnapshot.bid_volumes bs) (sequence_number ex)"
  shows "outputs (subscribe_market_feed ex i) = outputs ex @ [Conn_Action i (Post_Unbuffered
           (enframe (type_code ORDER_BOOK_SNAPSHOT, payload_image (OrderBookSnapshot snapshot))))]
    \<and> clients (subscribe_market_feed ex i) = clients ex
    \<and> sequence_number (subscribe_market_feed ex i) = sequence_number ex"
proof (intro conjI)
  obtain c where c: "clients ex i = Some c" "conn_ptr ex i = Some i"
    using assms(1,2) by (auto simp: connected_def wired_def)
  let ?img = "image PayloadOrderBookSnapshot_codec snapshot"
  have len: "length ?img = 244"
    unfolding snapshot_def bs_def by (rule length_snapshot_image) (rule build_snapshot_lengths)+
  have ptr: "conn_ptr (ex\<lparr>market_data_subscribers := subs\<rparr>) i = conn_ptr ex i" for subs
    by (simp add: conn_ptr_def)
  have "send_message_unbuffered c (type_code ORDER_BOOK_SNAPSHOT) (Some ?img)
      (of_nat (sizeof PayloadOrderBookSnapshot_codec)) =
    (c, [Post_Unbuffered (enframe (type_code ORDER_BOOK_SNAPSHOT, ?img))])"
    using len by (simp add: send_message_unbuffered_def enframe_def write_u16_be_def codec_size)
  then have eq: "subscribe_market_feed ex i = ex\<lparr>market_data_subscribers := market_data_subscribers ex @ [i],
      clients := (clients ex)(i \<mapsto> c), outputs := outputs ex @ [Conn_Action i (Post_Unbuffered
           (enframe (type_code ORDER_BOOK_SNAPSHOT, ?img)))]\<rparr>"
    using c by (simp add: subscribe_market_feed_def ptr on_connection_def Let_def bs_def snapshot_def)
  show "outputs (subscribe_market_feed ex i) = outputs ex @ [Conn_Action i (Post_Unbuffered
           (enframe (type_code ORDER_BOOK_SNAPSHOT, payload_image (OrderBookSnapshot snapshot))))]"
    "clients (subscribe_market_feed ex i) = clients ex"
    "sequence_number (subscribe_market_feed ex i) = sequence_number ex"
    unfolding eq using c by auto
qed

theorem subscriber_gets_the_current_snapshot_witness:
  "clients (subscribe_market_feed quiet 4) = clients quiet
   \<and> length (outputs (subscribe_market_feed quiet 4)) = Suc (length (outputs quiet))"
  using subscriber_gets_the_current_snapshot [OF quiet_wired(1,2)] by simp

end
