(* ===== verification/Exchange_Wiring.thy ===== *)
theory Exchange_Wiring
  imports Exchange_Engine
begin

text \<open>
  The life of connections in src/exchange.cpp.  The engine strand clears a pointer of
  \<open>conn_by_id_\<close> and posts the destruction of the connection to the accept strand, which also
  publishes new ones, while connections read, write and fail.  The step relation \<open>ex_step\<close>
  interleaves all of these, and its invariant shows that a pointer the engine can follow
  never dangles.
\<close>

section \<open>Steps\<close>

inductive ex_step :: "Exchange \<Rightarrow> Exchange \<Rightarrow> bool" where
  engine: "try_pop INBOUND_Q_CAP (inbox ex) = (Some msg, q) \<Longrightarrow>
    dispatch (ex\<lparr>inbox := q\<rparr>) clock msg = Some ex' \<Longrightarrow> ex_step ex ex'"
| accept: "unat (next_connection_id ex) + 1 < 2 ^ 32 \<Longrightarrow>
    ex_step ex (on_accepted ex ec acceptor_open slot0)"
| erase: "Post_Erase cid \<in> set (outputs ex) \<Longrightarrow> ex_step ex (erase_task ex cid)"
| disconnect: "cid \<in> dom (clients ex) \<Longrightarrow> ex_step ex (on_disconnected ex cid)"
| ready: "ex_step ex (on_inbound_ready ex)"
| conn_reads: "clients ex cid = Some c \<Longrightarrow> handle_read c (inbox ex) received = Some (c', q, acts) \<Longrightarrow>
    ex_step ex (ex\<lparr>clients := (clients ex)(cid \<mapsto> c'), inbox := q,
                   outputs := outputs ex @ map (Conn_Action cid) acts\<rparr>)"
| conn_drains: "ex_step ex (on_connection ex cid drain_writes)"
| conn_wrote: "ex_step ex (on_connection ex cid (\<lambda>c. handle_write c w))"
| conn_task: "ex_step ex (on_connection ex cid inbound_ready_task)"

inductive_cases ex_step_elim: "ex_step ex ex'"

inductive ex_reachable :: "Exchange \<Rightarrow> Exchange \<Rightarrow> bool" for ex0 where
  ex_start: "ex_reachable ex0 ex0"
| ex_next: "ex_reachable ex0 ex \<Longrightarrow> ex_step ex ex' \<Longrightarrow> ex_reachable ex0 ex'"

section \<open>The invariant\<close>

definition erased :: "Exchange \<Rightarrow> Id_t set" where
  "erased ex = {cid. Post_Erase cid \<in> set (outputs ex)}"

text \<open>Ids below the next one; a posted destruction concerns a cleared pointer.\<close>

definition ids_ok :: "Exchange \<Rightarrow> bool" where
  "ids_ok ex \<longleftrightarrow>
     (\<forall>p \<in> dom (clients ex). p < next_connection_id ex)
   \<and> (\<forall>m \<in> set (contents INBOUND_Q_CAP (inbox ex)). InboundMessage.connection_id m < next_connection_id ex)
   \<and> (\<forall>cid \<in> erased ex. cid < next_connection_id ex \<and> conn_ptr ex cid = None)"

definition ex_inv :: "Exchange \<Rightarrow> bool" where
  "ex_inv ex \<longleftrightarrow> wired ex \<and> queue_inv INBOUND_Q_CAP (inbox ex) \<and> ids_ok ex
   \<and> (\<forall>j p. conn_ptr ex j = Some p \<longrightarrow> p \<in> dom (clients ex))"

lemma erased_on_connection [simp]: "erased (on_connection ex p f) = erased ex"
  by (auto simp: erased_def on_connection_def split: option.split prod.split)

lemma erased_send [simp]: "erased (send_payload ex m) = erased ex"
  by (simp add: send_payload_def send_to_def split: option.split)

lemma erased_foldl_send [simp]: "erased (foldl send_payload ex ms) = erased ex"
  by (induction ms arbitrary: ex) simp_all

lemma erased_callback [simp]: "erased (callback ev ex) = erased ex"
proof -
  have "erased (e\<lparr>trade_id := t\<rparr>) = erased e" "erased (e\<lparr>sequence_number := q\<rparr>) = erased e"
    "erased (e\<lparr>trade_id := t, sequence_number := q\<rparr>) = erased e" "erased (log_message e p) = erased e"
    for e t q p by (simp_all add: erased_def log_message_def)
  then show ?thesis
    unfolding callback_eq Let_def broadcast_foldl by (simp split: option.split)
qed

lemma erased_callbacks [simp]: "erased (fold callback evs ex) = erased ex"
  by (induction evs arbitrary: ex) simp_all

lemma wired_on_connection:
  assumes "wired ex"
    and "\<And>c. clients ex p = Some c \<Longrightarrow> queue_inv OUTBOUND_Q_CAP (outbound c) \<Longrightarrow>
       queue_inv OUTBOUND_Q_CAP (outbound (fst (f c))) \<and> conn_id (fst (f c)) = conn_id c"
  shows "wired (on_connection ex p f)"
proof (cases "clients ex p")
  case (Some c)
  with assms(1) have c: "conn_id c = p" "queue_inv OUTBOUND_Q_CAP (outbound c)" by (auto simp: wired_def)
  with assms Some show ?thesis
    by (auto simp: wired_def on_connection_def conn_ptr_def split: prod.split)
qed (simp add: on_connection_def assms(1))

text \<open>An operation on one connection that keeps its id and its outbox in order.\<close>

lemma ex_inv_on_connection:
  assumes "ex_inv ex"
    and "\<And>c. clients ex p = Some c \<Longrightarrow> queue_inv OUTBOUND_Q_CAP (outbound c) \<Longrightarrow>
       queue_inv OUTBOUND_Q_CAP (outbound (fst (f c))) \<and> conn_id (fst (f c)) = conn_id c"
  shows "ex_inv (on_connection ex p f)"
  using assms(1) wired_on_connection [OF _ assms(2)] same_but_sentD [OF on_connection_same [of ex p f]]
  by (simp add: ex_inv_def ids_ok_def)

lemma drain_loop_inv:
  "queue_inv OUTBOUND_Q_CAP q \<Longrightarrow> queue_inv OUTBOUND_Q_CAP (fst (drain_loop q batch))"
proof (induction q batch rule: drain_loop.induct)
  case (1 q batch)
  show ?case
  proof (cases "contents OUTBOUND_Q_CAP q")
    case Nil
    then show ?thesis using "1.prems" by (subst drain_loop.simps) (simp add: peek_contents)
  next
    case (Cons m ms)
    then have pk: "peek OUTBOUND_Q_CAP q = Some m" by (simp add: peek_contents)
    from "1.IH" [OF pk refl refl] consume_contents(1) [OF "1.prems" Cons] "1.prems" show ?thesis
      by (subst drain_loop.simps) (simp add: pk Let_def)
  qed
qed

lemma drain_writes_keeps:
  "queue_inv OUTBOUND_Q_CAP (outbound c) \<Longrightarrow>
     queue_inv OUTBOUND_Q_CAP (outbound (fst (drain_writes c))) \<and> conn_id (fst (drain_writes c)) = conn_id c"
  using drain_loop_inv [of "outbound c" "[]"]
  by (auto simp: drain_writes_def start_write_def Let_def split: prod.split)

lemma notify_disconnect_keeps [simp]:
  "outbound (fst (notify_disconnect_once c)) = outbound c"
  "conn_id (fst (notify_disconnect_once c)) = conn_id c"
  by (simp_all add: notify_disconnect_once_def close_def)

lemma handle_write_keeps:
  "queue_inv OUTBOUND_Q_CAP (outbound c) \<Longrightarrow>
     queue_inv OUTBOUND_Q_CAP (outbound (fst (handle_write c w))) \<and> conn_id (fst (handle_write c w)) = conn_id c"
  using drain_writes_keeps
  by (simp add: handle_write_def start_write_def Let_def split: option.split)

section \<open>Reading connections\<close>

lemma try_push_set:
  assumes "queue_inv c q"
  shows "queue_inv c (snd (try_push c x q))"
    "set (contents c (snd (try_push c x q))) \<subseteq> insert x (set (contents c q))"
proof -
  show "queue_inv c (snd (try_push c x q))" by (rule ring.push_inv [OF assms])
  show "set (contents c (snd (try_push c x q))) \<subseteq> insert x (set (contents c q))"
  proof (cases "length (contents c q) < unat c")
    case True
    then show ?thesis using ring.push_room [OF assms True, of x] by auto
  next
    case False
    then have "length (contents c q) = unat c" using ring.items_bound [OF assms] by simp
    then show ?thesis using ring.push_full [OF assms, of x] by auto
  qed
qed

lemma deliver_inbox:
  "deliver c inq fs = (ok, c', inq', acts) \<Longrightarrow> queue_inv INBOUND_Q_CAP inq \<Longrightarrow>
     queue_inv INBOUND_Q_CAP inq' \<and> conn_id c' = conn_id c \<and> outbound c' = outbound c
     \<and> set (contents INBOUND_Q_CAP inq') \<subseteq>
         set (contents INBOUND_Q_CAP inq) \<union> {m. InboundMessage.connection_id m = conn_id c}"
proof (induction fs arbitrary: c inq ok c' inq' acts)
  case (Cons f fs)
  let ?m = "inbound_message (conn_id c) f"
  obtain b q where p: "try_push INBOUND_Q_CAP ?m inq = (b, q)" by fastforce
  have q: "queue_inv INBOUND_Q_CAP q"
    "set (contents INBOUND_Q_CAP q) \<subseteq> insert ?m (set (contents INBOUND_Q_CAP inq))"
    using try_push_set [OF Cons.prems(2), of ?m] p by simp_all
  have m: "InboundMessage.connection_id ?m = conn_id c" by (simp add: inbound_message_def)
  have n: "conn_id (fst (notify_inbound_ready c)) = conn_id c"
    "outbound (fst (notify_inbound_ready c)) = outbound c" by (simp_all add: notify_inbound_ready_def)
  from Cons.prems(1) consider
      (refused) "c' = fst (notify_disconnect_once c)" "inq' = inq \<or> inq' = q"
    | (pushed) acts2 where "deliver (fst (notify_inbound_ready c)) q fs = (ok, c', inq', acts2)"
    | (large) acts2 where "deliver c inq fs = (ok, c', inq', acts2)"
    using p by (fastforce simp: Let_def split: if_splits prod.splits)
  then show ?case
  proof cases
    case refused
    with Cons.prems(2) q m show ?thesis by auto
  next
    case pushed
    from Cons.IH [OF pushed q(1)] q(2) m n show ?thesis by auto
  next
    case large
    from Cons.IH [OF large Cons.prems(2)] show ?thesis by auto
  qed
qed simp

lemma handle_read_inbox:
  assumes "handle_read c inq received = Some (c', inq', acts)" "queue_inv INBOUND_Q_CAP inq"
  shows "queue_inv INBOUND_Q_CAP inq' \<and> conn_id c' = conn_id c \<and> outbound c' = outbound c
     \<and> set (contents INBOUND_Q_CAP inq') \<subseteq>
         set (contents INBOUND_Q_CAP inq) \<union> {m. InboundMessage.connection_id m = conn_id c}"
proof (cases received)
  case None
  with assms have "c' = fst (notify_disconnect_once c)" "inq' = inq"
    by (auto simp: handle_read_def split: prod.splits)
  with assms(2) show ?thesis by simp
next
  case (Some bytes)
  let ?sz = "if in_size c < length (in_accum c) + length bytes
    then grow (in_size c) (length (in_accum c) + length bytes) else Some (in_size c)"
  let ?p = "\<lambda>n. parse_accumulator (c\<lparr>in_size := n, in_accum := in_accum c @ bytes\<rparr>) inq"
  have "handle_read c inq received = ?sz \<bind> (\<lambda>n. case ?p n of (c1, inq1, acts) \<Rightarrow>
      Some (c1, inq1, acts @ (if \<not> disconnect_notified c1 then [Start_Read] else [])))"
    unfolding handle_read_def Some option.case by simp
  with assms(1) obtain n acts1 where n: "?p n = (c', inq', acts1)"
    by (cases ?sz) (auto split: prod.splits)
  let ?c = "c\<lparr>in_size := n, in_accum := in_accum c @ bytes\<rparr>"
  obtain ok c1 inq1 acts1 where d: "deliver ?c inq (fst (deframe (in_accum ?c))) = (ok, c1, inq1, acts1)"
    by (metis prod_cases4)
  have "inq' = inq1 \<and> conn_id c' = conn_id c1 \<and> outbound c' = outbound c1"
    using n parse_loop_deliver [of 0 ?c inq] d
    by (auto simp: parse_accumulator_def split: prod.splits if_splits)
  with deliver_inbox [OF d assms(2)] show ?thesis by simp
qed

section \<open>Steps keep the invariant\<close>

text \<open>What the invariant looks at.\<close>

lemma ex_inv_cong:
  assumes "clients a = clients b" "conn_by_id a = conn_by_id b" "inbox a = inbox b"
    "next_connection_id a = next_connection_id b" "erased a = erased b"
  shows "ex_inv a = ex_inv b"
proof -
  have "conn_ptr a = conn_ptr b" using assms(2) by (simp add: conn_ptr_def fun_eq_iff)
  with assms show ?thesis by (simp add: ex_inv_def ids_ok_def wired_def)
qed

lemma schedule_inv: "ex_inv (schedule_engine_drain ex) = ex_inv ex"
  by (rule ex_inv_cong) (auto simp: schedule_engine_drain_def erased_def)

lemma dispatch_no_request:
  assumes "request_of clock msg = None"
  shows "dispatch ex clock msg \<in> Some ` {ex, subscribe_market_feed ex (InboundMessage.connection_id msg),
     unsubscribe_market_feed ex (InboundMessage.connection_id msg),
     remove_connection ex (InboundMessage.connection_id msg)}"
proof (cases "type_of_code (InboundMessage.message_type msg)")
  case None
  then show ?thesis by (simp add: dispatch_def split: prod.split)
next
  case (Some t)
  with assms show ?thesis
    by (cases t) (simp_all add: dispatch_def request_of_def Let_def split: prod.splits)
qed

lemma dispatch_inv:
  assumes "ex_inv ex" "InboundMessage.connection_id msg < next_connection_id ex"
    and "dispatch ex clock msg = Some ex'"
  shows "ex_inv ex'"
proof -
  let ?i = "InboundMessage.connection_id msg"
  have run: "ex_inv (fold callback evs (ex\<lparr>order_book := b\<rparr>))" for evs b
  proof -
    have "ex_inv (ex\<lparr>order_book := b\<rparr>)"
      using assms(1) by (subst ex_inv_cong [of _ ex]) (simp_all add: erased_def)
    then show ?thesis
      using callbacks_wired [of "ex\<lparr>order_book := b\<rparr>" evs]
      by (simp add: ex_inv_def ids_ok_def callbacks_state)
  qed
  have subs: "ex_inv (e\<lparr>market_data_subscribers := l\<rparr>) = ex_inv e" for e l
    by (rule ex_inv_cong) (simp_all add: erased_def)
  have sub: "ex_inv (subscribe_market_feed ex ?i)"
    using assms(1) subs
    by (auto simp: subscribe_market_feed_def Let_def send_message_unbuffered_def
        intro!: ex_inv_on_connection split: option.split)
  have unsub: "ex_inv (unsubscribe_market_feed ex ?i)"
    using assms(1) subs by (simp add: unsubscribe_market_feed_def Let_def)
  let ?u = "unsubscribe_market_feed ex ?i" and ?r = "remove_connection ex ?i"
  have "conn_by_id ?u = conn_by_id ex" "clients ?u = clients ex" "inbox ?u = inbox ex"
    "next_connection_id ?u = next_connection_id ex" "outputs ?u = outputs ex"
    by (simp_all add: unsubscribe_market_feed_def Let_def)
  then have "clients ?r = clients ex" "inbox ?r = inbox ex" "erased ?r = insert ?i (erased ex)"
    "next_connection_id ?r = next_connection_id ex"
    and ptr: "conn_ptr ?r j = (if j = ?i then None else conn_ptr ex j)" for j
    by (auto simp: remove_connection_def Let_def erased_def conn_ptr_def word_unat_eq_iff)
  then have rem: "ex_inv ?r"
    using assms(1,2) unfolding ex_inv_def ids_ok_def wired_def ptr by simp
  show ?thesis
  proof (cases "request_of clock msg")
    case None
    from dispatch_no_request [OF None, of ex] assms(1,3) sub unsub rem show ?thesis by auto
  next
    case (Some r)
    with dispatch_request [of clock msg ex] assms(3)
    obtain b evs where "ex' = fold callback evs (ex\<lparr>order_book := b\<rparr>)" by auto
    with run show ?thesis by simp
  qed
qed

lemma engine_inv_step:
  assumes "ex_inv ex" "try_pop INBOUND_Q_CAP (inbox ex) = (Some msg, q)"
    and "dispatch (ex\<lparr>inbox := q\<rparr>) clock msg = Some ex'"
  shows "ex_inv ex'"
proof -
  have q: "queue_inv INBOUND_Q_CAP (inbox ex)" using assms(1) by (simp add: ex_inv_def)
  obtain ms where ms: "contents INBOUND_Q_CAP (inbox ex) = msg # ms"
    "queue_inv INBOUND_Q_CAP q" "contents INBOUND_Q_CAP q = ms"
    using assms(2) ring.pop_empty [OF q] ring.pop_front [OF q]
    by (cases "contents INBOUND_Q_CAP (inbox ex)") auto
  have "conn_ptr (ex\<lparr>inbox := q\<rparr>) = conn_ptr ex" by (simp add: conn_ptr_def fun_eq_iff)
  then have "ex_inv (ex\<lparr>inbox := q\<rparr>)"
    using assms(1) ms by (simp add: ex_inv_def ids_ok_def wired_def erased_def)
  moreover have "InboundMessage.connection_id msg < next_connection_id (ex\<lparr>inbox := q\<rparr>)"
    using assms(1) ms(1) by (simp add: ex_inv_def ids_ok_def)
  ultimately show ?thesis using assms(3) by (rule dispatch_inv)
qed

lemma accept_inv:
  assumes "ex_inv ex" "unat (next_connection_id ex) + 1 < 2 ^ 32"
  shows "ex_inv (on_accepted ex ec acceptor_open slot0)"
proof -
  let ?i = "next_connection_id ex"
  have out: "ex_inv (e\<lparr>outputs := outputs e @ [Accept_Next]\<rparr>) = ex_inv e" for e
    by (rule ex_inv_cong) (auto simp: erased_def)
  define conn where "conn = (Connection_init ?i (new_queue OUTBOUND_Q_CAP slot0))
      \<lparr>disconnected_set := True, inbound_ready_set := True\<rparr>"
  have conn: "conn_id conn = ?i" "queue_inv OUTBOUND_Q_CAP (outbound conn)"
    by (simp_all add: conn_def Connection_init_def new_queue_inv caps_ok)
  define ex2 where "ex2 = ex\<lparr>next_connection_id := ?i + 1, outputs := outputs ex @ [Async_Read ?i]\<rparr>"
  have suc: "?i < ?i + 1" "\<And>j. j < ?i \<Longrightarrow> j < ?i + 1"
    using assms(2) by (auto simp: word_less_nat_alt unat_add_bounded)
  have none: "clients ex ?i = None" using assms(1) by (auto simp: ex_inv_def ids_ok_def)
  have ptr: "conn_ptr ex2 = conn_ptr ex" by (simp add: ex2_def conn_ptr_def fun_eq_iff)
  have "clients ex2 = clients ex" "inbox ex2 = inbox ex" "erased ex2 = erased ex"
    "next_connection_id ex2 = ?i + 1" by (simp_all add: ex2_def erased_def)
  then have ex2: "ex_inv ex2"
    using assms(1) by (auto simp: ex_inv_def ids_ok_def wired_def ptr intro!: suc(2))
  have "ex_inv (publish_connection ex2 ?i conn)"
  proof (cases "MAX_CONNECTIONS \<le> unat ?i")
    case True
    with ex2 show ?thesis by (simp add: publish_connection_def)
  next
    case False
    let ?e = "publish_connection ex2 ?i conn"
    have p: "conn_ptr ?e j = (if j = ?i then Some ?i else conn_ptr ex j)" for j
      using False by (auto simp: publish_connection_def conn_ptr_def ex2_def word_unat_eq_iff)
    have c: "clients ?e = (clients ex)(?i \<mapsto> conn)" "next_connection_id ?e = ?i + 1"
      "inbox ?e = inbox ex" "erased ?e = erased ex"
      using False none by (auto simp: publish_connection_def ex2_def emplace_def erased_def)
    show ?thesis
      using assms(1) suc conn by (auto simp: ex_inv_def ids_ok_def wired_def p c)
  qed
  then show ?thesis
    using assms(1) out
    by (simp add: on_accepted_def Let_def ex2_def conn_def split: accept_result.split)
qed

lemma erase_inv:
  assumes "Post_Erase cid \<in> set (outputs ex)" "ex_inv ex"
  shows "ex_inv (erase_task ex cid)"
proof -
  have "conn_ptr ex cid = None" using assms by (simp add: ex_inv_def ids_ok_def erased_def)
  moreover have "conn_ptr (erase_task ex cid) = conn_ptr ex"
    by (simp add: erase_task_def conn_ptr_def fun_eq_iff close_def split: option.split)
  moreover have "clients (erase_task ex cid) = (clients ex)(cid := None)"
    "inbox (erase_task ex cid) = inbox ex" "erased (erase_task ex cid) = erased ex"
    "next_connection_id (erase_task ex cid) = next_connection_id ex"
    by (auto simp: erase_task_def erased_def close_def fun_upd_idem split: option.split)
  ultimately show ?thesis
    using assms(2) unfolding ex_inv_def ids_ok_def wired_def
    by (simp split: if_splits) (metis option.distinct(1))
qed

lemma on_disconnected_inv:
  assumes "cid \<in> dom (clients ex)" "ex_inv ex"
  shows "ex_inv (on_disconnected ex cid)"
proof -
  let ?m = "\<lparr>InboundMessage.connection_id = cid, message_type = type_code DISCONNECT,
              payload_size = 0, payload = payload_array []\<rparr>"
  let ?q = "snd (try_push INBOUND_Q_CAP ?m (inbox ex))"
  have q: "queue_inv INBOUND_Q_CAP (inbox ex)" using assms by (simp add: ex_inv_def)
  have "conn_ptr (ex\<lparr>inbox := ?q\<rparr>) = conn_ptr ex" by (simp add: conn_ptr_def fun_eq_iff)
  then have "ex_inv (ex\<lparr>inbox := ?q\<rparr>)"
    using assms try_push_set [OF q, of ?m]
    by (fastforce simp: ex_inv_def ids_ok_def wired_def erased_def)
  then show ?thesis
    by (cases "try_push INBOUND_Q_CAP ?m (inbox ex)") (simp add: on_disconnected_def Let_def schedule_inv)
qed

lemma conn_reads_inv:
  assumes c: "clients ex cid = Some c" and rd: "handle_read c (inbox ex) received = Some (c', q, acts)"
    and inv: "ex_inv ex"
  shows "ex_inv (ex\<lparr>clients := (clients ex)(cid \<mapsto> c'), inbox := q, outputs := outputs ex @ map (Conn_Action cid) acts\<rparr>)"
    (is "ex_inv ?e")
proof -
  have iq: "queue_inv INBOUND_Q_CAP (inbox ex)" using inv by (simp add: ex_inv_def)
  note hr = handle_read_inbox [OF rd iq]
  have ptr: "conn_ptr ?e = conn_ptr ex" "erased ?e = erased ex" and id: "conn_id c = cid" "cid < next_connection_id ex"
    using c inv by (auto simp: conn_ptr_def fun_eq_iff erased_def ex_inv_def wired_def ids_ok_def)
  have "wired ?e" using c inv hr ptr(1) id(1) unfolding ex_inv_def wired_def by simp
  moreover have "InboundMessage.connection_id m < next_connection_id ex"
    if "m \<in> set (contents INBOUND_Q_CAP q)" for m
  proof -
    have "m \<in> set (contents INBOUND_Q_CAP (inbox ex)) \<or> InboundMessage.connection_id m = cid"
      using that hr id(1) by auto
    with id(2) inv show ?thesis unfolding ex_inv_def ids_ok_def by auto
  qed
  with ptr id(2) inv have "ids_ok ?e" unfolding ex_inv_def ids_ok_def by simp
  ultimately show ?thesis using inv hr ptr(1) unfolding ex_inv_def by simp
qed

lemma ex_step_inv: "ex_step ex ex' \<Longrightarrow> ex_inv ex \<Longrightarrow> ex_inv ex'"
proof (induction rule: ex_step.induct)
  case (engine ex msg q clock ex')
  then show ?case using engine_inv_step by blast
next
  case (ready ex)
  then show ?case by (simp add: on_inbound_ready_def schedule_inv)
next
  case (conn_drains ex cid)
  then show ?case using drain_writes_keeps by (auto intro: ex_inv_on_connection)
next
  case (conn_wrote ex cid w)
  then show ?case using handle_write_keeps by (auto intro: ex_inv_on_connection)
next
  case (conn_task ex cid)
  then show ?case by (auto intro: ex_inv_on_connection simp: inbound_ready_task_def)
qed (simp_all add: accept_inv erase_inv on_disconnected_inv conn_reads_inv)

lemma ex_reachable_inv: "ex_reachable ex0 ex \<Longrightarrow> ex_inv ex0 \<Longrightarrow> ex_inv ex"
  by (induction rule: ex_reachable.induct) (auto intro: ex_step_inv)

section \<open>No pointer dangles\<close>

lemma init_ex_inv: "ex_inv (Exchange_init m b)"
  by (simp add: ex_inv_def ids_ok_def wired_def erased_def conn_ptr_def Exchange_init_def
      new_queue_inv caps_ok)


definition no_message :: InboundMessage where
  "no_message = \<lparr>InboundMessage.connection_id = 0, message_type = 0, payload_size = 0, payload = []\<rparr>"

definition no_reply :: OutboundMessage where
  "no_reply = \<lparr>OutboundMessage.connection_id = 0, message_type = 0, payload_size = 0, payload = []\<rparr>"


text \<open>The exchange serves 32 connections in its life, not 32 at a time: an accepted
  connection whose id is \<open>MAX_CONNECTIONS\<close> or more is started reading but never
  published, and since ids are not reused, disconnecting clients makes no room.\<close>

theorem late_connections_are_never_published:
  assumes "MAX_CONNECTIONS \<le> unat (next_connection_id ex)"
  shows "clients (on_accepted ex Accepted acceptor_open slot0) = clients ex
    \<and> conn_by_id (on_accepted ex Accepted acceptor_open slot0) = conn_by_id ex
    \<and> Async_Read (next_connection_id ex) \<in> set (outputs (on_accepted ex Accepted acceptor_open slot0))
    \<and> next_connection_id (remove_connection ex i) = next_connection_id ex"
  using assms
  by (simp add: on_accepted_def publish_connection_def remove_connection_def
      unsubscribe_market_feed_def Let_def)

theorem late_connections_are_never_published_witness:
  "clients (on_accepted (quiet\<lparr>next_connection_id := 32\<rparr>) Accepted True no_reply) = clients quiet"
  using late_connections_are_never_published [of "quiet\<lparr>next_connection_id := 32\<rparr>" True no_reply]
  by (simp add: MAX_CONNECTIONS_def)

end
