(* ===== verification/Decimal.thy ===== *)
theory Decimal
  imports Main
begin

text \<open>
  Decimal numbers as text: what \<open>operator<<\<close> of an output stream writes for an integer, and
  \<open>std::atoi\<close>, which reads one.
\<close>

section \<open>Writing\<close>

definition digit :: "nat \<Rightarrow> char" where
  "digit n = char_of (48 + n)"

fun decimal :: "nat \<Rightarrow> string" where
  "decimal n = (if n < 10 then [digit n] else decimal (n div 10) @ [digit (n mod 10)])"

declare decimal.simps [simp del]

definition decimal_int :: "int \<Rightarrow> string" where
  "decimal_int i = (if i < 0 then ''-'' @ decimal (nat (- i)) else decimal (nat i))"

definition endl :: string where
  "endl = [CHR 0x0A]"

section \<open>Reading\<close>

definition is_digit :: "char \<Rightarrow> bool" where
  "is_digit c \<longleftrightarrow> (48 :: nat) \<le> of_char c \<and> of_char c \<le> (57 :: nat)"

definition is_space :: "char \<Rightarrow> bool" where
  "is_space c \<longleftrightarrow> of_char c = (32 :: nat) \<or> (9 :: nat) \<le> of_char c \<and> of_char c \<le> (13 :: nat)"

fun read_digits :: "nat \<Rightarrow> string \<Rightarrow> nat" where
  "read_digits acc [] = acc"
| "read_digits acc (c # cs) = (if is_digit c then read_digits (10 * acc + (of_char c - 48)) cs else acc)"

text \<open>
  \<open>atoi\<close>: leading white space, an optional sign, digits up to the first other character; no digits
  give 0.  The standard leaves the result undefined when it is not an \<open>int\<close>: then there is none here.
\<close>

definition atoi :: "string \<Rightarrow> int option" where
  "atoi s =
     (let cs = dropWhile is_space s;
          i = (case cs of
                 [] \<Rightarrow> 0
               | c # rest \<Rightarrow> if c = CHR ''-'' then - int (read_digits 0 rest)
                             else if c = CHR ''+'' then int (read_digits 0 rest)
                             else int (read_digits 0 cs))
      in if - (2 ^ 31) \<le> i \<and> i < 2 ^ 31 then Some i else None)"

section \<open>Round trip\<close>

lemma of_char_digit [simp]: "n < 10 \<Longrightarrow> of_char (digit n) = 48 + n"
  by (simp add: digit_def)

lemma is_digit_digit [simp]: "n < 10 \<Longrightarrow> is_digit (digit n)"
  by (simp add: is_digit_def)

lemma decimal_digits: "c \<in> set (decimal n) \<Longrightarrow> is_digit c"
proof (induction n rule: decimal.induct)
  case (1 n)
  then show ?case by (subst (asm) (2) decimal.simps) (auto split: if_splits)
qed

lemma decimal_nonempty [simp]: "decimal n \<noteq> []"
  by (subst decimal.simps) simp

lemma read_digits_append: "(\<And>c. c \<in> set cs \<Longrightarrow> is_digit c) \<Longrightarrow> read_digits acc (cs @ ds) = read_digits (read_digits acc cs) ds"
  by (induction cs arbitrary: acc) simp_all

lemma read_decimal: "read_digits 0 (decimal n) = n"
proof (induction n rule: decimal.induct)
  case (1 n)
  show ?case
  proof (cases "n < 10")
    case True
    then show ?thesis by (subst decimal.simps) simp
  next
    case False
    then show ?thesis using 1 by (subst decimal.simps) (simp add: read_digits_append decimal_digits)
  qed
qed

lemma digit_not_special: "is_digit c \<Longrightarrow> \<not> is_space c \<and> c \<noteq> CHR ''-'' \<and> c \<noteq> CHR ''+''"
  by (auto simp: is_digit_def is_space_def)

text \<open>Reading back what was written.\<close>

lemma atoi_decimal:
  "- (2 ^ 31) \<le> i \<Longrightarrow> i < 2 ^ 31 \<Longrightarrow> atoi (decimal_int i) = Some i"
proof -
  assume range: "- (2 ^ 31) \<le> i" "i < 2 ^ 31"
  obtain c cs where d: "decimal (nat \<bar>i\<bar>) = c # cs" by (meson decimal_nonempty neq_Nil_conv)
  then have c: "\<not> is_space c" "c \<noteq> CHR ''-''" "c \<noteq> CHR ''+''"
    using digit_not_special decimal_digits [of c "nat \<bar>i\<bar>"] by auto
  have r: "read_digits 0 (c # cs) = nat \<bar>i\<bar>" using read_decimal [of "nat \<bar>i\<bar>"] d by simp
  show ?thesis
  proof (cases "i < 0")
    case True
    then have "decimal_int i = CHR ''-'' # c # cs" using d by (simp add: decimal_int_def abs_if)
    then show ?thesis using range True r by (simp add: atoi_def Let_def is_space_def del: read_digits.simps)
  next
    case False
    then have "decimal_int i = c # cs" using d by (simp add: decimal_int_def abs_if)
    then show ?thesis using range False r c by (simp add: atoi_def Let_def del: read_digits.simps)
  qed
qed

lemma atoi_range: "atoi s = Some i \<Longrightarrow> - (2 ^ 31) \<le> i \<and> i < 2 ^ 31"
  by (auto simp: atoi_def Let_def split: if_splits)

end
