(* ===== verification/Application.thy ===== *)
theory Application
  imports Exchange_Wiring Decimal
begin

text \<open>
  The exchange process: the command line (apps/exchange/main.cpp) and \<open>Application\<close>
  (src/application.hpp, src/application.cpp), which runs the exchange on a number of I/O threads and shuts it
  down on a signal.  The threads, the main thread in \<open>wait()\<close> and the one that runs \<open>stop()\<close> interleave at the
  calls of \<open>join\<close>; \<open>std::thread::join\<close> waits for the thread to return and throws
  \<open>std::system_error\<close> when a thread joins itself, as the standard says.  An exception that leaves a
  handler leaves \<open>io_context::run()\<close>, and \<open>run_io_context\<close> answers it with \<open>std::terminate\<close>.
\<close>

section \<open>The command line\<close>

definition DEFAULT_PORT :: "16 word" where
  "DEFAULT_PORT = 16000"

definition DEFAULT_IO_THREADS :: nat where
  "DEFAULT_IO_THREADS = 1"

text \<open>The port and the messages to \<open>std::cerr\<close>; no result where \<open>std::atoi\<close> has none.\<close>

definition port_argument :: "string list \<Rightarrow> (16 word \<times> string list) option" where
  "port_argument argv =
     (if 1 < length argv
      then do {
        p \<leftarrow> atoi (argv ! 1);
        if 0 < p \<and> p \<le> 65535 then Some (of_int p, [])
        else Some (DEFAULT_PORT, [''Invalid port number, using default: '' @ decimal (unat DEFAULT_PORT) @ endl])
      }
      else Some (DEFAULT_PORT, []))"

definition threads_argument :: "string list \<Rightarrow> (nat \<times> string list) option" where
  "threads_argument argv =
     (if 2 < length argv
      then do {
        t \<leftarrow> atoi (argv ! 2);
        if 0 < t then Some (nat t, [])
        else Some (DEFAULT_IO_THREADS, [''Invalid thread count, using default: '' @ decimal DEFAULT_IO_THREADS @ endl])
      }
      else Some (DEFAULT_IO_THREADS, []))"

definition main_arguments :: "string list \<Rightarrow> (16 word \<times> nat \<times> string list) option" where
  "main_arguments argv = do {
     (p, err1) \<leftarrow> port_argument argv;
     (t, err2) \<leftarrow> threads_argument argv;
     Some (p, t, err1 @ err2)
   }"

lemma int_unat_port: "0 < i \<Longrightarrow> i \<le> 65535 \<Longrightarrow> int (unat (of_int i :: 16 word)) = i"
  by (simp add: unsigned_of_int take_bit_int_eq_self)

lemma port_argument_spec:
  "port_argument argv = Some (p, err) \<Longrightarrow> p \<noteq> 0"
  "- (2 ^ 31) \<le> i \<Longrightarrow> i < 2 ^ 31 \<Longrightarrow> \<exists>p err. port_argument [prog, decimal_int i, x] = Some (p, err) \<and>
     int (unat p) = (if 0 < i \<and> i \<le> 65535 then i else 16000) \<and> length err = (if 0 < i \<and> i \<le> 65535 then 0 else 1)"
proof -
  have "of_int i \<noteq> (0 :: 16 word)" if "0 < i" "i \<le> 65535" for i
    using int_unat_port [OF that] that by auto
  then show "port_argument argv = Some (p, err) \<Longrightarrow> p \<noteq> 0"
    by (auto simp: port_argument_def DEFAULT_PORT_def split: if_splits Option.bind_splits)
  show "\<exists>p err. port_argument [prog, decimal_int i, x] = Some (p, err) \<and>
     int (unat p) = (if 0 < i \<and> i \<le> 65535 then i else 16000) \<and> length err = (if 0 < i \<and> i \<le> 65535 then 0 else 1)"
    if "- (2 ^ 31) \<le> i" "i < 2 ^ 31"
  proof (cases "0 < i \<and> i \<le> 65535")
    case True
    then show ?thesis using int_unat_port [of i] atoi_decimal [OF that] by (simp add: port_argument_def)
  next
    case False
    then show ?thesis using atoi_decimal [OF that] unfolding port_argument_def DEFAULT_PORT_def by auto
  qed
qed

lemma threads_argument_spec:
  "threads_argument argv = Some (t, err) \<Longrightarrow> 0 < t"
  "- (2 ^ 31) \<le> n \<Longrightarrow> n < 2 ^ 31 \<Longrightarrow> \<exists>t err. threads_argument [prog, x, decimal_int n] = Some (t, err) \<and>
     int t = (if 0 < n then n else 1) \<and> length err = (if 0 < n then 0 else 1)"
proof -
  show "threads_argument argv = Some (t, err) \<Longrightarrow> 0 < t"
    by (auto simp: threads_argument_def DEFAULT_IO_THREADS_def split: if_splits Option.bind_splits)
  show "\<exists>t err. threads_argument [prog, x, decimal_int n] = Some (t, err) \<and>
     int t = (if 0 < n then n else 1) \<and> length err = (if 0 < n then 0 else 1)"
    if "- (2 ^ 31) \<le> n" "n < 2 ^ 31"
    using atoi_decimal [OF that] by (cases "0 < n") (simp_all add: threads_argument_def DEFAULT_IO_THREADS_def)
qed

section \<open>The application\<close>

text \<open>
  What an I/O thread is doing: serving handlers inside \<open>io_context::run()\<close>, in the handler of the signal in the
  loop of \<open>stop()\<close> at the given index of \<open>threads_\<close>, or returned.
\<close>

datatype thread_state = Serving | In_Stop nat | Returned

record IoThread =
  doing :: thread_state
  joinable :: bool

record Application =
  exchange :: Exchange
  app_running :: bool
  work_guard :: bool
  io_stopped :: bool
  signal_armed :: bool
  threads :: "IoThread list"
  threads_capacity :: nat
  port :: "16 word"

text \<open>\<open>cap\<close> is the capacity \<open>threads_.reserve\<close> arranges for, at least the number asked for.\<close>

definition Application_init :: "16 word \<Rightarrow> nat \<Rightarrow> Exchange \<Rightarrow> Application" where
  "Application_init p cap ex =
     \<lparr>exchange = ex, app_running = False, work_guard = True, io_stopped = False, signal_armed = True,
      threads = [], threads_capacity = cap, port = p\<rparr>"

definition app_start :: "Application \<Rightarrow> Application" where
  "app_start a =
     (if app_running a then a
      else a\<lparr>app_running := True, exchange := start (exchange a),
             threads := threads a @ replicate (threads_capacity a) \<lparr>doing = Serving, joinable = True\<rparr>\<rparr>)"

text \<open>\<open>stop()\<close> up to its loop, run by thread \<open>i\<close>.\<close>

definition stop_begin :: "nat \<Rightarrow> Application \<Rightarrow> Application" where
  "stop_begin i a =
     (if \<not> app_running a then a
      else a\<lparr>app_running := False, exchange := stop (exchange a), work_guard := False, io_stopped := True,
             threads := (threads a)[i := (threads a ! i)\<lparr>doing := In_Stop 0\<rparr>]\<rparr>)"

definition set_doing :: "nat \<Rightarrow> thread_state \<Rightarrow> Application \<Rightarrow> Application" where
  "set_doing i d a = a\<lparr>threads := (threads a)[i := (threads a ! i)\<lparr>doing := d\<rparr>]\<rparr>"

definition set_joined :: "nat \<Rightarrow> Application \<Rightarrow> Application" where
  "set_joined i a = a\<lparr>threads := (threads a)[i := (threads a ! i)\<lparr>joinable := False\<rparr>]\<rparr>"

text \<open>The process: the application with the index the main thread has reached in \<open>wait()\<close>, or how it ended.\<close>

datatype process = Process Application nat | Terminated | Exited nat

definition thread_is :: "Application \<Rightarrow> nat \<Rightarrow> thread_state \<Rightarrow> bool" where
  "thread_is a i d \<longleftrightarrow> i < length (threads a) \<and> doing (threads a ! i) = d"

inductive app_step :: "process \<Rightarrow> process \<Rightarrow> bool" where
  handler: "thread_is a i Serving \<Longrightarrow> \<not> io_stopped a \<Longrightarrow> ex_step (exchange a) ex \<Longrightarrow>
    app_step (Process a k) (Process (a\<lparr>exchange := ex\<rparr>) k)"
| signal: "thread_is a i Serving \<Longrightarrow> \<not> io_stopped a \<Longrightarrow> signal_armed a \<Longrightarrow>
    app_step (Process a k) (Process (stop_begin i (a\<lparr>signal_armed := False\<rparr>)) k)"
| run_returns: "thread_is a i Serving \<Longrightarrow> io_stopped a \<Longrightarrow>
    app_step (Process a k) (Process (set_doing i Returned a) k)"
| stop_joins: "thread_is a i (In_Stop j) \<Longrightarrow> thread_is a j Returned \<Longrightarrow> j \<noteq> i \<Longrightarrow> joinable (threads a ! j) \<Longrightarrow>
    app_step (Process a k) (Process (set_doing i (In_Stop (j + 1)) (set_joined j a)) k)"
| stop_skips: "thread_is a i (In_Stop j) \<Longrightarrow> j < length (threads a) \<Longrightarrow> \<not> joinable (threads a ! j) \<Longrightarrow>
    app_step (Process a k) (Process (set_doing i (In_Stop (j + 1)) a) k)"
| stop_joins_itself: "thread_is a i (In_Stop i) \<Longrightarrow> joinable (threads a ! i) \<Longrightarrow>
    app_step (Process a k) Terminated"
| stop_ends: "thread_is a i (In_Stop (length (threads a))) \<Longrightarrow>
    app_step (Process a k) (Process (a\<lparr>threads := []\<rparr>) k)"
| wait_joins: "thread_is a k Returned \<Longrightarrow> joinable (threads a ! k) \<Longrightarrow>
    app_step (Process a k) (Process (set_joined k a) (k + 1))"
| wait_skips: "k < length (threads a) \<Longrightarrow> \<not> joinable (threads a ! k) \<Longrightarrow>
    app_step (Process a k) (Process a (k + 1))"
| wait_ends: "length (threads a) \<le> k \<Longrightarrow> app_step (Process a k) (Exited 0)"

inductive_cases app_stepE: "app_step (Process a k) s"
inductive_cases app_endE [elim!]: "app_step Terminated s" "app_step (Exited c) s"

abbreviation app_steps :: "process \<Rightarrow> process \<Rightarrow> bool" where
  "app_steps \<equiv> app_step\<^sup>*\<^sup>*"

definition exchange_process :: "16 word \<Rightarrow> nat \<Rightarrow> Exchange \<Rightarrow> process" where
  "exchange_process p cap ex = Process (app_start (Application_init p cap ex)) 0"

text \<open>
  \<open>main\<close>: \<open>construct\<close> is what the constructor of the exchange gives for a port, or \<open>None\<close> if it throws (the port is
  taken, a log file cannot be opened); \<open>reserve n\<close> is the capacity after \<open>threads_.reserve(n)\<close>.
\<close>

definition exchange_main :: "(nat \<Rightarrow> nat) \<Rightarrow> (16 word \<Rightarrow> Exchange option) \<Rightarrow> string list \<Rightarrow> process option" where
  "exchange_main reserve construct argv = do {
     (p, t, err) \<leftarrow> main_arguments argv;
     Some (case construct p of None \<Rightarrow> Exited 1 | Some ex \<Rightarrow> exchange_process p (reserve t) ex)
   }"

section \<open>Starting and stopping\<close>

lemma app_start_twice: "app_start (app_start a) = app_start a"
  by (simp add: app_start_def)

lemma stop_when_stopped: "\<not> app_running a \<Longrightarrow> stop_begin i a = a"
  by (simp add: stop_begin_def)

section \<open>The invariant of the process\<close>

text \<open>Before the signal every thread serves; after it one thread is in \<open>stop()\<close> and not past itself.\<close>

definition serving :: "Application \<Rightarrow> bool" where
  "serving a \<longleftrightarrow> app_running a \<and> \<not> io_stopped a \<and> threads a \<noteq> [] \<and>
     (\<forall>t \<in> set (threads a). t = \<lparr>doing = Serving, joinable = True\<rparr>)"

definition stopping :: "Application \<Rightarrow> nat \<Rightarrow> nat \<Rightarrow> bool" where
  "stopping a i k \<longleftrightarrow> io_stopped a \<and> i < length (threads a) \<and> k \<le> i \<and> joinable (threads a ! i) \<and>
     (\<exists>j \<le> i. doing (threads a ! i) = In_Stop j) \<and>
     (\<forall>m < length (threads a). m \<noteq> i \<longrightarrow> doing (threads a ! m) = Returned \<or> doing (threads a ! m) = Serving)"

fun proc_inv :: "process \<Rightarrow> bool" where
  "proc_inv (Process a k) \<longleftrightarrow> serving a \<and> k = 0 \<or> (\<exists>i. stopping a i k)"
| "proc_inv Terminated \<longleftrightarrow> True"
| "proc_inv (Exited c) \<longleftrightarrow> False"

lemma serving_nth: "serving a \<Longrightarrow> m < length (threads a) \<Longrightarrow> threads a ! m = \<lparr>doing = Serving, joinable = True\<rparr>"
  by (simp add: serving_def)

lemma thread_is_serving: "serving a \<Longrightarrow> thread_is a i d \<Longrightarrow> d = Serving \<and> joinable (threads a ! i)"
  using serving_nth [of a i] by (auto simp: thread_is_def)

lemma stopping_doing:
  "stopping a i k \<Longrightarrow> thread_is a m (In_Stop j) \<Longrightarrow> m = i \<and> j \<le> i"
  by (auto simp: stopping_def thread_is_def)

lemma thread_sel [simp]:
  "threads (set_doing i d a) = (threads a)[i := (threads a ! i)\<lparr>doing := d\<rparr>]"
  "threads (set_joined i a) = (threads a)[i := (threads a ! i)\<lparr>joinable := False\<rparr>]"
  "io_stopped (set_doing i d a) = io_stopped a" "io_stopped (set_joined i a) = io_stopped a"
  by (simp_all add: set_doing_def set_joined_def)

lemma stopping_step:
  assumes "stopping a i k" and "app_step (Process a k) s"
  shows "proc_inv s"
  using assms(2)
proof cases
  case (handler m ex)
  then show ?thesis using assms(1) by (simp add: stopping_def)
next
  case (signal m)
  then show ?thesis using assms(1) by (simp add: stopping_def)
next
  case (run_returns m)
  then have "stopping (set_doing m Returned a) i k"
    using assms(1) by (auto simp: stopping_def thread_is_def nth_list_update)
  then show ?thesis using run_returns by auto
next
  case (stop_joins m j)
  then have m: "m = i" "j < i" using stopping_doing [OF assms(1)] by fastforce+
  then have "stopping (set_doing i (In_Stop (j + 1)) (set_joined j a)) i k"
    using assms(1) stop_joins by (auto simp: stopping_def thread_is_def nth_list_update)
  then show ?thesis using stop_joins m by auto
next
  case (stop_skips m j)
  then have "m = i" "j \<le> i" "j \<noteq> i" using stopping_doing [OF assms(1)] assms(1) by (auto simp: stopping_def)
  then have m: "m = i" "j < i" by simp_all
  then have "stopping (set_doing i (In_Stop (j + 1)) a) i k"
    using assms(1) stop_skips by (auto simp: stopping_def thread_is_def nth_list_update)
  then show ?thesis using stop_skips m by auto
next
  case (stop_ends m)
  then have "m = i" "length (threads a) \<le> i" using stopping_doing [OF assms(1)] by auto
  then show ?thesis using assms(1) by (simp add: stopping_def)
next
  case wait_joins
  then have k: "k < i" using assms(1) by (auto simp: stopping_def thread_is_def le_less)
  then have "stopping (set_joined k a) i (k + 1)"
    using assms(1) by (auto simp: stopping_def nth_list_update)
  then show ?thesis using wait_joins by auto
next
  case wait_skips
  then have "k < i" using assms(1) by (auto simp: stopping_def le_less)
  then have "stopping a i (k + 1)" using assms(1) by (simp add: stopping_def)
  then show ?thesis using wait_skips by auto
next
  case wait_ends
  then show ?thesis using assms(1) by (simp add: stopping_def)
qed simp

lemma serving_step:
  assumes "serving a" and "app_step (Process a 0) s"
  shows "proc_inv s"
  using assms(2)
proof cases
  case (handler m ex)
  then show ?thesis using assms(1) by (simp add: serving_def)
next
  case (signal m)
  have m: "m < length (threads a)" and r: "app_running a" using signal assms(1) by (simp_all add: thread_is_def serving_def)
  have "stopping (stop_begin m (a\<lparr>signal_armed := False\<rparr>)) m 0"
    using m r serving_nth [OF assms(1)] by (simp add: stopping_def stop_begin_def)
  then show ?thesis using signal by auto
next
  case wait_skips
  then show ?thesis using serving_nth [OF assms(1)] by simp
next
  case wait_ends
  then show ?thesis using assms(1) by (simp add: serving_def)
next
  case wait_joins
  then show ?thesis using thread_is_serving [OF assms(1)] by blast
next
  case (stop_skips i j)
  then show ?thesis using thread_is_serving [OF assms(1)] by blast
qed (use thread_is_serving [OF assms(1)] assms(1) in \<open>auto simp: serving_def\<close>)

lemma proc_inv_steps: "app_steps s s' \<Longrightarrow> proc_inv s \<Longrightarrow> proc_inv s'"
proof (induction rule: rtranclp_induct)
  case (step s1 s2)
  then have inv: "proc_inv s1" by simp
  show ?case
  proof (cases s1)
    case (Process a k)
    then show ?thesis using inv step(2) serving_step stopping_step by auto
  qed (use step(2) in auto)
qed

lemma process_start_inv: "0 < cap \<Longrightarrow> proc_inv (exchange_process p cap ex)"
  by (simp add: exchange_process_def app_start_def Application_init_def serving_def)

section \<open>How the process ends\<close>

definition stopped :: "process \<Rightarrow> bool" where
  "stopped s \<longleftrightarrow> (case s of Process a k \<Rightarrow> io_stopped a | _ \<Rightarrow> False)"

text \<open>What is left to do once the signal has been handled: the threads that still serve, the turns of both loops.\<close>

fun turns_left :: "nat \<Rightarrow> thread_state \<Rightarrow> nat" where
  "turns_left n Serving = 1"
| "turns_left n (In_Stop j) = n - j"
| "turns_left n Returned = 0"

fun work_left :: "process \<Rightarrow> nat" where
  "work_left (Process a k) = 1 + (length (threads a) - k)
     + (\<Sum>t\<leftarrow>threads a. turns_left (length (threads a)) (doing t))"
| "work_left _ = 0"

lemma sum_list_update_less:
  fixes f :: "'a \<Rightarrow> nat"
  shows "i < length xs \<Longrightarrow> f x < f (xs ! i) \<Longrightarrow> sum_list (map f (xs[i := x])) < sum_list (map f xs)"
  by (induction xs arbitrary: i) (auto split: nat.splits)

lemma sum_list_update_same:
  "i < length xs \<Longrightarrow> f x = f (xs ! i) \<Longrightarrow> sum_list (map f (xs[i := x])) = sum_list (map f xs)"
  by (metis list_update_id map_update)

lemma stopped_step_less:
  assumes "proc_inv s" and "stopped s" and "app_step s s'"
  shows "work_left s' < work_left s"
proof -
  obtain a k where s: "s = Process a k" and io: "io_stopped a" using assms(2) by (cases s) (auto simp: stopped_def)
  then obtain i where st: "stopping a i k" using assms(1) by (auto simp: serving_def)
  let ?f = "\<lambda>t. turns_left (length (threads a)) (doing t)"
  have kl: "k < length (threads a)" using st by (auto simp: stopping_def)
  have dec: "sum_list (map ?f ((threads b)[m := (threads b ! m)\<lparr>doing := d\<rparr>])) < sum_list (map ?f (threads b))"
    if "m < length (threads b)" "turns_left (length (threads a)) d < ?f (threads b ! m)" for b m d
    by (rule sum_list_update_less) (use that in simp_all)
  have same: "sum_list (map ?f ((threads a)[m := (threads a ! m)\<lparr>joinable := False\<rparr>])) = sum_list (map ?f (threads a))"
    if "m < length (threads a)" for m
    by (rule sum_list_update_same) (use that in simp_all)
  show ?thesis
    using assms(3) [unfolded s]
  proof cases
    case (run_returns m)
    then show ?thesis using dec [of m a Returned] by (simp add: s thread_is_def)
  next
    case (stop_joins m j)
    then have "j < i" "m = i" using stopping_doing [OF st] by fastforce+
    then have "turns_left (length (threads a)) (In_Stop (j + 1)) < ?f (threads (set_joined j a) ! m)"
      using stop_joins st by (auto simp: stopping_def thread_is_def intro!: diff_less_mono2)
    then have "sum_list (map ?f (threads (set_doing m (In_Stop (j + 1)) (set_joined j a)))) < sum_list (map ?f (threads a))"
      using dec [of m "set_joined j a" "In_Stop (j + 1)"] same [of j] stop_joins by (simp add: thread_is_def)
    then show ?thesis using stop_joins(1) kl by (simp add: s)
  next
    case (stop_skips m j)
    then show ?thesis using dec [of m a "In_Stop (j + 1)"] by (simp add: s thread_is_def)
  next
    case (wait_joins)
    then show ?thesis using same [of k] kl by (simp add: s thread_is_def)
  next
    case (stop_ends m)
    then have "length (threads a) \<le> i" using stopping_doing [OF st] by blast
    then show ?thesis using st by (simp add: stopping_def)
  qed (use io kl in \<open>simp_all add: s\<close>)
qed

lemma io_stopped_kept: "app_step s s' \<Longrightarrow> stopped s \<Longrightarrow> s' = Process a k \<Longrightarrow> stopped s'"
  by (cases rule: app_step.cases) (auto simp: stopped_def)

lemma stopped_progress:
  assumes inv: "proc_inv s" and st: "stopped s"
  shows "\<exists>s'. app_step s s' \<and> (stopped s' \<or> s' = Terminated)"
proof -
  obtain a k where s: "s = Process a k" and io: "io_stopped a" using st by (cases s) (auto simp: stopped_def)
  then obtain i where sp: "stopping a i k" using inv by (auto simp: serving_def)
  then obtain j where j: "thread_is a i (In_Stop j)" "j \<le> i" "i < length (threads a)" "joinable (threads a ! i)"
    by (auto simp: stopping_def thread_is_def)
  have other: "thread_is a j Returned \<or> thread_is a j Serving" if "j \<noteq> i"
    using sp that j(2,3) by (auto simp: stopping_def thread_is_def)
  have st': "stopped (Process (set_doing m d b) k)" if "io_stopped b" for m d b using that by (simp add: stopped_def)
  consider "j = i" | "j \<noteq> i" "thread_is a j Serving" | "j \<noteq> i" "thread_is a j Returned" "joinable (threads a ! j)"
    | "j \<noteq> i" "\<not> joinable (threads a ! j)" using other by blast
  then show ?thesis
  proof cases
    case 1
    then show ?thesis using app_step.stop_joins_itself j s by blast
  next
    case 2
    then show ?thesis using app_step.run_returns [of a j k] io s st' by blast
  next
    case 3
    then show ?thesis using app_step.stop_joins [OF j(1), of k] io s st' [of "set_joined j a"] by (metis thread_sel(4))
  next
    case 4
    then show ?thesis using app_step.stop_skips [OF j(1), of k] j io s st' by (metis order.strict_trans1)
  qed
qed

lemma stopped_terminates: "proc_inv s \<Longrightarrow> stopped s \<Longrightarrow> app_steps s Terminated"
proof (induction "work_left s" arbitrary: s rule: less_induct)
  case less
  obtain s' where s': "app_step s s'" "stopped s' \<or> s' = Terminated" using stopped_progress [OF less.prems] by blast
  show ?case
  proof (cases "stopped s'")
    case True
    have "proc_inv s'" using proc_inv_steps [of s s'] s'(1) less.prems(1) by blast
    then have "app_steps s' Terminated" using less.hyps stopped_step_less [OF less.prems s'(1)] True by blast
    then show ?thesis using s'(1) by (meson converse_rtranclp_into_rtranclp)
  next
    case False
    then show ?thesis using s' by blast
  qed
qed

lemma main_arguments_valid:
  assumes "main_arguments argv = Some (p, t, err)"
  shows "p \<noteq> 0" "0 < t"
  using assms port_argument_spec(1) threads_argument_spec(1)
  by (auto simp: main_arguments_def split: Option.bind_splits prod.splits)

text \<open>
  C23: The exchange process has no orderly end.  Let \<open>reserve\<close> give at least the capacity asked for.
  Whatever the arguments, and however the threads interleave, the process returns from \<open>main\<close> only at once, with
  code 1, because the exchange could not be constructed: the main thread never gets past \<open>wait()\<close>.  Once the signal
  has been handled, every execution is finite, never gets stuck and ends in
  \<open>std::terminate\<close>, because the handler runs \<open>stop()\<close> on one of the I/O threads, which then joins itself.
\<close>

theorem exchange_process_ends_only_by_terminate:
  assumes "exchange_main reserve construct argv = Some s0" and "\<And>n. n \<le> reserve n" and "app_steps s0 s"
  shows "(s = Exited c \<longrightarrow> c = 1 \<and> s0 = Exited 1) \<and> (stopped s \<longrightarrow> app_steps s Terminated \<and> (\<exists>s'. app_step s s') \<and>
    (\<forall>s'. app_step s s' \<longrightarrow> (stopped s' \<or> s' = Terminated) \<and> work_left s' < work_left s))"
proof (cases "s0 = Exited 1")
  case True
  then have "s = Exited 1" using assms(3) by (metis app_endE(2) converse_rtranclpE)
  then show ?thesis using True by (simp add: stopped_def)
next
  case False
  then obtain p t err ex where m: "main_arguments argv = Some (p, t, err)" and s0: "s0 = exchange_process p (reserve t) ex"
    using assms(1) by (auto simp: exchange_main_def split: Option.bind_splits option.splits)
  have "0 < reserve t" using main_arguments_valid(2) [OF m] assms(2) [of t] by simp
  then have inv: "proc_inv s" using proc_inv_steps [OF assms(3)] process_start_inv s0 by blast
  have next_inv: "stopped s' \<or> s' = Terminated" if st: "stopped s" and step: "app_step s s'" for s'
  proof (cases s')
    case (Process a k)
    then show ?thesis using io_stopped_kept [OF step st] by simp
  next
    case (Exited n)
    then show ?thesis using proc_inv_steps [of s s'] inv step by auto
  qed simp
  show ?thesis
    using inv stopped_terminates [OF inv] stopped_progress [OF inv] stopped_step_less [OF inv] next_inv by auto
qed

theorem exchange_process_ends_only_by_terminate_witness:
  "\<exists>s0 s. exchange_main (\<lambda>n. n) (\<lambda>p. Some (Exchange_init no_message empty_book)) [''exchange''] = Some s0 \<and>
     app_steps s0 s \<and> stopped s \<and> app_steps s Terminated"
proof -
  let ?a = "app_start (Application_init 16000 1 (Exchange_init no_message empty_book))"
  let ?fst = "Process ?a 0" and ?s = "Process (stop_begin 0 (?a\<lparr>signal_armed := False\<rparr>)) 0"
  have m: "exchange_main (\<lambda>n. n) (\<lambda>p. Some (Exchange_init no_message empty_book)) [''exchange''] = Some ?fst"
    by (simp add: exchange_main_def main_arguments_def port_argument_def threads_argument_def DEFAULT_PORT_def
        DEFAULT_IO_THREADS_def exchange_process_def)
  have "app_step ?fst ?s"
    by (rule app_step.signal [of ?a 0 0]) (simp_all add: thread_is_def app_start_def Application_init_def)
  then have r: "app_steps ?fst ?s" by (rule r_into_rtranclp)
  moreover have "stopped ?s" by (simp add: stopped_def stop_begin_def app_start_def)
  moreover from this have "app_steps ?s Terminated" using exchange_process_ends_only_by_terminate [OF m order.refl r] by simp
  ultimately show ?thesis using m by blast
qed

text \<open>
  C39: The command line.  Whatever the arguments, if \<open>std::atoi\<close> is defined on them the exchange is given a
  port that is not 0 and at least one thread; a decimal port from 1 to 65535 is taken as it is, without loss in
  the conversion to 16 bits, and so is a positive number of threads; any other number gives the default and a message.
\<close>

theorem main_arguments_are_valid:
  "(main_arguments argv = Some (p, t, err) \<longrightarrow> p \<noteq> 0 \<and> 0 < t) \<and>
   (- (2 ^ 31) \<le> i \<and> i < 2 ^ 31 \<and> - (2 ^ 31) \<le> n \<and> n < 2 ^ 31 \<longrightarrow>
     (\<exists>p t err. main_arguments [prog, decimal_int i, decimal_int n] = Some (p, t, err) \<and>
        int (unat p) = (if 0 < i \<and> i \<le> 65535 then i else 16000) \<and> int t = (if 0 < n then n else 1) \<and>
        length err = (if 0 < i \<and> i \<le> 65535 then 0 else 1) + (if 0 < n then 0 else 1)))"
proof (intro conjI impI)
  assume "main_arguments argv = Some (p, t, err)"
  then show "p \<noteq> 0" "0 < t" by (rule main_arguments_valid)+
next
  assume "- (2 ^ 31) \<le> i \<and> i < 2 ^ 31 \<and> - (2 ^ 31) \<le> n \<and> n < 2 ^ 31"
  then obtain p err1 t err2 where "port_argument [prog, decimal_int i, decimal_int n] = Some (p, err1)"
    "int (unat p) = (if 0 < i \<and> i \<le> 65535 then i else 16000)" "length err1 = (if 0 < i \<and> i \<le> 65535 then 0 else 1)"
    "threads_argument [prog, decimal_int i, decimal_int n] = Some (t, err2)"
    "int t = (if 0 < n then n else 1)" "length err2 = (if 0 < n then 0 else 1)"
    using port_argument_spec(2) [of i prog "decimal_int n"] threads_argument_spec(2) [of n prog "decimal_int i"] by blast
  then show "\<exists>p t err. main_arguments [prog, decimal_int i, decimal_int n] = Some (p, t, err) \<and>
        int (unat p) = (if 0 < i \<and> i \<le> 65535 then i else 16000) \<and> int t = (if 0 < n then n else 1) \<and>
        length err = (if 0 < i \<and> i \<le> 65535 then 0 else 1) + (if 0 < n then 0 else 1)"
    unfolding main_arguments_def by (intro exI [of _ p] exI [of _ t] exI [of _ "err1 @ err2"]) (simp del: of_nat_unat)
qed

theorem main_arguments_are_valid_witness:
  "\<exists>p t err. main_arguments [''exchange'', decimal_int 8080, decimal_int 4] = Some (p, t, err) \<and> int (unat p) = 8080 \<and> int t = 4"
  using main_arguments_are_valid [of "[]" 0 0 "[]" 8080 4 "''exchange''"] by auto

end
