(* ===== verification/Shadow_Order_Book.thy ===== *)
theory Shadow_Order_Book
  imports Exchange_Engine "HOL-Library.RBT" "HOL-Library.Signed_Division"
begin

text \<open>
  The copy of the book a market-data subscriber keeps (apps/market_simulator/shadow_order_book.hpp).
  The two \<open>std::map\<close>s are red-black trees from prices to volumes, \<open>begin\<close> and \<open>rbegin\<close> their
  first and last keys.  The copy is shown to follow the exchange's book: what the feed's level
  updates make of a snapshot is the book the exchange has by then.
\<close>

section \<open>The class\<close>

type_synonym price_map = "(Price_t, Volume_t) rbt"

record ShadowOrderBook =
  sh_bids :: price_map
  sh_asks :: price_map

definition ShadowOrderBook_init :: ShadowOrderBook where
  "ShadowOrderBook_init = \<lparr>sh_bids = RBT.empty, sh_asks = RBT.empty\<rparr>"

definition on_order_book_snapshot :: "ShadowOrderBook \<Rightarrow> PayloadOrderBookSnapshot \<Rightarrow> ShadowOrderBook" where
  "on_order_book_snapshot sh snapshot =
    fold (\<lambda>idx sh.
        let ask_price = PayloadOrderBookSnapshot.ask_prices snapshot ! idx;
            bid_price = PayloadOrderBookSnapshot.bid_prices snapshot ! idx;
            ask_volume = PayloadOrderBookSnapshot.ask_volumes snapshot ! idx;
            bid_volume = PayloadOrderBookSnapshot.bid_volumes snapshot ! idx;
            sh1 = (if ask_volume > 0 then sh\<lparr>sh_asks := RBT.insert ask_price ask_volume (sh_asks sh)\<rparr> else sh)
        in (if bid_volume > 0 then sh1\<lparr>sh_bids := RBT.insert bid_price bid_volume (sh_bids sh1)\<rparr> else sh1))
      [0..<length (PayloadOrderBookSnapshot.ask_prices snapshot)]
      (sh\<lparr>sh_bids := RBT.empty, sh_asks := RBT.empty\<rparr>)"

definition set_level :: "Price_t \<Rightarrow> Volume_t \<Rightarrow> price_map \<Rightarrow> price_map" where
  "set_level p v levels' = (if v = 0 then RBT.delete p levels' else RBT.insert p v levels')"

definition on_price_level_update :: "ShadowOrderBook \<Rightarrow> PayloadPriceLevelUpdate \<Rightarrow> ShadowOrderBook" where
  "on_price_level_update sh u =
    (let p = PayloadPriceLevelUpdate.price u; v = PayloadPriceLevelUpdate.total_volume u in
     if PayloadPriceLevelUpdate.side u = BUY then sh\<lparr>sh_bids := set_level p v (sh_bids sh)\<rparr>
     else sh\<lparr>sh_asks := set_level p v (sh_asks sh)\<rparr>)"

definition best_bid_price :: "ShadowOrderBook \<Rightarrow> Price_t option" where
  "best_bid_price sh = (if RBT.is_empty (sh_bids sh) then None else Some (last (RBT.keys (sh_bids sh))))"

definition best_ask_price :: "ShadowOrderBook \<Rightarrow> Price_t option" where
  "best_ask_price sh = (if RBT.is_empty (sh_asks sh) then None else Some (hd (RBT.keys (sh_asks sh))))"

definition mid_price :: "ShadowOrderBook \<Rightarrow> Price_t option" where
  "mid_price sh = do { bid \<leftarrow> best_bid_price sh; ask \<leftarrow> best_ask_price sh; Some ((bid + ask) sdiv 2) }"

definition spread :: "ShadowOrderBook \<Rightarrow> Price_t option" where
  "spread sh = do { bid \<leftarrow> best_bid_price sh; ask \<leftarrow> best_ask_price sh; Some (ask - bid) }"

definition shadow_volume_at :: "ShadowOrderBook \<Rightarrow> Side \<Rightarrow> Price_t \<Rightarrow> Volume_t" where
  "shadow_volume_at sh sd p =
    (case RBT.lookup (if sd = BUY then sh_bids sh else sh_asks sh) p of None \<Rightarrow> 0 | Some v \<Rightarrow> v)"

section \<open>Snapshots\<close>

definition shadow_levels :: "ShadowOrderBook \<Rightarrow> Side \<Rightarrow> price_map" where
  "shadow_levels sh sd = (if sd = BUY then sh_bids sh else sh_asks sh)"

text \<open>A map without zero entries is given by the volumes it answers.\<close>

definition no_zeros :: "price_map \<Rightarrow> bool" where
  "no_zeros t \<longleftrightarrow> (\<forall>p. RBT.lookup t p \<noteq> Some 0)"

lemma no_zeros_simps [simp]:
  "no_zeros RBT.empty" "no_zeros t \<Longrightarrow> no_zeros (set_level p v t)"
  "no_zeros t \<Longrightarrow> v \<noteq> 0 \<Longrightarrow> no_zeros (RBT.insert p v t)"
  by (auto simp: no_zeros_def set_level_def)

definition load :: "(Price_t \<times> Volume_t) list \<Rightarrow> price_map \<Rightarrow> price_map" where
  "load pvs t = fold (\<lambda>(p, v) t. if v > 0 then RBT.insert p v t else t) pvs t"

lemma lookup_load:
  "RBT.lookup (load pvs t) = RBT.lookup t ++ map_of (rev (filter (\<lambda>(p, v). v > 0) pvs))"
  by (induction pvs arbitrary: t) (auto simp: load_def)

lemma no_zeros_load: "no_zeros t \<Longrightarrow> no_zeros (load pvs t)"
  by (induction pvs arbitrary: t) (auto simp: load_def)

lemma snapshot_loads:
  assumes "length ap = n" "length av = n" "length bp = n" "length bv = n"
  shows "on_order_book_snapshot sh (make_order_book_snapshot ap av bp bv seq) =
    sh\<lparr>sh_bids := load (zip bp bv) RBT.empty, sh_asks := load (zip ap av) RBT.empty\<rparr>"
proof -
  let ?step = "\<lambda>idx sh. let ask_price = ap ! idx; bid_price = bp ! idx; ask_volume = av ! idx; bid_volume = bv ! idx;
            sh1 = (if ask_volume > 0 then sh\<lparr>sh_asks := RBT.insert ask_price ask_volume (sh_asks sh)\<rparr> else sh)
        in (if bid_volume > 0 then sh1\<lparr>sh_bids := RBT.insert bid_price bid_volume (sh_bids sh1)\<rparr> else sh1)"
  have "fold ?step [0..<k] (sh\<lparr>sh_bids := RBT.empty, sh_asks := RBT.empty\<rparr>) =
      sh\<lparr>sh_bids := load (take k (zip bp bv)) RBT.empty, sh_asks := load (take k (zip ap av)) RBT.empty\<rparr>"
    if "k \<le> n" for k
    using that
  proof (induction k)
    case 0
    then show ?case by (simp add: load_def)
  next
    case (Suc k)
    then have "take (Suc k) (zip bp bv) = take k (zip bp bv) @ [(bp ! k, bv ! k)]"
      "take (Suc k) (zip ap av) = take k (zip ap av) @ [(ap ! k, av ! k)]"
      using assms by (simp_all add: take_Suc_conv_app_nth)
    then show ?case using Suc by (simp add: Let_def load_def)
  qed
  from this [of n] show ?thesis
    using assms by (simp add: on_order_book_snapshot_def make_order_book_snapshot_def)
qed


lemma map_of_function:
  "(\<And>p v. (p, v) \<in> set xs \<Longrightarrow> v = f p) \<Longrightarrow> map_of xs p = (if p \<in> fst ` set xs then Some (f p) else None)"
  by (induction xs) force+

lemma good_volume_pos:
  assumes "good_book b"
  shows "volumes_of b sd p = of_nat (volume_at (orders b (sd = BUY)) p)"
    and "volumes_of b sd p \<noteq> 0 \<longleftrightarrow> p \<in> r_price ` set (orders b (sd = BUY))"
proof -
  obtain L F where rep: "book_rep b L F" using good_bookD [OF assms] by (auto simp: wf_book_def)
  show vol: "volumes_of b sd p = of_nat (volume_at (orders b (sd = BUY)) p)" by (rule volumes_of_volume [OF rep])
  have "volume_at (orders b (sd = BUY)) p < 2 ^ 32" using good_bookD [OF assms] by (simp add: within_range_def)
  then have "volumes_of b sd p \<noteq> 0 \<longleftrightarrow> volume_at (orders b (sd = BUY)) p \<noteq> 0"
    unfolding vol by (cases "volume_at (orders b (sd = BUY)) p = 0") (auto simp: word_of_nat_eq_0_iff dest: nat_dvd_not_less)
  also have "\<dots> \<longleftrightarrow> p \<in> r_price ` set (orders b (sd = BUY))"
    using volume_at_pos [of _ "orders b (sd = BUY)" p] resting_pos [OF rep, of _ "sd = BUY"]
      volume_at_none [of "orders b (sd = BUY)" p]
    by (metis (no_types, lifting) image_iff)
  finally show "volumes_of b sd p \<noteq> 0 \<longleftrightarrow> p \<in> r_price ` set (orders b (sd = BUY))" .
qed

text \<open>The prices a snapshot lists.\<close>

definition listed :: "OrderBook \<Rightarrow> Side \<Rightarrow> Price_t set" where
  "listed b sd = fst ` set (take ORDER_BOOK_MESSAGE_DEPTH (depth (orders b (sd = BUY))))"

lemma load_depth:
  assumes "good_book b"
  shows "RBT.lookup (load (pad_levels (take ORDER_BOOK_MESSAGE_DEPTH (depth (orders b (sd = BUY))))) RBT.empty) p =
    (if p \<in> listed b sd then Some (volumes_of b sd p) else None)"
proof -
  let ?ds = "take ORDER_BOOK_MESSAGE_DEPTH (depth (orders b (sd = BUY)))"
  let ?xs = "rev (filter (\<lambda>(p, v). v > 0) (pad_levels ?ds))"
  have "v = volumes_of b sd q \<and> v > 0" if "(q, v) \<in> set ?ds" for q v
  proof -
    have "(q, v) \<in> set (depth (orders b (sd = BUY)))" using that by (rule in_set_takeD)
    then have "q \<in> r_price ` set (orders b (sd = BUY))" "v = of_nat (volume_at (orders b (sd = BUY)) q)"
      by (auto simp: depth_def)
    then show ?thesis using good_volume_pos [OF assms, of sd q] by (simp add: word_neq_0_conv)
  qed
  then have entry: "(q, v) \<in> set ?xs \<longleftrightarrow> (q, v) \<in> set ?ds" "(q, v) \<in> set ?ds \<Longrightarrow> v = volumes_of b sd q" for q v
    by (auto simp: pad_levels_def)
  have "set ?xs = set ?ds" using entry(1) by (intro set_eqI) (metis surj_pair)
  moreover have "map_of ?xs p = (if p \<in> fst ` set ?xs then Some (volumes_of b sd p) else None)"
    using entry by (intro map_of_function) blast
  ultimately show ?thesis by (simp add: lookup_load listed_def)
qed

definition snapshot_of :: "OrderBook \<Rightarrow> Id_t \<Rightarrow> PayloadOrderBookSnapshot" where
  "snapshot_of b seq = (let bs = build_snapshot b in
     make_order_book_snapshot (BookSnapshot.ask_prices bs) (BookSnapshot.ask_volumes bs)
       (BookSnapshot.bid_prices bs) (BookSnapshot.bid_volumes bs) seq)"

lemma snapshot_shadow:
  fixes b :: OrderBook and sh :: ShadowOrderBook and seq :: Id_t
  assumes "good_book b"
  defines "sh' \<equiv> on_order_book_snapshot sh (snapshot_of b seq)"
  shows "shadow_volume_at sh' sd p = (if p \<in> listed b sd then volumes_of b sd p else 0)"
    and "no_zeros (shadow_levels sh' sd)"
proof -
  have pads: "length (pad_levels (take ORDER_BOOK_MESSAGE_DEPTH xs)) = ORDER_BOOK_MESSAGE_DEPTH" for xs
    by (simp add: pad_levels_def)
  have "sh' = sh\<lparr>sh_bids := load (pad_levels (take ORDER_BOOK_MESSAGE_DEPTH (depth (orders b True)))) RBT.empty,
      sh_asks := load (pad_levels (take ORDER_BOOK_MESSAGE_DEPTH (depth (orders b False)))) RBT.empty\<rparr>"
    unfolding sh'_def snapshot_of_def build_snapshot_depth [OF assms(1)] Let_def BookSnapshot.select_convs
    by (subst snapshot_loads) (simp_all add: pads zip_map_fst_snd)
  then have lv: "shadow_levels sh' sd = load (pad_levels (take ORDER_BOOK_MESSAGE_DEPTH (depth (orders b (sd = BUY))))) RBT.empty" for sd
    by (simp add: shadow_levels_def split: Side.split)
  have "shadow_volume_at sh' sd p = (case RBT.lookup (shadow_levels sh' sd) p of None \<Rightarrow> 0 | Some v \<Rightarrow> v)"
    by (simp add: shadow_volume_at_def shadow_levels_def)
  then show "shadow_volume_at sh' sd p = (if p \<in> listed b sd then volumes_of b sd p else 0)"
    by (simp add: lv load_depth [OF assms(1)])
  show "no_zeros (shadow_levels sh' sd)" by (simp add: lv no_zeros_load)
qed


section \<open>The feed\<close>

text \<open>What a subscriber does with a feed message: only level updates concern the copy.\<close>

fun on_feed :: "Payload \<Rightarrow> ShadowOrderBook \<Rightarrow> ShadowOrderBook" where
  "on_feed (PriceLevelUpdate u) sh = on_price_level_update sh u"
| "on_feed _ sh = sh"

lemma update_volume:
  "shadow_volume_at (on_price_level_update sh (make_price_level_update seq sd p v ts)) =
     (shadow_volume_at sh)(sd := (shadow_volume_at sh sd)(p := v))"
proof (intro ext)
  fix sd' q
  show "shadow_volume_at (on_price_level_update sh (make_price_level_update seq sd p v ts)) sd' q =
     ((shadow_volume_at sh)(sd := (shadow_volume_at sh sd)(p := v))) sd' q"
    by (cases sd; cases sd') (simp_all add: shadow_volume_at_def on_price_level_update_def
        make_price_level_update_def set_level_def Let_def)
qed

lemma shadow_feed:
  "shadow_volume_at (fold on_feed (feed_messages tid seq evs) sh) = feed evs (shadow_volume_at sh)"
proof (induction evs arbitrary: tid seq sh)
  case Nil
  then show ?case by (simp add: feed_def)
next
  case (Cons ev evs)
  then show ?case by (cases ev) (simp_all add: feed_def update_volume)
qed

lemma shadow_feed_no_zeros:
  assumes "\<And>sd. no_zeros (shadow_levels sh sd)"
  shows "no_zeros (shadow_levels (fold on_feed ps sh) sd)"
  using assms
proof (induction ps arbitrary: sh)
  case (Cons p ps)
  from Cons.prems [of BUY] Cons.prems [of SELL] have "no_zeros (sh_bids sh)" "no_zeros (sh_asks sh)"
    by (simp_all add: shadow_levels_def)
  then have "no_zeros (shadow_levels (on_feed p sh) sd)" for sd
    by (cases p) (simp_all add: on_price_level_update_def shadow_levels_def Let_def)
  with Cons show ?case by simp
qed simp

text \<open>Two views of the book agree wherever an update came or they agreed before.\<close>

lemma feed_agrees:
  "feed evs v sd p = feed evs w sd p \<or> (feed evs v sd p = v sd p \<and> feed evs w sd p = w sd p)"
proof (induction evs arbitrary: v w)
  case (Cons ev evs)
  have "feed_step v ev sd p = feed_step w ev sd p \<or> (feed_step v ev sd p = v sd p \<and> feed_step w ev sd p = w sd p)"
    by (cases ev) auto
  moreover have "feed (ev # evs) u = feed evs (feed_step u ev)" for u by (simp add: feed_def)
  ultimately show ?case using Cons.IH [of "feed_step v ev" "feed_step w ev"] by metis
qed (simp add: feed_def)

lemma copy_after_feed:
  fixes b :: OrderBook and sh :: ShadowOrderBook and seq tid seq' :: Id_t and evs :: "BookEvent list"
  assumes "good_book b" and "run b evs b'"
  defines "v \<equiv> shadow_volume_at (fold on_feed (feed_messages tid seq' evs) (on_order_book_snapshot sh (snapshot_of b seq)))"
  shows "v sd p = volumes_of b' sd p \<or> v sd p = 0 \<and> volumes_of b' sd p = volumes_of b sd p \<and> p \<notin> listed b sd"
    and "length (depth (orders b (sd = BUY))) \<le> ORDER_BOOK_MESSAGE_DEPTH \<Longrightarrow> v sd p = volumes_of b' sd p"
proof -
  let ?v = "shadow_volume_at (on_order_book_snapshot sh (snapshot_of b seq))"
  have v: "?v sd p = (if p \<in> listed b sd then volumes_of b sd p else 0)" by (rule snapshot_shadow(1) [OF assms(1)])
  have v': "v sd p = feed evs ?v sd p" by (simp add: v_def shadow_feed)
  have b': "volumes_of b' = feed evs (volumes_of b)" using run_wf [OF assms(2)] good_bookD [OF assms(1)] by simp
  have "p \<in> listed b sd" if "length (depth (orders b (sd = BUY))) \<le> ORDER_BOOK_MESSAGE_DEPTH" "volumes_of b sd p \<noteq> 0"
    using that good_volume_pos(2) [OF assms(1)] by (auto simp: listed_def depth_def image_image)
  then show "v sd p = volumes_of b' sd p \<or> v sd p = 0 \<and> volumes_of b' sd p = volumes_of b sd p \<and> p \<notin> listed b sd"
    "length (depth (orders b (sd = BUY))) \<le> ORDER_BOOK_MESSAGE_DEPTH \<Longrightarrow> v sd p = volumes_of b' sd p"
    using feed_agrees [of evs ?v sd p "volumes_of b"] unfolding v' b' v
    by (cases "volumes_of b sd p = 0"; cases "p \<in> listed b sd"; auto)+
qed

text \<open>
  C28: A subscriber's copy follows the exchange's book.  It loads the snapshot of a good book and
  then applies the feed of any run of requests from there.  At every price of both sides it then
  has the total of the exchange's book, except where it answers zero for a price that was not
  among the ten listed levels and has not changed since; so a copy of a side with at most ten
  levels at the time of the snapshot is exact from then on.
\<close>

theorem shadow_book_follows_the_exchange:
  fixes b b' :: OrderBook and sh :: ShadowOrderBook and seq tid seq' :: Id_t and evs :: "BookEvent list"
  assumes "good_book b" and "run b evs b'"
  defines "sh' \<equiv> fold on_feed (feed_messages tid seq' evs) (on_order_book_snapshot sh (snapshot_of b seq))"
  shows "(shadow_volume_at sh' sd p = volumes_of b' sd p \<or>
      shadow_volume_at sh' sd p = 0 \<and> volumes_of b' sd p = volumes_of b sd p \<and> p \<notin> listed b sd)
    \<and> (length (depth (orders b (sd = BUY))) \<le> ORDER_BOOK_MESSAGE_DEPTH \<longrightarrow>
        shadow_volume_at sh' sd p = volumes_of b' sd p)"
  unfolding sh'_def using copy_after_feed [OF assms(1,2)] by blast


theorem shadow_book_follows_the_exchange_witness:
  "\<exists>evs. run empty_book evs one_ask \<and>
     shadow_volume_at (fold on_feed (feed_messages 0 0 evs)
       (on_order_book_snapshot ShadowOrderBook_init (snapshot_of empty_book 0))) SELL 100 = 5"
proof -
  obtain evs where r: "run empty_book evs one_ask" using one_ask_run orderly_run_run by blast
  have "depth (orders empty_book d) = []" for d by (simp add: empty_book_good(4) depth_def)
  moreover have "volumes_of one_ask SELL 100 = 5"
    using good_volume_pos(1) [OF one_ask_good(2), of SELL 100] by (simp add: one_ask_good(3))
  ultimately show ?thesis
    using r shadow_book_follows_the_exchange [OF empty_book_good(1) r, of 0 0 ShadowOrderBook_init 0 SELL 100]
    by (intro exI [of _ evs]) simp
qed

section \<open>Quotes\<close>

lemma shadow_keys:
  assumes "no_zeros (shadow_levels sh sd)"
  shows "set (RBT.keys (shadow_levels sh sd)) = {p. shadow_volume_at sh sd p \<noteq> 0}"
proof -
  have "RBT.lookup (shadow_levels sh sd) p \<noteq> None \<longleftrightarrow> shadow_volume_at sh sd p \<noteq> 0" for p
    using assms by (auto simp: no_zeros_def shadow_volume_at_def shadow_levels_def split: option.split)
  then show ?thesis unfolding RBT.lookup_keys [symmetric] dom_def by simp
qed

lemma sorted_ends:
  fixes xs :: "'a::linorder list"
  assumes "sorted xs" and "y \<in> set xs"
  shows "(\<And>x. x \<in> set xs \<Longrightarrow> x \<le> y) \<Longrightarrow> last xs = y" "(\<And>x. x \<in> set xs \<Longrightarrow> y \<le> x) \<Longrightarrow> hd xs = y"
proof -
  have ne: "xs \<noteq> []" using assms(2) by auto
  show "last xs = y" if "\<And>x. x \<in> set xs \<Longrightarrow> x \<le> y"
  proof (rule antisym)
    show "last xs \<le> y" using that ne by simp
    obtain i where "i < length xs" "y = xs ! i" using assms(2) by (auto simp: in_set_conv_nth)
    then show "y \<le> last xs" using assms(1) ne by (simp add: last_conv_nth sorted_iff_nth_mono)
  qed
  show "hd xs = y" if "\<And>x. x \<in> set xs \<Longrightarrow> y \<le> x"
  proof (rule antisym)
    show "y \<le> hd xs" using that ne by simp
    show "hd xs \<le> y" using assms by (cases xs) auto
  qed
qed

lemma ranked_best:
  assumes "ranked d (r # rs)" and "r' \<in> set (r # rs)"
  shows "if d then r_price r' \<le> r_price r else r_price r \<le> r_price r'"
  using assms by (auto simp: ranked_def key_def sorted_wrt_map split: if_splits)

lemma exact_copy_quotes:
  assumes good: "good_book b" and nz: "\<And>sd. no_zeros (shadow_levels sh sd)"
    and exact: "\<And>sd p. shadow_volume_at sh sd p = volumes_of b sd p"
  shows "best_bid_price sh = (case orders b True of [] \<Rightarrow> None | r # _ \<Rightarrow> Some (r_price r))"
    and "best_ask_price sh = (case orders b False of [] \<Rightarrow> None | r # _ \<Rightarrow> Some (r_price r))"
proof -
  have keys: "set (RBT.keys (shadow_levels sh sd)) = r_price ` set (orders b (sd = BUY))" for sd
    using shadow_keys [OF nz] exact good_volume_pos(2) [OF good] by auto
  have empty: "RBT.is_empty (shadow_levels sh sd) \<longleftrightarrow> orders b (sd = BUY) = []" for sd
    using keys [of sd] by (metis RBT.is_empty_empty RBT.keys_empty_eq image_is_empty set_empty2 RBT.non_empty_keys set_empty)
  have rk: "ranked d (orders b d)" for d using good_bookD [OF good] by simp
  have lv: "shadow_levels sh BUY = sh_bids sh" "shadow_levels sh SELL = sh_asks sh" by (simp_all add: shadow_levels_def)
  show "best_bid_price sh = (case orders b True of [] \<Rightarrow> None | r # _ \<Rightarrow> Some (r_price r))"
  proof (cases "orders b True")
    case (Cons r rs)
    have "last (RBT.keys (sh_bids sh)) = r_price r"
      by (rule sorted_ends(1)) (use keys [of BUY] Cons rk [of True] ranked_best [of True r rs] in \<open>auto simp: lv\<close>)
    then show ?thesis using empty [of BUY] Cons by (simp add: best_bid_price_def lv)
  qed (use empty [of BUY] in \<open>simp add: best_bid_price_def lv\<close>)
  show "best_ask_price sh = (case orders b False of [] \<Rightarrow> None | r # _ \<Rightarrow> Some (r_price r))"
  proof (cases "orders b False")
    case (Cons r rs)
    have "hd (RBT.keys (sh_asks sh)) = r_price r"
      by (rule sorted_ends(2)) (use keys [of SELL] Cons rk [of False] ranked_best [of False r rs] in \<open>auto simp: lv\<close>)
    then show ?thesis using empty [of SELL] Cons by (simp add: best_ask_price_def lv)
  qed (use empty [of SELL] in \<open>simp add: best_ask_price_def lv\<close>)
qed

text \<open>
  The quotes a subscriber reads off its copy are those of the exchange.  After the snapshot of
  a good book with at most ten levels on each side and the feed of an orderly run, its best bid
  and ask are the prices of the orders first in line, the spread is positive and the mid price
  lies between them, at the bid or above it and below the ask.
\<close>

theorem shadow_quotes_are_the_exchange_quotes:
  fixes b b' :: OrderBook and sh :: ShadowOrderBook and seq tid seq' :: Id_t and evs :: "BookEvent list"
  assumes "good_book b" and "orderly_run b evs b'"
    and "\<And>d. length (depth (orders b d)) \<le> ORDER_BOOK_MESSAGE_DEPTH"
  defines "sh' \<equiv> fold on_feed (feed_messages tid seq' evs) (on_order_book_snapshot sh (snapshot_of b seq))"
  shows "best_bid_price sh' = (case orders b' True of [] \<Rightarrow> None | r # _ \<Rightarrow> Some (r_price r))
    \<and> best_ask_price sh' = (case orders b' False of [] \<Rightarrow> None | r # _ \<Rightarrow> Some (r_price r))
    \<and> (\<forall>bid ask. best_bid_price sh' = Some bid \<and> best_ask_price sh' = Some ask \<longrightarrow>
        spread sh' = Some (ask - bid) \<and> 0 < ask - bid \<and>
        (\<exists>m. mid_price sh' = Some m \<and> bid \<le> m \<and> m < ask))"
proof -
  have good: "good_book b'" using orderly_run_good assms(1,2) by blast
  have exact: "shadow_volume_at sh' sd p = volumes_of b' sd p" for sd p
    unfolding sh'_def using assms(3) by (intro copy_after_feed(2) [OF assms(1) orderly_run_run [OF assms(2)]])
  have nz: "no_zeros (shadow_levels sh' sd)" for sd
    unfolding sh'_def by (intro shadow_feed_no_zeros snapshot_shadow(2) assms(1))
  note q = exact_copy_quotes [OF good nz exact]
  have "spread sh' = Some (ask - bid) \<and> 0 < ask - bid \<and> (\<exists>m. mid_price sh' = Some m \<and> bid \<le> m \<and> m < ask)"
    if b: "best_bid_price sh' = Some bid" and a: "best_ask_price sh' = Some ask" for bid ask
  proof -
    obtain r rs where r: "orders b' True = r # rs" "bid = r_price r" using b q(1) by (auto split: list.splits)
    obtain s ss where s: "orders b' False = s # ss" "ask = r_price s" using a q(2) by (auto split: list.splits)
    have "bid < ask" using good_bookD [OF good] r s by (auto simp: uncrossed_def)
    moreover have "volumes_of b' BUY bid \<noteq> 0" using good_volume_pos(2) [OF good, of BUY bid] r by simp
    then have "0 < bid" by (auto simp: volumes_of_def totals_def price_ok_def MINIMUM_BID_def split: if_splits)
    ultimately show ?thesis using a b by (auto simp: spread_def mid_price_def signed_divide_int_def)
  qed
  with q show ?thesis by blast
qed


theorem shadow_quotes_are_the_exchange_quotes_witness:
  "\<exists>evs. orderly_run empty_book evs one_ask \<and>
     best_ask_price (fold on_feed (feed_messages 0 0 evs)
       (on_order_book_snapshot ShadowOrderBook_init (snapshot_of empty_book 0))) = Some 100"
proof -
  obtain evs where r: "orderly_run empty_book evs one_ask" using one_ask_run by blast
  have "depth (orders empty_book d) = []" for d by (simp add: empty_book_good(4) depth_def)
  then show ?thesis
    using r shadow_quotes_are_the_exchange_quotes [OF empty_book_good(1) r, of 0 0 ShadowOrderBook_init 0]
    by (auto simp: one_ask_good(3) intro!: exI [of _ evs])
qed

end
