(* ===== verification/Rng.thy ===== *)
theory Rng
  imports Complex_Main "HOL-Library.Word"
begin

text \<open>
  The random source of the market simulator as its users see it (apps/market_simulator/rng.hpp):
  the abstract class \<open>RNG\<close>, and the approximations of the normal distribution that the draws go
  through.  A \<open>double\<close> is a real number here, so rounding is not modelled.

  The class has virtual methods only; an object is a record of functions on the generator's state,
  and the locale \<open>random_source\<close> is what callers rely on.
\<close>

section \<open>The normal distribution\<close>

definition normal_density :: "real \<Rightarrow> real" where
  "normal_density x = (if x < -10 \<or> 10 < x then 0 else exp (-0.5 * x * x) / 2.506628274631)"

function normal_cdf :: "real \<Rightarrow> real" where
  "normal_cdf x =
    (if x < -10 then 0
     else if x > 10 then 1
     else if x < 0 then 1 - normal_cdf (- x)
     else let p = 0.2316419; b1 = 0.319381530; b2 = -0.356563782; b3 = 1.781477937;
              b4 = -1.821255978; b5 = 1.330274429;
              t = 1 / (1 + p * x);
              pol = t * (b1 + t * (b2 + t * (b3 + t * (b4 + t * b5))));
              pdf = normal_density x
          in 1 - pdf * pol)"
  by auto
termination by (relation "measure (\<lambda>x. if x < 0 then 1 else 0)") auto

declare normal_cdf.simps [simp del]

definition central_quantile :: "real \<Rightarrow> real" where
  "central_quantile x =
    (let a0 = 2.50662823884; a1 = -18.61500062529; a2 = 41.39119773534; a3 = -25.44106049637;
         b0 = -8.47351093090; b1 = 23.08336743743; b2 = -21.06224101826; b3 = 3.13082909833;
         r = x * x
     in x * (((a3 * r + a2) * r + a1) * r + a0) / ((((b3 * r + b2) * r + b1) * r + b0) * r + 1))"

definition tail_quantile :: "real \<Rightarrow> real" where
  "tail_quantile r =
    (let c0 = 0.3374754822726147; c1 = 0.9761690190917186; c2 = 0.1607979714918209;
         c3 = 0.0276438810333863; c4 = 0.0038405729373609; c5 = 0.0003951896511919;
         c6 = 0.0000321767881768; c7 = 0.0000002888167364; c8 = 0.0000003960315187
     in c0 + r * (c1 + r * (c2 + r * (c3 + r * (c4 + r * (c5 + r * (c6 + r * (c7 + r * c8))))))))"

definition inverse_normal_cdf :: "real \<Rightarrow> real" where
  "inverse_normal_cdf p =
    (let sup = p > 0.5;
         up = (if sup then 1 - p else p);
         x = up - 0.5
     in if \<bar>x\<bar> < 0.42 then (let r = central_quantile x in if sup then - r else r)
        else (let r = tail_quantile (ln (- ln up)) in if sup then r else - r))"

section \<open>The interface\<close>

record 'g RNG =
  rng_uniform :: "'g \<Rightarrow> real \<times> 'g"
  rng_normal :: "'g \<Rightarrow> real \<times> 'g"
  rng_exponential :: "real \<Rightarrow> 'g \<Rightarrow> real \<times> 'g"
  rng_bernoulli :: "real \<Rightarrow> 'g \<Rightarrow> bool \<times> 'g"
  rng_poisson :: "real \<Rightarrow> 'g \<Rightarrow> 32 word \<times> 'g"
  rng_categorical :: "real list \<Rightarrow> 'g \<Rightarrow> nat \<times> 'g"

locale random_source =
  fixes rng :: "'g RNG"
  assumes uniform_range: "0 < fst (rng_uniform rng g)" "fst (rng_uniform rng g) < 1"
    and normal_range: "\<bar>fst (rng_normal rng g)\<bar> \<le> 8"
    and exponential_range: "0 < rate \<Longrightarrow> 0 \<le> fst (rng_exponential rng rate g)"

section \<open>The quantiles\<close>

lemma square_positive:
  fixes a b c r :: real
  assumes "0 < a" "b * b < 4 * a * c"
  shows "0 < a * r\<^sup>2 - b * r + c"
proof -
  have "4 * a * (a * r\<^sup>2 - b * r + c) = (2 * a * r - b)\<^sup>2 + (4 * a * c - b * b)"
    by (simp add: power2_eq_square algebra_simps)
  also have "0 < (2 * a * r - b)\<^sup>2 + (4 * a * c - b * b)"
    using assms by (intro add_nonneg_pos) auto
  finally show ?thesis using assms by (simp add: zero_less_mult_iff)
qed

lemma cube_le:
  fixes r :: real
  assumes "0 \<le> r" "r \<le> 0.1764"
  shows "r ^ 3 \<le> 0.1764 * r\<^sup>2"
  using mult_right_mono [OF assms(2), of "r\<^sup>2"] by (simp add: power3_eq_cube power2_eq_square algebra_simps)

text \<open>Numerator and denominator of the central quantile as polynomials; \<open>s\<close>, \<open>t\<close> and \<open>q\<close> are the powers of \<open>r\<close>.\<close>

lemma central_polynomials:
  fixes r :: real
  assumes "0 \<le> r" "r \<le> 0.1764"
  defines "N \<equiv> ((-25.44106049637 * r + 41.39119773534) * r + -18.61500062529) * r + 2.50662823884"
    and "D \<equiv> (((3.13082909833 * r + -21.06224101826) * r + 23.08336743743) * r + -8.47351093090) * r + 1"
  shows "0 < D" "0 \<le> N" "N \<le> 4 * D"
proof -
  define s t q where "s = r\<^sup>2" and "t = r ^ 3" and "q = r ^ 4"
  have pos: "0 \<le> s" "0 \<le> q" "t \<le> 0.1764 * s"
    using cube_le [OF assms(1,2)] by (simp_all add: s_def t_def q_def)
  have N: "N = - 25.44106049637 * t + 41.39119773534 * s - 18.61500062529 * r + 2.50662823884"
    by (simp add: N_def s_def t_def power3_eq_cube power2_eq_square algebra_simps)
  have D: "D = 3.13082909833 * q - 21.06224101826 * t + 23.08336743743 * s - 8.47351093090 * r + 1"
    by (simp add: D_def s_def t_def q_def power4_eq_xxxx power3_eq_cube power2_eq_square algebra_simps)
  have "0 < 19.36 * s - 8.47351093090 * r + 1" unfolding s_def by (rule square_positive) simp_all
  then show "0 < D" using pos unfolding D by simp
  have "0 < 36.9 * s - 18.61500062529 * r + 2.50662823884" unfolding s_def by (rule square_positive) simp_all
  then show "0 \<le> N" using pos unfolding N by simp
  have "0 < 40.56 * s - 15.27904309831 * r + 1.49337176116" unfolding s_def by (rule square_positive) simp_all
  then show "N \<le> 4 * D" using pos unfolding N D by simp
qed

lemma central_quantile_bound:
  assumes "\<bar>x\<bar> < 0.42"
  shows "\<bar>central_quantile x\<bar> \<le> 1.68"
proof -
  define r where "r = x * x"
  define N where "N = ((-25.44106049637 * r + 41.39119773534) * r + -18.61500062529) * r + 2.50662823884"
  define D where "D = (((3.13082909833 * r + -21.06224101826) * r + 23.08336743743) * r + -8.47351093090) * r + 1"
  have r: "0 \<le> r" "r \<le> 0.1764"
    using assms mult_mono [of "\<bar>x\<bar>" "0.42" "\<bar>x\<bar>" "0.42"] by (simp_all add: r_def)
  have D0: "0 < D" and N: "0 \<le> N" "N \<le> 4 * D"
    using central_polynomials [OF r] by (simp_all add: N_def D_def)
  have "\<bar>central_quantile x\<bar> = \<bar>x\<bar> * (N / D)"
    using D0 N by (simp add: central_quantile_def Let_def r_def N_def D_def abs_mult)
  also have "\<dots> \<le> 0.42 * 4" using assms D0 N by (intro mult_mono) (simp_all add: divide_le_eq)
  finally show ?thesis by simp
qed

lemma ln_2_bound: "ln 2 \<le> (0.7 :: real)"
proof -
  have "(2 :: real) \<le> (1 + 0.7 / 3 + (0.7 / 3)\<^sup>2 / 2) ^ 3" by (simp add: power2_eq_square power3_eq_cube)
  also have "\<dots> \<le> exp (0.7 / 3) ^ 3" by (intro power_mono exp_lower_Taylor_quadratic) simp_all
  also have "\<dots> = exp 0.7" by (simp flip: exp_of_nat_mult)
  finally show ?thesis using ln_mono [of 2 "exp 0.7"] by simp
qed

lemma tail_quantile_bound:
  assumes "0 \<le> r" "r \<le> 3.5"
  shows "0 \<le> tail_quantile r \<and> tail_quantile r \<le> 8"
proof -
  have step: "0 \<le> c + r * y \<and> c + r * y \<le> c + 3.5 * d" if "0 \<le> c" "0 \<le> y \<and> y \<le> d" for c y d :: real
    using assms that mult_mono [of r "3.5" y d] by simp
  have "0 \<le> tail_quantile r \<and> tail_quantile r \<le> 0.3374754822726147 + 3.5 * (0.9761690190917186 +
    3.5 * (0.1607979714918209 + 3.5 * (0.0276438810333863 + 3.5 * (0.0038405729373609 + 3.5 * (0.0003951896511919
    + 3.5 * (0.0000321767881768 + 3.5 * (0.0000002888167364 + 3.5 * 0.0000003960315187)))))))"
    unfolding tail_quantile_def Let_def by (intro step) simp_all
  then show ?thesis by simp
qed

text \<open>The range of a draw: the smallest uniform draw is 2 to the power of -33.\<close>

lemma inverse_normal_cdf_bound:
  assumes "1 / 2 ^ 33 \<le> p" "p \<le> 1 - 1 / 2 ^ 33"
  shows "\<bar>inverse_normal_cdf p\<bar> \<le> 8"
proof -
  define up where "up = (if p > 0.5 then 1 - p else p)"
  have up: "1 / 2 ^ 33 \<le> up" "up \<le> 0.5" using assms by (auto simp: up_def)
  show ?thesis
  proof (cases "\<bar>up - 0.5\<bar> < 0.42")
    case True
    then show ?thesis using central_quantile_bound [OF True]
      by (auto simp: inverse_normal_cdf_def Let_def up_def split: if_splits)
  next
    case False
    have pos: "0 < up" by (rule less_le_trans [OF _ up(1)]) simp
    have small: "up \<le> 0.08" using False up by (auto simp: abs_if split: if_splits)
    have "exp 1 * up \<le> 3 * 0.08" using exp_le small pos by (intro mult_mono) auto
    then have "up \<le> 1 / exp 1" by (simp add: le_divide_eq mult.commute)
    then have hi: "ln up \<le> - 1" using ln_mono [of up "1 / exp 1"] pos by (simp add: ln_div)
    have "ln (1 / 2 ^ 33) \<le> ln up" using up(1) pos by (subst ln_le_cancel_iff) simp_all
    then have lo: "- ln up \<le> 32" using ln_2_bound ln_realpow [of 2 33] by (simp add: ln_div)
    have "ln (- ln up) \<le> ln 32" using hi lo by (subst ln_le_cancel_iff) simp_all
    also have "ln 32 \<le> (3.5 :: real)" using ln_2_bound ln_realpow [of 2 5] by simp
    finally have "0 \<le> ln (- ln up)" "ln (- ln up) \<le> 3.5" using hi by simp_all
    from tail_quantile_bound [OF this] show ?thesis
      using False by (auto simp: inverse_normal_cdf_def Let_def up_def split: if_splits)
  qed
qed

text \<open>The approximation is odd about one half.\<close>

lemma inverse_normal_cdf_sym:
  assumes "p \<noteq> 0.5"
  shows "inverse_normal_cdf (1 - p) = - inverse_normal_cdf p"
  using assms by (auto simp: inverse_normal_cdf_def Let_def)

lemma normal_cdf_sym:
  assumes "x \<noteq> 0"
  shows "normal_cdf (- x) = 1 - normal_cdf x"
proof -
  have half: "normal_cdf (- y) = 1 - normal_cdf y" if "0 < y" for y :: real
    using that by (subst normal_cdf.simps) (auto simp: normal_cdf.simps [of y])
  show ?thesis using half [of x] half [of "- x"] assms by (cases "0 < x") auto
qed

end
