(* ===== verification/Pcg32.thy ===== *)
theory Pcg32
  imports Rng Prelude
begin

text \<open>
  The random number generator of the market simulator (apps/market_simulator/pcg32.hpp): a
  64-bit linear congruential generator whose output is a rotated xor-shift of the state.  The
  generator runs through all states before it repeats one, and in a period gives every 32-bit
  value equally often.

  A \<open>uniform\<close> draw is half an odd number divided by a power of two and has 33 significant bits,
  so the \<open>double\<close> holds it exactly and a real number models it without rounding.  The draws that
  go through logarithms are rounded in the code and exact here.  \<open>std::poisson_distribution\<close> leaves
  its algorithm to the implementation of the standard library and is an argument; \<open>uniform_int\<close>,
  which nothing calls, is left out.
\<close>

section \<open>The generator\<close>

record pcg32 =
  pcg_state :: "64 word"
  pcg_inc :: "64 word"

definition multiplier :: "64 word" where
  "multiplier = 6364136223846793005"

definition next_uint :: "pcg32 \<Rightarrow> 32 word \<times> pcg32" where
  "next_uint g =
    (let oldstate = pcg_state g;
         g' = g\<lparr>pcg_state := oldstate * multiplier + pcg_inc g\<rparr>;
         xorshifted = ucast (drop_bit 27 (xor (drop_bit 18 oldstate) oldstate)) :: 32 word;
         rot = ucast (drop_bit 59 oldstate) :: 32 word
     in (or (drop_bit (unat rot) xorshifted) (push_bit (unat (and (- rot) 31)) xorshifted), g'))"

definition seed_rng :: "64 word \<Rightarrow> 64 word \<Rightarrow> pcg32" where
  "seed_rng seed stream =
    (let g = \<lparr>pcg_state = 0, pcg_inc = or (push_bit 1 stream) 1\<rparr>;
         g1 = snd (next_uint g);
         g2 = g1\<lparr>pcg_state := pcg_state g1 + seed\<rparr>
     in snd (next_uint g2))"

definition uniform :: "pcg32 \<Rightarrow> real \<times> pcg32" where
  "uniform g = (let (u, g') = next_uint g in ((real (unat u) + 1 / 2) * (1 / 4294967296), g'))"

section \<open>Draws\<close>

definition bernoulli :: "pcg32 \<Rightarrow> real \<Rightarrow> bool \<times> pcg32" where
  "bernoulli g p = (let (u, g') = uniform g in (u > 1 / 2, g'))"

fun first_above :: "real \<Rightarrow> real list \<Rightarrow> nat" where
  "first_above u [] = 0"
| "first_above u (p # ps) = (if u < p then 0 else Suc (first_above u ps))"

definition categorical :: "pcg32 \<Rightarrow> real list \<Rightarrow> nat \<times> pcg32" where
  "categorical g cumulative_probs =
    (let (u, g') = uniform g;
         i = first_above u cumulative_probs
     in (if i < length cumulative_probs then i else length cumulative_probs - 1, g'))"

definition standard_normal :: "pcg32 \<Rightarrow> real \<times> pcg32" where
  "standard_normal g = (let (p, g') = uniform g in (inverse_normal_cdf p, g'))"

definition exponential :: "pcg32 \<Rightarrow> real \<Rightarrow> real \<times> pcg32" where
  "exponential g rate = (let (p, g') = uniform g in (- ln (1 - p) / rate, g'))"

text \<open>The loop of \<open>normal_vector\<close> assigns to copies of the elements.\<close>

definition normal_vector :: "pcg32 \<Rightarrow> real list \<Rightarrow> real list \<times> pcg32" where
  "normal_vector g out = fold (\<lambda>x (out, g). let (x', g') = standard_normal g in (out, g')) out (out, g)"

definition PCGRNG :: "(real \<Rightarrow> pcg32 \<Rightarrow> 32 word \<times> pcg32) \<Rightarrow> pcg32 RNG" where
  "PCGRNG poisson =
    \<lparr>rng_uniform = uniform, rng_normal = standard_normal, rng_exponential = (\<lambda>rate g. exponential g rate),
     rng_bernoulli = (\<lambda>p g. bernoulli g p), rng_poisson = poisson, rng_categorical = (\<lambda>ps g. categorical g ps)\<rparr>"

section \<open>The output as a rotation of the shifted state\<close>

abbreviation advance :: "pcg32 \<Rightarrow> pcg32" where
  "advance g \<equiv> snd (next_uint g)"

definition scrambled :: "64 word \<Rightarrow> 32 word" where
  "scrambled s = ucast (drop_bit 27 (xor (drop_bit 18 s) s))"

definition pcg_output :: "64 word \<Rightarrow> 32 word" where
  "pcg_output s = word_rotr (unat (drop_bit 59 s)) (scrambled s)"

lemma rotation_count: "unat (drop_bit 59 (s :: 64 word)) < 32"
proof -
  have "unat (drop_bit 59 s) = unat s div 2 ^ 59" by (simp add: drop_bit_eq_div unat_div)
  moreover have "unat s < 32 * 2 ^ 59" using unat_less_2p [of s] by simp
  ultimately show ?thesis by (simp add: less_mult_imp_div_less)
qed

lemma neg_and_31:
  fixes r :: "32 word"
  assumes "unat r < 32"
  shows "unat (and (- r) 31) = (32 - unat r) mod 32"
proof -
  have "and (- r) 31 = take_bit 5 (- r)"
    by (simp add: take_bit_eq_mask mask_eq_exp_minus_1)
  then have "unat (and (- r) 31) = unat (- r) mod 32"
    by (simp add: take_bit_eq_mod unat_mod)
  also have "unat (- r) mod 32 = (32 - unat r) mod 32"
  proof (cases "r = 0")
    case False
    then have "0 < unat r" by (simp add: unat_gt_0)
    then have "unat (0 - r) = 32 - unat r + 32 * (2 ^ 27 - 1)"
      using assms by (simp only: unat_sub_if') simp
    then show ?thesis by (simp only: diff_0 mod_mult_self2)
  qed simp
  finally show ?thesis .
qed

lemma rotr_shifts:
  assumes "r < 32"
  shows "or (drop_bit r x) (push_bit ((32 - r) mod 32) x) = word_rotr r (x :: 32 word)"
proof (rule bit_word_eqI)
  fix n assume n: "n < LENGTH(32)"
  show "bit (or (drop_bit r x) (push_bit ((32 - r) mod 32) x)) n = bit (word_rotr r x) n"
  proof (cases "r = 0")
    case True
    then show ?thesis using n by (simp add: bit_simps)
  next
    case False
    then have m: "(32 - r) mod 32 = 32 - r" using assms by simp
    show ?thesis
    proof (cases "n + r < 32")
      case True
      moreover have "\<not> 32 - r \<le> n" using True assms by simp
      ultimately show ?thesis using n by (simp add: bit_simps m add.commute)
    next
      case out: False
      then have "(n + r) mod 32 = n - (32 - r)" using n assms by (simp add: mod_if)
      moreover have "\<not> bit x (r + n)" using out by (intro notI) (drule bit_imp_le_length, simp)
      ultimately show ?thesis using out n assms False by (auto simp: bit_simps m)
    qed
  qed
qed

lemma next_uint_eq:
  "next_uint g = (pcg_output (pcg_state g), g\<lparr>pcg_state := pcg_state g * multiplier + pcg_inc g\<rparr>)"
proof -
  let ?w = "drop_bit 59 (pcg_state g)"
  have rot: "unat (ucast ?w :: 32 word) = unat ?w"
    using rotation_count [of "pcg_state g"] by (simp only: unsigned_ucast_eq) (simp add: take_bit_nat_eq_self)
  then show ?thesis
    using rotation_count [of "pcg_state g"]
    by (simp add: next_uint_def Let_def neg_and_31 rotr_shifts pcg_output_def scrambled_def)
qed


section \<open>The period\<close>

definition geometric :: "nat \<Rightarrow> nat \<Rightarrow> nat" where
  "geometric a n = (\<Sum>i<n. a ^ i)"

lemma geometric_add: "geometric a (m + n) = geometric a m + a ^ m * geometric a n"
  by (induction n) (simp_all add: geometric_def power_add algebra_simps)

lemma geometric_double: "geometric a (m + m) = geometric a m * (1 + a ^ m)"
  by (simp add: geometric_add algebra_simps)

lemma power_mod_4: "a mod 4 = 1 \<Longrightarrow> a ^ m mod 4 = (1 :: nat)"
proof (induction m)
  case (Suc m)
  have "a ^ Suc m mod 4 = (a mod 4) * (a ^ m mod 4) mod 4" by (simp add: mod_mult_eq)
  with Suc show ?case by simp
qed simp

text \<open>A geometric sum with ratio one modulo four has as many factors two as its length.\<close>

lemma geometric_two_power:
  assumes a: "a mod 4 = 1"
  shows "2 ^ k dvd geometric a n \<longleftrightarrow> 2 ^ k dvd n"
proof (induction n arbitrary: k rule: less_induct)
  case (less n)
  have odd_a: "odd a" using a by presburger
  consider "n = 0" | (odd) "odd n" | (even) m where "n = m + m" "m < n" by (metis evenE gr0I mult_2 less_add_same_cancel1 even_zero mult_0_right)
  then show ?case
  proof cases
    case odd
    have "odd (geometric a n) \<longleftrightarrow> odd n"
      by (induction n) (auto simp: geometric_def odd_a)
    with odd show ?thesis by (cases k) (auto dest: dvd_trans [of 2, OF dvd_triv_left])
  next
    case even
    have half: "1 + x = 2 * ((1 + x) div 2) \<and> odd ((1 + x) div 2)" if "x mod 4 = 1" for x :: nat
      using that by presburger
    obtain h where h: "1 + a ^ m = 2 * h" "odd h" using half [OF power_mod_4 [OF a, of m]] by blast
    show ?thesis
    proof (cases k)
      case (Suc j)
      have "geometric a n = 2 * (geometric a m * h)" by (simp only: even(1) geometric_double h(1) ac_simps)
      then have "2 ^ k dvd geometric a n \<longleftrightarrow> 2 * 2 ^ j dvd 2 * (geometric a m * h)" by (simp add: Suc)
      also have "\<dots> \<longleftrightarrow> 2 ^ j dvd geometric a m * h" by simp
      also have "\<dots> \<longleftrightarrow> 2 ^ j dvd geometric a m"
        using h(2) by (simp add: coprime_dvd_mult_left_iff)
      also have "\<dots> \<longleftrightarrow> 2 ^ j dvd m" by (rule less.IH) (rule even)
      also have "\<dots> \<longleftrightarrow> 2 ^ k dvd n" by (simp add: even Suc mult_2 [symmetric])
      finally show ?thesis .
    qed simp
  qed (simp add: geometric_def)
qed


text \<open>The state after some calls, in closed form.\<close>

lemma state_after:
  fixes s c :: "64 word"
  defines "f \<equiv> \<lambda>s. s * multiplier + c"
  shows "(f ^^ n) s = s + (s * (multiplier - 1) + c) * of_nat (geometric (unat multiplier) n)"
proof (induction n)
  case (Suc n)
  let ?S = "of_nat (geometric (unat multiplier) n) :: 64 word"
  have "of_nat (geometric (unat multiplier) (Suc n)) = 1 + multiplier * ?S"
  proof -
    have "geometric a (Suc n) = 1 + a * geometric a n" for a
      unfolding geometric_def by (simp only: sum.lessThan_Suc_shift sum_distrib_left power_Suc power_0)
    then show ?thesis by simp
  qed
  moreover have "(f ^^ Suc n) s = (s + (s * (multiplier - 1) + c) * ?S) * multiplier + c"
    using Suc by (simp add: f_def)
  ultimately show ?case by (simp add: algebra_simps)
qed (simp add: geometric_def)

lemma odd_unat: "odd (unat w) \<longleftrightarrow> odd (w :: 'a::len word)"
  by (simp add: bit_0 [symmetric] bit_unsigned_iff del: bit_0)

lemma odd_word_times:
  fixes w :: "64 word"
  assumes "odd w"
  shows "w * of_nat n = 0 \<longleftrightarrow> 2 ^ 64 dvd n"
proof -
  have "w * of_nat n = of_nat (unat w * n)" by simp
  also have "\<dots> = 0 \<longleftrightarrow> 2 ^ 64 dvd unat w * n" by (simp only: word_of_nat_eq_0_iff) simp
  also have "\<dots> \<longleftrightarrow> 2 ^ 64 dvd n"
    using assms by (intro coprime_dvd_mult_right_iff) (simp only: coprime_power_left_iff coprime_left_2_iff_odd odd_unat, simp)
  finally show ?thesis .
qed

lemma state_returns:
  fixes s c :: "64 word"
  assumes "odd c"
  shows "((\<lambda>s. s * multiplier + c) ^^ n) s = s \<longleftrightarrow> 2 ^ 64 dvd n"
proof -
  have m: "unat multiplier mod 4 = 1" "even (multiplier - 1)" by (simp_all add: multiplier_def)
  have "odd (s * (multiplier - 1) + c)" using assms m(2) by simp
  note odd = odd_word_times [OF this]
  show ?thesis by (simp only: state_after add_cancel_left_right odd geometric_two_power [OF m(1)])
qed


text \<open>All states occur in a period.\<close>

lemma states_of_a_period:
  fixes s c :: "64 word"
  assumes "odd c"
  shows "bij_betw (\<lambda>n. ((\<lambda>s. s * multiplier + c) ^^ n) s) {..<2 ^ 64} UNIV"
proof -
  let ?f = "\<lambda>s. s * multiplier + c"
  have apart: "(?f ^^ m) s \<noteq> (?f ^^ n) s" if "m < n" "n < 2 ^ 64" for m n
  proof -
    have n: "n = n - m + m" using that(1) by simp
    have "(?f ^^ n) s = (?f ^^ (n - m)) ((?f ^^ m) s)" by (subst n) (simp only: funpow_add o_apply)
    moreover have "\<not> 2 ^ 64 dvd n - m" using that by (intro nat_dvd_not_less) auto
    ultimately show ?thesis using state_returns [OF assms, of "n - m" "(?f ^^ m) s"] by simp
  qed
  have inj: "inj_on (\<lambda>n. (?f ^^ n) s) {..<2 ^ 64}"
  proof (rule inj_onI)
    fix m n :: nat
    assume "m \<in> {..<2 ^ 64}" "n \<in> {..<2 ^ 64}" and eq: "(?f ^^ m) s = (?f ^^ n) s"
    then have "m < 2 ^ 64" "n < 2 ^ 64" by (simp_all only: lessThan_iff)
    then show "m = n" using apart [of m n] apart [of n m] eq by (metis linorder_neqE_nat)
  qed
  have "card ((\<lambda>n. (?f ^^ n) s) ` {..<2 ^ 64}) = 2 ^ 64" by (simp only: card_image [OF inj] card_lessThan)
  then have "(\<lambda>n. (?f ^^ n) s) ` {..<2 ^ 64} = UNIV"
    by (intro card_subset_eq) (simp_all add: card_word)
  with inj show ?thesis by (simp only: bij_betw_def)
qed

section \<open>Every output equally often\<close>

text \<open>A state is determined by its output, its 27 low bits and its five high bits.\<close>

lemma bit_scrambled: "n < 32 \<Longrightarrow> bit (scrambled s) n \<longleftrightarrow> bit s (n + 45) \<noteq> bit s (n + 27)"
  by (auto simp: scrambled_def bit_simps ac_simps)

lemma scrambled_determines:
  assumes sc: "scrambled s = scrambled t" and low: "\<And>n. n < 27 \<Longrightarrow> bit s n = bit t n"
    and high: "\<And>n. 59 \<le> n \<Longrightarrow> bit s n = bit t n"
  shows "s = t"
proof -
  have "bit s (63 - k) = bit t (63 - k)" for k
  proof (induction k rule: less_induct)
    case (less k)
    consider "63 - k < 27" | "59 \<le> 63 - k" | (mid) "27 \<le> 63 - k" "63 - k < 59" by linarith
    then show ?case
    proof cases
      case mid
      define n where "n = 63 - k - 27"
      have n: "n < 32" "63 - k = n + 27" using mid by (auto simp: n_def)
      have "bit s (n + 45) = bit t (n + 45)"
      proof (cases "n + 45 \<le> 63")
        case True
        then have "n + 45 = 63 - (k - 18)" "k - 18 < k" using mid by (auto simp: n_def)
        then show ?thesis using less.IH by metis
      next
        case False
        then show ?thesis by (intro high) simp
      qed
      then show ?thesis using bit_scrambled [OF n(1), of s] bit_scrambled [OF n(1), of t] sc n(2) by metis
    qed (use low high in blast)+
  qed
  note down = this
  have "bit s n = bit t n" if "n < 64" for n using down [of "63 - n"] that by simp
  then show ?thesis by (intro bit_word_eqI) simp
qed

lemma output_fibre_inj:
  "inj_on (\<lambda>s. (unat (take_bit 27 s), unat (drop_bit 59 s))) {s. pcg_output s = u}"
proof (rule inj_onI)
  fix s t :: "64 word"
  assume "s \<in> {s. pcg_output s = u}" "t \<in> {s. pcg_output s = u}"
    and "(unat (take_bit 27 s), unat (drop_bit 59 s)) = (unat (take_bit 27 t), unat (drop_bit 59 t))"
  then have eq: "pcg_output s = pcg_output t" "take_bit 27 s = take_bit 27 t" "drop_bit 59 s = drop_bit 59 t"
    by (simp_all only: mem_Collect_eq prod.inject word_unat_eq_iff [symmetric])
  show "s = t"
  proof (rule scrambled_determines)
    have "word_rotl k (word_rotr k w) = w" for k and w :: "32 word" by simp
    then show "scrambled s = scrambled t" using eq(1,3) unfolding pcg_output_def by metis
    show "bit s n = bit t n" if "n < 27" for n using arg_cong [OF eq(2), of "\<lambda>w. bit w n"] that by (simp add: bit_simps)
    show "bit s n = bit t n" if "59 \<le> n" for n
      using arg_cong [OF eq(3), of "\<lambda>w. bit w (n - 59)"] that by (simp add: bit_simps)
  qed
qed

lemma card_output_fibre: "card {s. pcg_output s = u} = 2 ^ 32"
proof -
  have le: "card {s. pcg_output s = v} \<le> 2 ^ 32" for v
  proof -
    have "unat (take_bit 27 s) < 2 ^ 27" for s :: "64 word"
      by (simp add: take_bit_eq_mod unat_mod)
    then have "(\<lambda>s. (unat (take_bit 27 s), unat (drop_bit 59 s))) ` {s. pcg_output s = v} \<subseteq> {..<2 ^ 27} \<times> {..<32}"
      using rotation_count by auto
    then have "card {s. pcg_output s = v} \<le> card ({..<2 ^ 27 :: nat} \<times> {..<32 :: nat})"
      by (intro card_inj_on_le [OF output_fibre_inj]) simp_all
    then show ?thesis by (simp add: card_cartesian_product)
  qed
  have "(\<Sum>v\<in>UNIV. card {s. pcg_output s = v}) = card (\<Union>v. {s. pcg_output s = v})"
    by (subst card_UN_disjoint) auto
  also have "(\<Union>v. {s. pcg_output s = v}) = UNIV" by auto
  also have "card (UNIV :: 64 word set) = (\<Sum>v\<in>(UNIV :: 32 word set). 2 ^ 32)" by (simp add: card_word)
  finally show ?thesis by (rule sum_mono_inv) (use le in auto)
qed


section \<open>Properties\<close>

lemma advance_iterated:
  "pcg_state ((advance ^^ n) g) = ((\<lambda>s. s * multiplier + pcg_inc g) ^^ n) (pcg_state g) \<and>
   pcg_inc ((advance ^^ n) g) = pcg_inc g"
  by (induction n) (simp_all add: next_uint_eq)

lemma seed_rng_inc: "odd (pcg_inc (seed_rng seed stream))"
  by (simp add: seed_rng_def Let_def next_uint_eq bit_0 [symmetric] bit_simps del: bit_0)

text \<open>
  C29: A seeded generator has the full period: its first \<open>2 ^ 64\<close> states are all the 64-bit words,
  each once, and the next state is the first one again; and among the outputs of a period every
  32-bit value occurs exactly \<open>2 ^ 32\<close> times.  This holds for every seed and every stream.
\<close>

theorem generator_has_full_period:
  fixes seed stream :: "64 word"
  defines "g \<equiv> seed_rng seed stream"
  shows "bij_betw (\<lambda>n. pcg_state ((advance ^^ n) g)) {..<2 ^ 64} UNIV
    \<and> (advance ^^ (2 ^ 64)) g = g
    \<and> (\<forall>u. card {n. n < 2 ^ 64 \<and> fst (next_uint ((advance ^^ n) g)) = u} = 2 ^ 32)"
proof (intro conjI allI)
  have odd: "odd (pcg_inc g)" unfolding g_def by (rule seed_rng_inc)
  show bij: "bij_betw (\<lambda>n. pcg_state ((advance ^^ n) g)) {..<2 ^ 64} UNIV"
    by (simp only: advance_iterated states_of_a_period [OF odd])
  have "pcg_state ((advance ^^ (2 ^ 64)) g) = pcg_state g"
    by (simp only: advance_iterated state_returns [OF odd] dvd_refl)
  moreover have "pcg_inc ((advance ^^ (2 ^ 64)) g) = pcg_inc g" by (simp only: advance_iterated)
  ultimately show "(advance ^^ (2 ^ 64)) g = g" by (rule pcg32.equality) simp
  fix u
  let ?st = "\<lambda>n. pcg_state ((advance ^^ n) g)" and ?A = "{n. n < 2 ^ 64 \<and> fst (next_uint ((advance ^^ n) g)) = u}"
  have A: "n \<in> ?A \<longleftrightarrow> n \<in> {..<2 ^ 64} \<and> pcg_output (?st n) = u" for n
    by (simp only: next_uint_eq fst_conv mem_Collect_eq lessThan_iff)
  have "?st ` ?A = {s. pcg_output s = u}"
  proof (intro equalityI subsetI)
    fix s assume "s \<in> {s. pcg_output s = u}"
    moreover obtain n where "n \<in> {..<2 ^ 64}" "s = ?st n" using bij_betw_imp_surj_on [OF bij] by blast
    ultimately show "s \<in> ?st ` ?A" using A by blast
  qed (use A in blast)
  moreover have "card (?st ` ?A) = card ?A"
    by (rule card_image [OF inj_on_subset [OF bij_betw_imp_inj_on [OF bij]]]) (use A in blast)
  ultimately show "card ?A = 2 ^ 32" by (simp only: card_output_fibre)
qed

lemma first_above_before: "i < first_above x qs \<Longrightarrow> qs ! i \<le> x"
  by (induction qs arbitrary: i) (auto simp: nth_Cons' split: if_splits)

lemma first_above_found: "first_above x qs < length qs \<Longrightarrow> x < qs ! first_above x qs"
  by (induction qs) auto

lemma first_above_last: "qs \<noteq> [] \<Longrightarrow> x < last qs \<Longrightarrow> first_above x qs < length qs"
  by (induction qs) (auto split: if_splits)

lemma uniform_value: "fst (uniform g) = (real (unat (fst (next_uint g))) + 1 / 2) * (1 / 4294967296)"
  by (cases "next_uint g") (simp add: uniform_def)

lemma uniform_range: "1 / 2 ^ 33 \<le> fst (uniform g)" "fst (uniform g) \<le> 1 - 1 / 2 ^ 33"
proof -
  define k where "k = unat (fst (next_uint g))"
  have "k < 2 ^ 32" using unat_less_2p [of "fst (next_uint g)"] by (simp add: k_def)
  then have "k + 1 \<le> 2 ^ 32" by simp
  then have "real (k + 1) \<le> 2 ^ 32" by (simp only: of_nat_le_numeral_power_cancel_iff)
  then show "1 / 2 ^ 33 \<le> fst (uniform g)" "fst (uniform g) \<le> 1 - 1 / 2 ^ 33"
    unfolding uniform_value k_def [symmetric] by simp_all
qed

lemma uniform_open: "0 < fst (uniform g)" "fst (uniform g) < 1"
  using uniform_range [of g] by simp_all

lemma uniform_not_half: "fst (uniform g) \<noteq> 0.5"
proof
  assume "fst (uniform g) = 0.5"
  then have "real (2 * unat (fst (next_uint g)) + 1) = real (2 ^ 32)" by (simp add: uniform_value)
  then have "2 * unat (fst (next_uint g)) + 1 = 2 ^ 32" by (simp only: of_nat_eq_iff)
  then have "even (2 * unat (fst (next_uint g)) + 1)" by (simp only:) simp
  then show False by simp
qed

lemma standard_normal_value: "fst (standard_normal g) = inverse_normal_cdf (fst (uniform g))"
  by (simp add: standard_normal_def split_beta)

lemma categorical_value:
  "fst (categorical g ps) = (let i = first_above (fst (uniform g)) ps in if i < length ps then i else length ps - 1)"
  by (simp add: categorical_def Let_def split: prod.split)

lemma bernoulli_top_bit: "fst (bernoulli g p) \<longleftrightarrow> bit (fst (next_uint g)) 31"
proof -
  define k where "k = unat (fst (next_uint g))"
  have k: "k < 2 ^ 32" using unat_less_2p [of "fst (next_uint g)"] by (simp add: k_def)
  have "bit (fst (next_uint g)) 31 \<longleftrightarrow> bit k 31" by (simp add: k_def bit_unsigned_iff)
  also have "\<dots> \<longleftrightarrow> 2 ^ 31 \<le> k"
  proof -
    have "k div 2 ^ 31 < 2" using k by (intro less_mult_imp_div_less) simp
    then have "k div 2 ^ 31 = 0 \<or> k div 2 ^ 31 = 1" by linarith
    then have "odd (k div 2 ^ 31) \<longleftrightarrow> k div 2 ^ 31 \<noteq> 0" by auto
    then show ?thesis by (simp add: bit_iff_odd div_eq_0_iff not_less)
  qed
  also have "\<dots> \<longleftrightarrow> 1 / 2 < fst (uniform g)" by (simp add: uniform_value flip: k_def) linarith
  also have "\<dots> \<longleftrightarrow> fst (bernoulli g p)" by (simp add: bernoulli_def split: prod.split)
  finally show ?thesis by (rule sym)
qed

lemma standard_normal_range: "\<bar>fst (standard_normal g)\<bar> \<le> 8"
  using inverse_normal_cdf_bound [OF uniform_range] by (simp add: standard_normal_value)

lemma exponential_range: "0 < rate \<Longrightarrow> 0 \<le> fst (exponential g rate)"
  using uniform_open [of g] by (simp add: exponential_def split_beta divide_nonpos_pos)

lemma normal_vector_unchanged: "fst (normal_vector g out) = out"
proof -
  have "fst (fold (\<lambda>x (out, g). let (x', g') = standard_normal g in (out, g')) xs (out, g)) = out" for xs
    by (induction xs arbitrary: g) (simp_all split: prod.split)
  then show ?thesis by (simp add: normal_vector_def)
qed

text \<open>The interface of rng.hpp, on the generator the simulator is started with.\<close>

interpretation pcg: random_source "PCGRNG poisson" for poisson
  by unfold_locales (simp_all add: PCGRNG_def uniform_open standard_normal_range exponential_range)

text \<open>
  A uniform draw lies strictly between zero and one, so that its logarithm and that of its
  complement exist; a normal draw has absolute value at most eight, and the mirror image of a uniform
  draw gives the opposite normal draw; an exponential draw with a positive rate is not
  negative; a categorical draw is the first index whose cumulative probability exceeds the
  uniform draw, and an index of the vector.  A Bernoulli draw is a fair coin whatever the probability asked
  for: it is true exactly if the top bit of the next output is set.  And \<open>normal_vector\<close> leaves
  the vector it should fill as it was.
\<close>

theorem draws_from_the_generator:
  assumes "ps \<noteq> []" "0 < rate"
  shows "0 < fst (uniform g) \<and> fst (uniform g) < 1
    \<and> \<bar>fst (standard_normal g)\<bar> \<le> 8
    \<and> (fst (uniform g') = 1 - fst (uniform g) \<longrightarrow> fst (standard_normal g') = - fst (standard_normal g))
    \<and> 0 \<le> fst (exponential g rate)
    \<and> fst (categorical g ps) < length ps
    \<and> (\<forall>i < fst (categorical g ps). ps ! i \<le> fst (uniform g))
    \<and> (fst (uniform g) < last ps \<longrightarrow> fst (uniform g) < ps ! fst (categorical g ps))
    \<and> (fst (bernoulli g p) \<longleftrightarrow> bit (fst (next_uint g)) 31)
    \<and> fst (normal_vector g out) = out"
proof (intro conjI allI impI)
  show "fst (standard_normal g') = - fst (standard_normal g)" if "fst (uniform g') = 1 - fst (uniform g)"
    using that inverse_normal_cdf_sym [of "fst (uniform g)"] uniform_not_half [of g]
    by (simp add: standard_normal_value)
  show "fst (categorical g ps) < length ps" using assms by (simp add: categorical_value Let_def)
  show "ps ! i \<le> fst (uniform g)" if "i < fst (categorical g ps)" for i
    using that by (intro first_above_before) (auto simp: categorical_value Let_def split: if_splits)
  show "fst (uniform g) < ps ! fst (categorical g ps)" if "fst (uniform g) < last ps"
    using first_above_last [OF assms(1) that] first_above_found by (simp add: categorical_value Let_def)
qed (simp_all add: uniform_open standard_normal_range exponential_range assms bernoulli_top_bit normal_vector_unchanged)

theorem draws_from_the_generator_witness:
  "fst (categorical (seed_rng 42 1) [1 / 4, 1]) < 2 \<and> 0 < fst (uniform (seed_rng 42 1))"
  using draws_from_the_generator [of "[1 / 4, 1]" 1 "seed_rng 42 1" "seed_rng 42 1" 0 "[]"] by simp

end
