(* ===== verification/Simulation_State.thy ===== *)
theory Simulation_State
  imports Shadow_Order_Book Pcg32
begin

text \<open>
  The statistics the market simulator keeps of the market (apps/market_simulator/state.hpp): the
  quotes, the liquidity near the touch, volatility, order flow and the latent fair value.

  A \<open>double\<close> is a real number here, so rounding is not modelled; the square roots, logarithms and
  exponentials are the mathematical functions, and the theorems show that their arguments stay
  in the domains where the two agree.  An array of length \<open>N\<close> is a list.  The members without an
  initialiser (times, quotes, liquidity) are arguments of the constructor.
\<close>

section \<open>State\<close>

datatype LatentModel = GBM | OU

definition latent_model :: LatentModel where
  "latent_model = GBM"

record TimeState =
  sim_time :: real
  time_since_event :: real

record PriceState =
  ps_best_bid :: "Price_t option"
  ps_best_ask :: "Price_t option"
  ps_spread :: "Price_t option"
  ps_last_trade_price :: Price_t

definition ps_mid_price :: "PriceState \<Rightarrow> Price_t option" where
  "ps_mid_price ps = do { bid \<leftarrow> ps_best_bid ps; ask \<leftarrow> ps_best_ask ps; Some ((bid + ask) sdiv 2) }"

record LiquidityState =
  bucket_bounds :: "Price_t list"
  lq_bid_volumes :: "Volume_t list"
  lq_ask_volumes :: "Volume_t list"
  imbalances :: "real list"
  bid_mean_distances :: "real list"
  bid_variances :: "real list"
  bid_skews :: "real list"
  ask_mean_distances :: "real list"
  ask_variances :: "real list"
  ask_skews :: "real list"
  has_bid_side :: bool
  has_ask_side :: bool

record VolatilityState =
  realised_variance_short :: real
  realised_variance_long :: real
  realised_variance_up :: real
  realised_variance_down :: real
  vol_of_vol :: real
  jump_intensity :: real

definition realised_vol_short :: "VolatilityState \<Rightarrow> real" where
  "realised_vol_short vs = sqrt (realised_variance_short vs)"

definition realised_vol_long :: "VolatilityState \<Rightarrow> real" where
  "realised_vol_long vs = sqrt (realised_variance_long vs)"

definition realised_vol_up :: "VolatilityState \<Rightarrow> real" where
  "realised_vol_up vs = sqrt (realised_variance_up vs)"

definition realised_vol_down :: "VolatilityState \<Rightarrow> real" where
  "realised_vol_down vs = sqrt (realised_variance_down vs)"

record FlowState =
  abs_volume_ewma :: real
  trade_rate_ewma :: real
  buy_volume_ewma :: real
  sell_volume_ewma :: real
  volume_surprise :: real
  signed_volume_ewma :: real
  flow_imbalance :: real
  taker_sign_ewma :: real
  trade_excitation :: real

record LatentState =
  fair_value :: real
  log_fair_value :: real
  time_since_update :: real

record WeightedMoments =
  wm_mean :: real
  wm_variance :: real
  wm_skew :: real

record SimulationState =
  time_state :: TimeState
  price_state :: PriceState
  liq_state :: LiquidityState
  vol_state :: VolatilityState
  flow_state :: FlowState
  latent_state :: LatentState
  latent_rng :: pcg32
  last_trade_price :: Price_t
  last_trade_timestamp :: Time_t

definition TAU_SHORT :: real where "TAU_SHORT = 1"
definition TAU_LONG :: real where "TAU_LONG = 30"
definition TAU_JUMP :: real where "TAU_JUMP = 10"
definition TAU_FLOW :: real where "TAU_FLOW = 2"
definition TAU_RATE :: real where "TAU_RATE = 5"
definition TAU_SURPRISE :: real where "TAU_SURPRISE = 10"
definition TAU_SIGN :: real where "TAU_SIGN = 3"
definition TAU_EXCITE :: real where "TAU_EXCITE = 2"
definition VOL_MIN :: real where "VOL_MIN = 1 / 10 ^ 6"

lemmas tau_defs = TAU_SHORT_def TAU_LONG_def TAU_JUMP_def TAU_FLOW_def TAU_RATE_def TAU_SURPRISE_def
  TAU_SIGN_def TAU_EXCITE_def

definition SimulationState_init :: "Price_t list \<Rightarrow> TimeState \<Rightarrow> PriceState \<Rightarrow> LiquidityState \<Rightarrow> SimulationState" where
  "SimulationState_init liquidity_bucket_bounds ts ps liq =
    \<lparr>time_state = ts, price_state = ps, liq_state = liq\<lparr>bucket_bounds := liquidity_bucket_bounds\<rparr>,
     vol_state = \<lparr>realised_variance_short = 0, realised_variance_long = 0, realised_variance_up = 0,
       realised_variance_down = 0, vol_of_vol = 0, jump_intensity = 0\<rparr>,
     flow_state = \<lparr>abs_volume_ewma = 0, trade_rate_ewma = 0, buy_volume_ewma = 0, sell_volume_ewma = 0,
       volume_surprise = 0, signed_volume_ewma = 0, flow_imbalance = 0, taker_sign_ewma = 0, trade_excitation = 0\<rparr>,
     latent_state = \<lparr>fair_value = 1000, log_fair_value = ln 1000, time_since_update = 0\<rparr>,
     latent_rng = seed_rng 0 0, last_trade_price = 0, last_trade_timestamp = 0\<rparr>"

section \<open>Quotes and liquidity\<close>

definition update_time_state :: "real \<Rightarrow> TimeState \<Rightarrow> TimeState" where
  "update_time_state dt ts = ts\<lparr>sim_time := sim_time ts + dt, time_since_event := dt\<rparr>"

definition update_price_state :: "ShadowOrderBook \<Rightarrow> Price_t \<Rightarrow> PriceState \<Rightarrow> PriceState" where
  "update_price_state book last_p ps =
    ps\<lparr>ps_best_bid := best_bid_price book, ps_best_ask := best_ask_price book,
       ps_last_trade_price := last_p,
       ps_spread := (case (best_bid_price book, best_ask_price book) of
                       (Some bid, Some ask) \<Rightarrow> Some (ask - bid) | _ \<Rightarrow> None)\<rparr>"

definition compute_weighted_moments :: "real \<Rightarrow> real \<Rightarrow> real \<Rightarrow> real \<Rightarrow> WeightedMoments" where
  "compute_weighted_moments w_sum x_sum x2_sum x3_sum =
    (let m = \<lparr>wm_mean = 0, wm_variance = 0, wm_skew = 0\<rparr> in
     if w_sum \<le> 0 then m
     else let mean = x_sum / w_sum;
              var = max 0 (x2_sum / w_sum - mean * mean);
              m1 = m\<lparr>wm_mean := mean, wm_variance := var\<rparr>
          in if var > 0
             then (let std = sqrt var
                   in m1\<lparr>wm_skew := (x3_sum / w_sum - 3 * mean * var - mean * mean * mean) / (std * std * std)\<rparr>)
             else m1)"

text \<open>What the loops over the levels add up for one bucket: the entries of the arrays \<open>bid_volumes\<close>, \<open>bid_w_\<close> to \<open>bid_x3_\<close>.\<close>

record BucketSums =
  bs_volume :: Volume_t
  bs_w :: real
  bs_x :: real
  bs_x2 :: real
  bs_x3 :: real

definition no_levels :: BucketSums where
  "no_levels = \<lparr>bs_volume = 0, bs_w = 0, bs_x = 0, bs_x2 = 0, bs_x3 = 0\<rparr>"

definition add_level :: "real \<Rightarrow> Volume_t \<Rightarrow> Price_t \<Rightarrow> BucketSums \<Rightarrow> BucketSums" where
  "add_level d volume bound s =
    (if d \<le> real_of_int bound
     then let w = real (unat volume)
          in s\<lparr>bs_volume := bs_volume s + volume, bs_w := bs_w s + w, bs_x := bs_x s + w * d,
               bs_x2 := bs_x2 s + w * d * d, bs_x3 := bs_x3 s + w * d * d * d\<rparr>
     else s)"

definition collect_side :: "Price_t list \<Rightarrow> (Price_t \<Rightarrow> Price_t) \<Rightarrow> (Price_t \<times> Volume_t) list \<Rightarrow> BucketSums list" where
  "collect_side bounds distance lvls =
    fold (\<lambda>(price, volume) acc.
        let d = real_of_int (distance price)
        in if d < 0 then acc else map2 (add_level d volume) bounds acc)
      lvls (map (\<lambda>_. no_levels) bounds)"

definition bucket_moments :: "BucketSums \<Rightarrow> WeightedMoments" where
  "bucket_moments s = compute_weighted_moments (bs_w s) (bs_x s) (bs_x2 s) (bs_x3 s)"

definition bucket_imbalance :: "BucketSums \<Rightarrow> BucketSums \<Rightarrow> real" where
  "bucket_imbalance b a =
    (let eps = 1 / 10 ^ 9; vb = real (unat (bs_volume b)); va = real (unat (bs_volume a))
     in (vb - va) / (vb + va + eps))"

definition bid_sums :: "Price_t list \<Rightarrow> ShadowOrderBook \<Rightarrow> BucketSums list" where
  "bid_sums bounds book =
    (case best_bid_price book of None \<Rightarrow> map (\<lambda>_. no_levels) bounds
     | Some best_bid \<Rightarrow> collect_side bounds (\<lambda>price. best_bid - price) (RBT.entries (sh_bids book)))"

definition ask_sums :: "Price_t list \<Rightarrow> ShadowOrderBook \<Rightarrow> BucketSums list" where
  "ask_sums bounds book =
    (case best_ask_price book of None \<Rightarrow> map (\<lambda>_. no_levels) bounds
     | Some best_ask \<Rightarrow> collect_side bounds (\<lambda>price. price - best_ask) (RBT.entries (sh_asks book)))"

definition update_liq_state :: "ShadowOrderBook \<Rightarrow> LiquidityState \<Rightarrow> LiquidityState" where
  "update_liq_state book liq =
    (let bids = bid_sums (bucket_bounds liq) book;
         asks = ask_sums (bucket_bounds liq) book;
         bid_m = map bucket_moments bids; ask_m = map bucket_moments asks
     in liq\<lparr>has_bid_side := best_bid_price book \<noteq> None, has_ask_side := best_ask_price book \<noteq> None,
            lq_bid_volumes := map bs_volume bids, lq_ask_volumes := map bs_volume asks,
            bid_mean_distances := map wm_mean bid_m, bid_variances := map wm_variance bid_m,
            bid_skews := map wm_skew bid_m,
            ask_mean_distances := map wm_mean ask_m, ask_variances := map wm_variance ask_m,
            ask_skews := map wm_skew ask_m,
            imbalances := map2 bucket_imbalance bids asks\<rparr>)"

section \<open>Fair value, volatility and flow\<close>

definition update_latent_state :: "real \<Rightarrow> LatentState \<Rightarrow> pcg32 \<Rightarrow> LatentState \<times> pcg32" where
  "update_latent_state dt ls g =
    (let sigma = 0.01; latent_update_interval = 0.01;
         ls1 = ls\<lparr>time_since_update := time_since_update ls + dt\<rparr>
     in if time_since_update ls1 \<ge> latent_update_interval
        then let latent_dt = time_since_update ls1;
                 (z, g') = standard_normal g;
                 step = (case latent_model of
                     OU \<Rightarrow> 0.05 * (6.907755278982137 - log_fair_value ls1) * latent_dt + sigma * sqrt latent_dt * z
                   | GBM \<Rightarrow> (0 - 0.5 * sigma * sigma) * latent_dt + sigma * sqrt latent_dt * z);
                 log_value = log_fair_value ls1 + step
             in (ls1\<lparr>log_fair_value := log_value, fair_value := exp log_value, time_since_update := 0\<rparr>, g')
        else (ls1, g))"

text \<open>The smoothing weight of a step and the moving average, as the updates spell them out.\<close>

definition weight :: "real \<Rightarrow> real \<Rightarrow> real" where
  "weight dt tau = 1 - exp (- dt / tau)"

definition ewma :: "real \<Rightarrow> real \<Rightarrow> real \<Rightarrow> real" where
  "ewma a old x = (1 - a) * old + a * x"

definition clamp :: "real \<Rightarrow> real \<Rightarrow> real \<Rightarrow> real" where
  "clamp x lo hi = (if x < lo then lo else if hi < x then hi else x)"

definition update_vol_state :: "Price_t \<Rightarrow> PayloadTradeEvent \<Rightarrow> real \<Rightarrow> VolatilityState \<Rightarrow> VolatilityState" where
  "update_vol_state last_p trade dt vs =
    (let p0 = real_of_int last_p; p1 = real_of_int (PayloadTradeEvent.price trade);
         r = ln (p1 / p0); r2 = r * r;
         vol_prev = sqrt (realised_variance_short vs);
         a_short = weight dt TAU_SHORT; a_long = weight dt TAU_LONG;
         vs1 = vs\<lparr>realised_variance_short := ewma a_short (realised_variance_short vs) r2,
                  realised_variance_long := ewma a_long (realised_variance_long vs) r2\<rparr>;
         vs2 = (if r > 0 then
                  vs1\<lparr>realised_variance_up := ewma a_short (realised_variance_up vs1) r2,
                      realised_variance_down := realised_variance_down vs1 * (1 - a_short)\<rparr>
                else if r < 0 then
                  vs1\<lparr>realised_variance_down := ewma a_short (realised_variance_down vs1) r2,
                      realised_variance_up := realised_variance_up vs1 * (1 - a_short)\<rparr>
                else vs1\<lparr>realised_variance_up := realised_variance_up vs1 * (1 - a_short),
                         realised_variance_down := realised_variance_down vs1 * (1 - a_short)\<rparr>);
         vol_now = sqrt (realised_variance_short vs2);
         dvol = vol_now - vol_prev;
         vs3 = vs2\<lparr>vol_of_vol := ewma a_short (vol_of_vol vs2) (dvol * dvol)\<rparr>
     in if vol_now > VOL_MIN
        then let jump_score = \<bar>r\<bar> / (vol_now * sqrt dt + 1 / 10 ^ 8);
                 a_jump = weight dt TAU_JUMP
             in if jump_score > 5
                then vs3\<lparr>jump_intensity := ewma a_jump (jump_intensity vs3) 1\<rparr>
                else vs3\<lparr>jump_intensity := jump_intensity vs3 * (1 - a_jump)\<rparr>
        else vs3)"

definition update_flow_state :: "PayloadTradeEvent \<Rightarrow> real \<Rightarrow> FlowState \<Rightarrow> FlowState" where
  "update_flow_state trade dt fs =
    (let vol = real (unat (PayloadTradeEvent.quantity trade));
         buy = (PayloadTradeEvent.taker_side trade = BUY);
         a_flow = weight dt TAU_FLOW; a_rate = weight dt TAU_RATE;
         a_surp = weight dt TAU_SURPRISE; a_sign = weight dt TAU_SIGN;
         inst_rate = 1 / dt;
         fs1 = fs\<lparr>abs_volume_ewma := ewma a_flow (abs_volume_ewma fs) vol,
                  trade_rate_ewma := ewma a_rate (trade_rate_ewma fs) inst_rate\<rparr>;
         fs2 = (if buy then
                  fs1\<lparr>buy_volume_ewma := ewma a_flow (buy_volume_ewma fs1) vol,
                      sell_volume_ewma := sell_volume_ewma fs1 * (1 - a_flow)\<rparr>
                else
                  fs1\<lparr>sell_volume_ewma := ewma a_flow (sell_volume_ewma fs1) vol,
                      buy_volume_ewma := buy_volume_ewma fs1 * (1 - a_flow)\<rparr>);
         signed_vol = (if buy then vol else - vol);
         fs3 = fs2\<lparr>signed_volume_ewma := ewma a_flow (signed_volume_ewma fs2) signed_vol\<rparr>;
         fs4 = fs3\<lparr>flow_imbalance := clamp (signed_volume_ewma fs3 / (abs_volume_ewma fs3 + 1 / 10 ^ 8)) (-1) 1\<rparr>;
         expected_vol = max (abs_volume_ewma fs4) (1 / 10 ^ 8);
         surprise = (vol - expected_vol) / expected_vol;
         fs5 = fs4\<lparr>volume_surprise := ewma a_surp (volume_surprise fs4) surprise\<rparr>;
         sign = (if buy then 1 else -1)
     in fs5\<lparr>taker_sign_ewma := clamp (ewma a_sign (taker_sign_ewma fs5) sign) (-1) 1\<rparr>)"

definition bump_trade_excitation :: "PayloadTradeEvent \<Rightarrow> FlowState \<Rightarrow> FlowState" where
  "bump_trade_excitation trade fs =
    (let q = real (unat (PayloadTradeEvent.quantity trade));
         bump = clamp (0.05 + 0.02 * ln (1 + q) + 0.10 * \<bar>flow_imbalance fs\<bar>) 0.05 0.5
     in fs\<lparr>trade_excitation := min (trade_excitation fs + bump) 5\<rparr>)"

definition decay_trade_excitation :: "real \<Rightarrow> FlowState \<Rightarrow> FlowState" where
  "decay_trade_excitation dt fs =
    (let a = weight dt TAU_EXCITE in fs\<lparr>trade_excitation := trade_excitation fs * (1 - a)\<rparr>)"

section \<open>The two entry points\<close>

definition sync_with_book :: "ShadowOrderBook \<Rightarrow> real \<Rightarrow> SimulationState \<Rightarrow> SimulationState" where
  "sync_with_book book dt st =
    (let (ls, g) = update_latent_state dt (latent_state st) (latent_rng st)
     in st\<lparr>price_state := update_price_state book (last_trade_price st) (price_state st),
           liq_state := update_liq_state book (liq_state st),
           time_state := update_time_state dt (time_state st),
           latent_state := ls, latent_rng := g,
           flow_state := decay_trade_excitation dt (flow_state st)\<rparr>)"

definition sim_on_trade :: "PayloadTradeEvent \<Rightarrow> SimulationState \<Rightarrow> SimulationState" where
  "sim_on_trade trade st =
    (let told = st\<lparr>last_trade_price := PayloadTradeEvent.price trade,
                   last_trade_timestamp := PayloadTradeEvent.timestamp trade\<rparr>
     in if last_trade_timestamp st = 0 then told
        else let dt = max (1 / 10 ^ 6) (real (unat (PayloadTradeEvent.timestamp trade - last_trade_timestamp st)) * (1 / 10 ^ 9))
             in if dt \<le> 0 then st
                else told\<lparr>vol_state := update_vol_state (last_trade_price st) trade dt (vol_state st),
                          flow_state := bump_trade_excitation trade (update_flow_state trade dt (flow_state st))\<rparr>)"

section \<open>Moving averages\<close>

lemma unsigned_real_nonneg [simp]: "0 \<le> (unsigned (w :: 'a::len word) :: real)"
  by (metis of_nat_unat of_nat_0_le_iff)

lemma weight_range: "0 \<le> dt \<Longrightarrow> 0 < tau \<Longrightarrow> 0 \<le> weight dt tau \<and> weight dt tau < 1"
  by (simp add: weight_def)

lemma ewma_between:
  assumes "0 \<le> a" "a < 1" "lo \<le> old" "old \<le> hi" "lo \<le> x" "x \<le> hi"
  shows "lo \<le> ewma a old x \<and> ewma a old x \<le> hi"
proof -
  have "(1 - a) * lo + a * lo \<le> ewma a old x" "ewma a old x \<le> (1 - a) * hi + a * hi"
    using assms unfolding ewma_def by (auto intro!: add_mono mult_left_mono)
  then show ?thesis by (simp add: algebra_simps)
qed

lemma ewma_above: "0 \<le> a \<Longrightarrow> a < 1 \<Longrightarrow> lo \<le> old \<Longrightarrow> lo \<le> x \<Longrightarrow> lo \<le> ewma a old x"
  using ewma_between [of a lo old "max old x" x] by simp

lemma ewma_add: "ewma a (x + y) (u + v) = ewma a x u + ewma a y v"
  by (simp add: ewma_def algebra_simps)

lemma ewma_zero: "x * (1 - a) = ewma a x 0"
  by (simp add: ewma_def)

lemma clamp_range: "lo \<le> hi \<Longrightarrow> lo \<le> clamp x lo hi \<and> clamp x lo hi \<le> hi"
  by (simp add: clamp_def)

lemma clamp_id: "lo \<le> x \<Longrightarrow> x \<le> hi \<Longrightarrow> clamp x lo hi = x"
  by (simp add: clamp_def)

section \<open>What the statistics mean\<close>

text \<open>
  The volatilities are those of the up and the down moves together; the flow of volume is that of
  the buyers and of the sellers together, and \<open>bound\<close> is an upper bound of the traded quantities.
\<close>

definition vol_ok :: "VolatilityState \<Rightarrow> bool" where
  "vol_ok vs \<longleftrightarrow> 0 \<le> realised_variance_up vs \<and> 0 \<le> realised_variance_down vs
    \<and> realised_variance_short vs = realised_variance_up vs + realised_variance_down vs
    \<and> 0 \<le> realised_variance_long vs \<and> 0 \<le> vol_of_vol vs
    \<and> 0 \<le> jump_intensity vs \<and> jump_intensity vs \<le> 1"

definition flow_ok :: "real \<Rightarrow> FlowState \<Rightarrow> bool" where
  "flow_ok bound fs \<longleftrightarrow> 0 \<le> buy_volume_ewma fs \<and> 0 \<le> sell_volume_ewma fs
    \<and> abs_volume_ewma fs = buy_volume_ewma fs + sell_volume_ewma fs \<and> abs_volume_ewma fs \<le> bound
    \<and> signed_volume_ewma fs = buy_volume_ewma fs - sell_volume_ewma fs
    \<and> flow_imbalance fs = signed_volume_ewma fs / (abs_volume_ewma fs + 1 / 10 ^ 8)
    \<and> 0 \<le> trade_rate_ewma fs \<and> trade_rate_ewma fs \<le> 10 ^ 6
    \<and> -1 \<le> volume_surprise fs \<and> \<bar>taker_sign_ewma fs\<bar> \<le> 1
    \<and> 0 \<le> trade_excitation fs \<and> trade_excitation fs \<le> 5"

definition latent_ok :: "LatentState \<Rightarrow> bool" where
  "latent_ok ls \<longleftrightarrow> fair_value ls = exp (log_fair_value ls) \<and> 0 \<le> time_since_update ls \<and> time_since_update ls < 0.01"

text \<open>The members after an update, as averages of what they were and what the trade contributes.\<close>

lemma update_vol_state_members:
  fixes p trade
  defines "r \<equiv> ln (real_of_int (PayloadTradeEvent.price trade) / real_of_int p)"
  shows "realised_variance_short (update_vol_state p trade dt vs) = ewma (weight dt TAU_SHORT) (realised_variance_short vs) (r * r)"
    and "realised_variance_long (update_vol_state p trade dt vs) = ewma (weight dt TAU_LONG) (realised_variance_long vs) (r * r)"
    and "realised_variance_up (update_vol_state p trade dt vs) =
      ewma (weight dt TAU_SHORT) (realised_variance_up vs) (if r > 0 then r * r else 0)"
    and "realised_variance_down (update_vol_state p trade dt vs) =
      ewma (weight dt TAU_SHORT) (realised_variance_down vs) (if r < 0 then r * r else 0)"
    and "\<exists>d. vol_of_vol (update_vol_state p trade dt vs) = ewma (weight dt TAU_SHORT) (vol_of_vol vs) (d * d)"
    and "jump_intensity (update_vol_state p trade dt vs) \<in>
      {jump_intensity vs, ewma (weight dt TAU_JUMP) (jump_intensity vs) 1, ewma (weight dt TAU_JUMP) (jump_intensity vs) 0}"
  unfolding update_vol_state_def r_def by (auto simp add: Let_def ewma_zero)

lemma update_vol_state_ok:
  assumes "vol_ok vs" "0 < dt"
  shows "vol_ok (update_vol_state p trade dt vs)"
proof -
  have w: "0 \<le> weight dt tau" "weight dt tau < 1" if "0 < tau" for tau
    using weight_range [of dt tau] assms(2) that by auto
  have taus: "0 < TAU_SHORT" "0 < TAU_LONG" "0 < TAU_JUMP" by (simp_all add: tau_defs)
  note members = update_vol_state_members [where p = p and trade = trade and dt = dt and vs = vs]
  have "0 \<le> vol_of_vol (update_vol_state p trade dt vs)"
    using members(5) assms(1) by (auto simp: vol_ok_def intro!: ewma_above w taus)
  moreover have "0 \<le> jump_intensity (update_vol_state p trade dt vs) \<and> jump_intensity (update_vol_state p trade dt vs) \<le> 1"
    using members(6) assms(1) ewma_between [OF w [OF taus(3)], of 0 "jump_intensity vs" 1 0]
      ewma_between [OF w [OF taus(3)], of 0 "jump_intensity vs" 1 1]
    by (simp add: vol_ok_def) (elim disjE; simp)
  ultimately show ?thesis
    using assms(1) unfolding vol_ok_def members(1-4)
    by (auto simp: ewma_above w taus simp flip: ewma_add)
qed

lemma update_flow_state_members:
  fixes trade fs dt
  defines "vol \<equiv> real (unat (PayloadTradeEvent.quantity trade))" and "b \<equiv> PayloadTradeEvent.taker_side trade = BUY"
    and "fs' \<equiv> update_flow_state trade dt fs"
  shows "abs_volume_ewma fs' = ewma (weight dt TAU_FLOW) (abs_volume_ewma fs) vol"
    and "trade_rate_ewma fs' = ewma (weight dt TAU_RATE) (trade_rate_ewma fs) (1 / dt)"
    and "buy_volume_ewma fs' = ewma (weight dt TAU_FLOW) (buy_volume_ewma fs) (if b then vol else 0)"
    and "sell_volume_ewma fs' = ewma (weight dt TAU_FLOW) (sell_volume_ewma fs) (if b then 0 else vol)"
    and "signed_volume_ewma fs' = ewma (weight dt TAU_FLOW) (signed_volume_ewma fs) (if b then vol else - vol)"
    and "flow_imbalance fs' = clamp (signed_volume_ewma fs' / (abs_volume_ewma fs' + 1 / 10 ^ 8)) (-1) 1"
    and "volume_surprise fs' = ewma (weight dt TAU_SURPRISE) (volume_surprise fs)
      ((vol - max (abs_volume_ewma fs') (1 / 10 ^ 8)) / max (abs_volume_ewma fs') (1 / 10 ^ 8))"
    and "taker_sign_ewma fs' = clamp (ewma (weight dt TAU_SIGN) (taker_sign_ewma fs) (if b then 1 else -1)) (-1) 1"
    and "trade_excitation fs' = trade_excitation fs"
  unfolding fs'_def vol_def b_def update_flow_state_def by (simp_all add: Let_def ewma_zero)

lemma imbalance_ratio:
  fixes b s e :: real
  assumes "0 \<le> b" "0 \<le> s" "0 < e"
  shows "-1 \<le> (b - s) / (b + s + e) \<and> (b - s) / (b + s + e) \<le> 1"
  using assms by (simp add: divide_le_eq le_divide_eq)

lemma surprise_above:
  assumes "0 \<le> v" "0 < (e :: real)"
  shows "-1 \<le> (v - e) / e"
  using assms by (simp add: le_divide_eq)

lemma update_flow_state_ok:
  assumes ok: "flow_ok bound fs" and dt: "1 / 10 ^ 6 \<le> dt" and q: "real (unat (PayloadTradeEvent.quantity trade)) \<le> bound"
  shows "flow_ok bound (update_flow_state trade dt fs)"
proof -
  define fs' where "fs' = update_flow_state trade dt fs"
  define vol where "vol = real (unat (PayloadTradeEvent.quantity trade))"
  have vol: "0 \<le> vol" "vol \<le> bound" using q of_nat_0_le_iff unfolding vol_def by blast+
  have pos: "0 < dt" using dt by (rule less_le_trans [rotated]) simp
  have w: "0 \<le> weight dt tau" "weight dt tau < 1" if "0 < tau" for tau
    using weight_range [of dt tau] pos that by auto
  have taus: "0 < TAU_FLOW" "0 < TAU_RATE" "0 < TAU_SURPRISE" "0 < TAU_SIGN" by (simp_all add: tau_defs)
  note members = update_flow_state_members [where trade = trade and fs = fs and dt = dt, folded fs'_def vol_def]
  have sides: "0 \<le> buy_volume_ewma fs'" "0 \<le> sell_volume_ewma fs'"
    using ok vol unfolding members by (auto simp: flow_ok_def intro!: ewma_above w taus)
  have old: "abs_volume_ewma fs = buy_volume_ewma fs + sell_volume_ewma fs"
    "signed_volume_ewma fs = buy_volume_ewma fs - sell_volume_ewma fs" using ok by (simp_all add: flow_ok_def)
  have sums: "abs_volume_ewma fs' = buy_volume_ewma fs' + sell_volume_ewma fs'"
    "signed_volume_ewma fs' = buy_volume_ewma fs' - sell_volume_ewma fs'"
    unfolding members old by (simp_all add: ewma_def algebra_simps)
  have abs: "abs_volume_ewma fs' \<le> bound"
    using ok vol unfolding members by (auto simp: flow_ok_def intro!: ewma_between [THEN conjunct2, of _ 0] w taus)
  have rate: "0 \<le> trade_rate_ewma fs' \<and> trade_rate_ewma fs' \<le> 10 ^ 6"
    using ok pos dt unfolding members by (intro ewma_between w taus) (simp_all add: flow_ok_def divide_le_eq)
  have "-1 \<le> volume_surprise fs'"
    using ok vol unfolding members(7) by (intro ewma_above w taus surprise_above) (simp_all add: flow_ok_def)
  moreover have "flow_imbalance fs' = signed_volume_ewma fs' / (abs_volume_ewma fs' + 1 / 10 ^ 8)"
    unfolding members(6) using imbalance_ratio [OF sides, of "1 / 10 ^ 8"] by (intro clamp_id) (simp_all add: sums)
  moreover have "\<bar>taker_sign_ewma fs'\<bar> \<le> 1"
    unfolding members(8) abs_le_iff using clamp_range [of "-1" 1] by (simp add: minus_le_iff)
  ultimately have "flow_ok bound fs'"
    using ok sides sums abs rate members(9) unfolding flow_ok_def by simp
  then show ?thesis by (simp add: fs'_def)
qed

lemma flow_imbalance_le_1: "flow_ok bound fs \<Longrightarrow> \<bar>flow_imbalance fs\<bar> \<le> 1"
  using imbalance_ratio [of "buy_volume_ewma fs" "sell_volume_ewma fs" "1 / 10 ^ 8"]
  by (simp add: flow_ok_def abs_le_iff minus_le_iff)

lemma bump_trade_excitation_ok:
  assumes "flow_ok bound fs"
  shows "flow_ok bound (bump_trade_excitation trade fs)"
proof -
  obtain x where x: "bump_trade_excitation trade fs = fs\<lparr>trade_excitation := min (trade_excitation fs + clamp x 0.05 0.5) 5\<rparr>"
    unfolding bump_trade_excitation_def Let_def by blast
  have "0 \<le> clamp x 0.05 0.5" by (simp add: clamp_def)
  then have "0 \<le> trade_excitation fs + clamp x 0.05 0.5"
    using assms by (intro add_nonneg_nonneg) (simp_all add: flow_ok_def)
  then show ?thesis using assms unfolding x by (simp add: flow_ok_def)
qed

lemma decay_trade_excitation_ok:
  assumes "flow_ok bound fs" "0 \<le> dt"
  shows "flow_ok bound (decay_trade_excitation dt fs)"
  using assms ewma_between [of "weight dt TAU_EXCITE" 0 "trade_excitation fs" 5 0] weight_range [of dt TAU_EXCITE]
  by (simp add: flow_ok_def decay_trade_excitation_def Let_def ewma_zero tau_defs)

lemma update_latent_state_ok:
  assumes "latent_ok ls" "0 \<le> dt"
  shows "latent_ok (fst (update_latent_state dt ls g))"
  using assms by (auto simp: latent_ok_def update_latent_state_def Let_def split: prod.split)

section \<open>Every history\<close>

datatype StatEvent = Trade PayloadTradeEvent | Sync ShadowOrderBook real

fun stat_event :: "StatEvent \<Rightarrow> SimulationState \<Rightarrow> SimulationState" where
  "stat_event (Trade t) st = sim_on_trade t st"
| "stat_event (Sync book dt) st = sync_with_book book dt st"

text \<open>Trades as the exchange sends them, of quantities up to the bound, and times that do not run backwards.\<close>

fun stat_event_ok :: "real \<Rightarrow> StatEvent \<Rightarrow> bool" where
  "stat_event_ok bound (Trade t) \<longleftrightarrow> 0 < PayloadTradeEvent.price t \<and> real (unat (PayloadTradeEvent.quantity t)) \<le> bound"
| "stat_event_ok bound (Sync book dt) \<longleftrightarrow> 0 \<le> dt"

definition stats_ok :: "real \<Rightarrow> SimulationState \<Rightarrow> bool" where
  "stats_ok bound st \<longleftrightarrow> vol_ok (vol_state st) \<and> flow_ok bound (flow_state st) \<and> latent_ok (latent_state st)
    \<and> 0 \<le> last_trade_price st \<and> (last_trade_timestamp st \<noteq> 0 \<longrightarrow> 0 < last_trade_price st)"

lemma SimulationState_init_ok: "0 \<le> bound \<Longrightarrow> stats_ok bound (SimulationState_init bounds ts ps liq)"
  by (simp add: stats_ok_def SimulationState_init_def vol_ok_def flow_ok_def latent_ok_def)

lemma sim_on_trade_ok:
  assumes "stats_ok bound st" "0 < PayloadTradeEvent.price t" "real (unat (PayloadTradeEvent.quantity t)) \<le> bound"
  shows "stats_ok bound (sim_on_trade t st)"
proof -
  define dt where "dt = max (1 / 10 ^ 6) (real (unat (PayloadTradeEvent.timestamp t - last_trade_timestamp st)) * (1 / 10 ^ 9))"
  have dt: "1 / 10 ^ 6 \<le> dt" by (simp add: dt_def)
  have pos: "0 < dt" by (rule less_le_trans [OF _ dt]) simp
  show ?thesis
  proof (cases "last_trade_timestamp st = 0")
    case True
    then show ?thesis using assms by (simp add: stats_ok_def sim_on_trade_def Let_def)
  next
    case False
    then have "sim_on_trade t st = st\<lparr>last_trade_price := PayloadTradeEvent.price t,
        last_trade_timestamp := PayloadTradeEvent.timestamp t,
        vol_state := update_vol_state (last_trade_price st) t dt (vol_state st),
        flow_state := bump_trade_excitation t (update_flow_state t dt (flow_state st))\<rparr>"
      using pos unfolding sim_on_trade_def Let_def dt_def [symmetric] by simp
    then show ?thesis
      using assms pos dt by (simp add: stats_ok_def update_vol_state_ok update_flow_state_ok bump_trade_excitation_ok del: of_nat_unat)
  qed
qed

lemma sync_with_book_ok:
  assumes "stats_ok bound st" "0 \<le> dt"
  shows "stats_ok bound (sync_with_book book dt st)"
  using assms update_latent_state_ok [of "latent_state st" dt "latent_rng st"] decay_trade_excitation_ok [of bound "flow_state st" dt]
  by (simp add: stats_ok_def sync_with_book_def split_beta)

lemma stats_ok_history:
  assumes "list_all (stat_event_ok bound) es" "stats_ok bound st"
  shows "stats_ok bound (fold stat_event es st)"
  using assms
proof (induction es arbitrary: st)
  case (Cons e es)
  then show ?case by (cases e) (simp_all add: sim_on_trade_ok sync_with_book_ok del: of_nat_unat)
qed simp

text \<open>
  C35: Whatever trades the simulator is told of and whenever it synchronises, the statistics are what
  their names say.  The short-term variance is the variance of the up moves plus that of the down moves; the
  smoothed volume is that of the buyers plus that of the sellers and never above the largest
  quantity traded; the signed volume is their difference, and the flow imbalance the exact
  quotient, so that clamping it to one changes nothing.  The jump intensity is a
  probability, the taker sign at most one in absolute value, the excitation between zero and five, the
  surprise at least minus one; the fair value is positive; and the last trade's price, which the next return is taken
  against, is positive.  So no logarithm, root or quotient of the updates is ever undefined.
\<close>

theorem statistics_stay_meaningful:
  fixes es bounds ts ps liq
  assumes "list_all (stat_event_ok bound) es" "0 \<le> bound"
  defines "st \<equiv> fold stat_event es (SimulationState_init bounds ts ps liq)"
  defines "vs \<equiv> vol_state st" and "fs \<equiv> flow_state st" and "ls \<equiv> latent_state st"
  shows "realised_variance_short vs = realised_variance_up vs + realised_variance_down vs
    \<and> 0 \<le> realised_variance_up vs \<and> 0 \<le> realised_variance_down vs \<and> 0 \<le> realised_variance_long vs
    \<and> 0 \<le> jump_intensity vs \<and> jump_intensity vs \<le> 1
    \<and> abs_volume_ewma fs = buy_volume_ewma fs + sell_volume_ewma fs
    \<and> 0 \<le> buy_volume_ewma fs \<and> 0 \<le> sell_volume_ewma fs \<and> abs_volume_ewma fs \<le> bound
    \<and> signed_volume_ewma fs = buy_volume_ewma fs - sell_volume_ewma fs
    \<and> flow_imbalance fs = signed_volume_ewma fs / (abs_volume_ewma fs + 1 / 10 ^ 8) \<and> \<bar>flow_imbalance fs\<bar> \<le> 1
    \<and> \<bar>taker_sign_ewma fs\<bar> \<le> 1 \<and> -1 \<le> volume_surprise fs
    \<and> 0 \<le> trade_excitation fs \<and> trade_excitation fs \<le> 5
    \<and> 0 < fair_value ls \<and> fair_value ls = exp (log_fair_value ls)
    \<and> (last_trade_timestamp st \<noteq> 0 \<longrightarrow> 0 < last_trade_price st)"
proof -
  have "stats_ok bound st"
    unfolding st_def by (rule stats_ok_history [OF assms(1) SimulationState_init_ok [OF assms(2)]])
  then have ok: "vol_ok vs" "flow_ok bound fs" "latent_ok ls" "last_trade_timestamp st \<noteq> 0 \<longrightarrow> 0 < last_trade_price st"
    by (simp_all add: stats_ok_def vs_def fs_def ls_def)
  from flow_imbalance_le_1 [OF ok(2)] ok show ?thesis
    unfolding vol_ok_def flow_ok_def latent_ok_def by simp
qed

definition trade_at :: "nat \<Rightarrow> Price_t \<Rightarrow> Volume_t \<Rightarrow> Side \<Rightarrow> PayloadTradeEvent" where
  "trade_at t p q sd = make_trade_event 1 1 p q sd (of_nat t)"

theorem statistics_stay_meaningful_witness:
  "\<forall>ts ps liq. abs_volume_ewma (flow_state (fold stat_event
      [Trade (trade_at 1 1000 5 BUY), Sync ShadowOrderBook_init 0.001, Trade (trade_at 2000 1010 7 SELL)]
      (SimulationState_init [1, 5, 10] ts ps liq))) \<le> 7"
proof (intro allI)
  fix ts ps liq
  have "list_all (stat_event_ok 7)
      [Trade (trade_at 1 1000 5 BUY), Sync ShadowOrderBook_init 0.001, Trade (trade_at 2000 1010 7 SELL)]"
    by (simp add: trade_at_def make_trade_event_def)
  from statistics_stay_meaningful [OF this zero_le_numeral, of "[1, 5, 10]" ts ps liq]
  show "abs_volume_ewma (flow_state (fold stat_event
      [Trade (trade_at 1 1000 5 BUY), Sync ShadowOrderBook_init 0.001, Trade (trade_at 2000 1010 7 SELL)]
      (SimulationState_init [1, 5, 10] ts ps liq))) \<le> 7"
    by blast
qed

section \<open>The liquidity statistics\<close>

text \<open>
  The reference: the levels within a distance of the best price, as pairs of volume and distance, and
  the moments of the distances weighted by the volumes.
\<close>

type_synonym weighted = "(Volume_t \<times> Price_t) list"

definition reach :: "(Price_t \<Rightarrow> Price_t) \<Rightarrow> Price_t \<Rightarrow> (Price_t \<times> Volume_t) list \<Rightarrow> weighted" where
  "reach distance bound lvls = [(v, distance p). (p, v) \<leftarrow> lvls, distance p \<le> bound]"

fun near_levels :: "Side \<Rightarrow> Price_t \<Rightarrow> ShadowOrderBook \<Rightarrow> weighted" where
  "near_levels BUY bound book =
    (case best_bid_price book of None \<Rightarrow> [] | Some best \<Rightarrow> reach (\<lambda>p. best - p) bound (RBT.entries (sh_bids book)))"
| "near_levels SELL bound book =
    (case best_ask_price book of None \<Rightarrow> [] | Some best \<Rightarrow> reach (\<lambda>p. p - best) bound (RBT.entries (sh_asks book)))"

definition total_weight :: "weighted \<Rightarrow> (real \<Rightarrow> real) \<Rightarrow> real" where
  "total_weight xs f = (\<Sum>(v, d) \<leftarrow> xs. real (unat v) * f (real_of_int d))"

definition weighted_mean :: "weighted \<Rightarrow> real" where
  "weighted_mean xs = total_weight xs (\<lambda>d. d) / total_weight xs (\<lambda>_. 1)"

definition central_moment :: "nat \<Rightarrow> weighted \<Rightarrow> real" where
  "central_moment k xs = total_weight xs (\<lambda>d. (d - weighted_mean xs) ^ k) / total_weight xs (\<lambda>_. 1)"

lemma total_weight_simps [simp]:
  "total_weight [] f = 0" "total_weight ((v, d) # xs) f = real (unat v) * f (real_of_int d) + total_weight xs f"
  by (simp_all add: total_weight_def)

lemma total_weight_add: "total_weight xs (\<lambda>d. f d + g d) = total_weight xs f + total_weight xs g"
  by (induction xs) (auto simp: algebra_simps)

lemma total_weight_diff: "total_weight xs (\<lambda>d. f d - g d) = total_weight xs f - total_weight xs g"
  by (induction xs) (auto simp: algebra_simps)

lemma total_weight_scale: "total_weight xs (\<lambda>d. c * f d) = c * total_weight xs f"
  by (induction xs) (auto simp: algebra_simps)

lemma total_weight_mono:
  assumes "\<And>v d. (v, d) \<in> set xs \<Longrightarrow> f (real_of_int d) \<le> g (real_of_int d)"
  shows "total_weight xs f \<le> total_weight xs g"
  using assms
proof (induction xs)
  case (Cons x xs)
  then have "total_weight xs f \<le> total_weight xs g" by (meson list.set_intros(2))
  moreover have "real (unat (fst x)) * f (real_of_int (snd x)) \<le> real (unat (fst x)) * g (real_of_int (snd x))"
    using Cons.prems [of "fst x" "snd x"] by (intro mult_left_mono) simp_all
  ultimately show ?case by (cases x) simp
qed simp

lemma variance_formula:
  assumes "0 < total_weight xs (\<lambda>_. 1)"
  shows "central_moment 2 xs =
    total_weight xs (\<lambda>d. d ^ 2) / total_weight xs (\<lambda>_. 1) - weighted_mean xs * weighted_mean xs"
proof -
  define m where "m = weighted_mean xs"
  define W where "W = total_weight xs (\<lambda>_. 1)"
  have X: "total_weight xs (\<lambda>d. d) = m * W" using assms by (simp add: m_def W_def weighted_mean_def)
  have "(\<lambda>d. (d - m) ^ 2) = (\<lambda>d. d ^ 2 - 2 * m * d + m ^ 2 * 1)"
    by (auto simp: power2_eq_square algebra_simps)
  then have "total_weight xs (\<lambda>d. (d - m) ^ 2) = total_weight xs (\<lambda>d. d ^ 2) - m * m * W"
    by (simp only: total_weight_add total_weight_diff total_weight_scale X) (simp add: W_def power2_eq_square algebra_simps)
  then show ?thesis using assms by (simp add: central_moment_def m_def W_def diff_divide_distrib)
qed

lemma skew_formula:
  assumes "0 < total_weight xs (\<lambda>_. 1)"
  defines "m \<equiv> weighted_mean xs"
  shows "central_moment 3 xs =
    total_weight xs (\<lambda>d. d ^ 3) / total_weight xs (\<lambda>_. 1) - 3 * m * central_moment 2 xs - m * m * m"
proof -
  define W where "W = total_weight xs (\<lambda>_. 1)"
  have W: "W \<noteq> 0" using assms by (simp add: W_def)
  have X: "total_weight xs (\<lambda>d. d) = m * W" using assms by (simp add: m_def W_def weighted_mean_def)
  have X2: "total_weight xs (\<lambda>d. d ^ 2) = (central_moment 2 xs + m * m) * W"
    using W by (simp add: variance_formula [OF assms(1)] W_def m_def field_simps)
  have "(\<lambda>d. (d - m) ^ 3) = (\<lambda>d. d ^ 3 - 3 * m * d ^ 2 + 3 * m ^ 2 * d - m ^ 3 * 1)"
    by (auto simp: power3_eq_cube power2_eq_square algebra_simps)
  then have "total_weight xs (\<lambda>d. (d - m) ^ 3) =
      total_weight xs (\<lambda>d. d ^ 3) - (3 * m * central_moment 2 xs + m * m * m) * W"
    by (simp only: total_weight_add total_weight_diff total_weight_scale X X2)
      (simp add: W_def power3_eq_cube power2_eq_square algebra_simps)
  then show ?thesis using W by (simp add: central_moment_def m_def W_def diff_divide_distrib)
qed

text \<open>The sums of one bucket.\<close>

definition sums_of :: "weighted \<Rightarrow> BucketSums" where
  "sums_of xs = \<lparr>bs_volume = (\<Sum>(v, d) \<leftarrow> xs. v), bs_w = total_weight xs (\<lambda>_. 1), bs_x = total_weight xs (\<lambda>d. d),
     bs_x2 = total_weight xs (\<lambda>d. d ^ 2), bs_x3 = total_weight xs (\<lambda>d. d ^ 3)\<rparr>"

lemma sums_of_append: "sums_of (xs @ [(v, d)]) =
    (let w = real (unat v); s = sums_of xs; r = real_of_int d
     in s\<lparr>bs_volume := bs_volume s + v, bs_w := bs_w s + w, bs_x := bs_x s + w * r,
               bs_x2 := bs_x2 s + w * r * r, bs_x3 := bs_x3 s + w * r * r * r\<rparr>)"
  by (simp add: sums_of_def total_weight_def Let_def power2_eq_square power3_eq_cube)

lemma collect_side_sums:
  assumes "\<forall>(p, v) \<in> set lvls. 0 \<le> distance p"
  shows "collect_side bounds distance lvls = map (\<lambda>bound. sums_of (reach distance bound lvls)) bounds"
  using assms
proof (induction lvls rule: rev_induct)
  case Nil
  then show ?case by (simp add: collect_side_def reach_def sums_of_def no_levels_def)
next
  case (snoc x lvls)
  obtain p v where x: "x = (p, v)" by force
  have step: "sums_of (reach distance bound (lvls @ [x])) = add_level (real_of_int (distance p)) v bound (sums_of (reach distance bound lvls))" for bound
    by (simp add: reach_def x add_level_def sums_of_append Let_def del: of_nat_unat)
  have "collect_side bounds distance (lvls @ [x]) = map2 (add_level (real_of_int (distance p)) v) bounds (collect_side bounds distance lvls)"
    using snoc.prems by (simp add: collect_side_def x)
  also have "\<dots> = map (\<lambda>bound. sums_of (reach distance bound (lvls @ [x]))) bounds"
    using snoc by (simp add: step map2_map_map [where f = "\<lambda>x. x", simplified])
  finally show ?case .
qed

lemma bucket_moments_are_moments:
  fixes xs
  defines "m \<equiv> bucket_moments (sums_of xs)" and "W \<equiv> total_weight xs (\<lambda>_. 1)"
  shows "wm_mean m = weighted_mean xs" "wm_variance m = central_moment 2 xs"
    "wm_skew m = central_moment 3 xs / sqrt (central_moment 2 xs) ^ 3"
proof -
  have W: "0 \<le> W" using total_weight_mono [of xs "\<lambda>_. 0" "\<lambda>_. 1"] total_weight_scale [of xs 0] by (simp add: W_def)
  have var: "0 \<le> central_moment 2 xs"
    using W total_weight_mono [of xs "\<lambda>_. 0" "\<lambda>d. (d - weighted_mean xs) ^ 2"] total_weight_scale [of xs 0]
    by (simp add: central_moment_def W_def)
  show "wm_mean m = weighted_mean xs" "wm_variance m = central_moment 2 xs"
    "wm_skew m = central_moment 3 xs / sqrt (central_moment 2 xs) ^ 3"
    using W var variance_formula [of xs] skew_formula [of xs]
    by (cases "W = 0"; simp add: m_def W_def bucket_moments_def sums_of_def compute_weighted_moments_def Let_def
        weighted_mean_def [symmetric] power3_eq_cube; simp add: weighted_mean_def central_moment_def)+
qed

lemma best_bid_distance:
  assumes "best_bid_price book = Some best" "(p, v) \<in> set (RBT.entries (sh_bids book))"
  shows "p \<le> best"
proof -
  let ?ks = "RBT.keys (sh_bids book)"
  have "p \<in> set ?ks" using assms(2) by (auto simp: RBT.keys_entries)
  then obtain i where i: "i < length ?ks" "?ks ! i = p" by (auto simp: in_set_conv_nth)
  then have "p \<le> ?ks ! (length ?ks - 1)" using sorted_nth_mono [OF RBT.sorted_keys [of "sh_bids book"], of i "length ?ks - 1"] by auto
  moreover have "last ?ks = ?ks ! (length ?ks - 1)" using i by (intro last_conv_nth) auto
  ultimately show ?thesis using assms(1) by (auto simp: best_bid_price_def split: if_splits)
qed

lemma best_ask_distance:
  assumes "best_ask_price book = Some best" "(p, v) \<in> set (RBT.entries (sh_asks book))"
  shows "best \<le> p"
proof -
  let ?ks = "RBT.keys (sh_asks book)"
  have "p \<in> set ?ks" using assms(2) by (auto simp: RBT.keys_entries)
  then have "hd ?ks \<le> p" using RBT.sorted_keys [of "sh_asks book"] by (cases ?ks) auto
  then show ?thesis using assms(1) by (auto simp: best_ask_price_def split: if_splits)
qed

lemma side_sums:
  "bid_sums bounds book = map (\<lambda>bound. sums_of (near_levels BUY bound book)) bounds"
  "ask_sums bounds book = map (\<lambda>bound. sums_of (near_levels SELL bound book)) bounds"
proof -
  have empty: "no_levels = sums_of []" by (simp add: no_levels_def sums_of_def)
  show "bid_sums bounds book = map (\<lambda>bound. sums_of (near_levels BUY bound book)) bounds"
    by (auto simp: bid_sums_def empty best_bid_distance intro!: collect_side_sums split: option.split)
  show "ask_sums bounds book = map (\<lambda>bound. sums_of (near_levels SELL bound book)) bounds"
    by (auto simp: ask_sums_def empty best_ask_distance intro!: collect_side_sums split: option.split)
qed

lemma imbalance_below_one:
  fixes a b e :: real
  assumes "0 \<le> a" "0 \<le> b" "0 < e"
  shows "\<bar>(b - a) / (b + a + e)\<bar> < 1"
  using assms by (simp add: abs_less_iff divide_less_eq minus_divide_left)

lemma weighted_mean_range:
  assumes "\<forall>(v, d) \<in> set xs. 0 \<le> d \<and> d \<le> bound"
  shows "0 \<le> weighted_mean xs \<and> weighted_mean xs \<le> max 0 (real_of_int bound)"
proof -
  let ?b = "real_of_int bound"
  have "total_weight xs (\<lambda>_. 0) \<le> total_weight xs (\<lambda>_. 1)" by (rule total_weight_mono) simp
  then have W: "0 \<le> total_weight xs (\<lambda>_. 1)" using total_weight_scale [of xs 0 "\<lambda>_. 1"] by simp
  have lo: "total_weight xs (\<lambda>_. 0) \<le> total_weight xs (\<lambda>d. d)" using assms by (intro total_weight_mono) auto
  have hi: "total_weight xs (\<lambda>d. d) \<le> total_weight xs (\<lambda>_. max 0 ?b * 1)"
    using assms by (intro total_weight_mono) (auto simp: le_max_iff_disj)
  show ?thesis
    using W lo hi total_weight_scale [of xs 0 "\<lambda>_. 1"] total_weight_scale [of xs "max 0 ?b" "\<lambda>_. 1"]
    by (cases "total_weight xs (\<lambda>_. 1) = 0") (simp_all add: weighted_mean_def divide_le_eq)
qed

text \<open>
  C36: Synchronising with the copy of the book computes, for every bucket and side, the volume and the
  volume-weighted moments of the levels within the bucket's distance of the best price: the volume
  is the sum of theirs, the mean distance, the variance and the skew are the first three
  standardised moments, so that the guard against a negative variance never acts; the mean distance lies between zero
  and the bucket's bound; and the imbalance is strictly between minus one and one.
\<close>

theorem liquidity_statistics_are_weighted_moments:
  fixes liq book i
  assumes "i < length (bucket_bounds liq)"
  defines "liq' \<equiv> update_liq_state book liq"
    and "xb \<equiv> near_levels BUY (bucket_bounds liq ! i) book" and "xa \<equiv> near_levels SELL (bucket_bounds liq ! i) book"
  shows "lq_bid_volumes liq' ! i = (\<Sum>(v, d) \<leftarrow> xb. v) \<and> lq_ask_volumes liq' ! i = (\<Sum>(v, d) \<leftarrow> xa. v)
    \<and> bid_mean_distances liq' ! i = weighted_mean xb \<and> ask_mean_distances liq' ! i = weighted_mean xa
    \<and> bid_variances liq' ! i = central_moment 2 xb \<and> ask_variances liq' ! i = central_moment 2 xa
    \<and> bid_skews liq' ! i = central_moment 3 xb / sqrt (central_moment 2 xb) ^ 3
    \<and> ask_skews liq' ! i = central_moment 3 xa / sqrt (central_moment 2 xa) ^ 3
    \<and> 0 \<le> weighted_mean xb \<and> weighted_mean xb \<le> max 0 (real_of_int (bucket_bounds liq ! i))
    \<and> 0 \<le> weighted_mean xa \<and> weighted_mean xa \<le> max 0 (real_of_int (bucket_bounds liq ! i))
    \<and> \<bar>imbalances liq' ! i\<bar> < 1"
proof -
  have "\<forall>(v, d) \<in> set xb. 0 \<le> d \<and> d \<le> bucket_bounds liq ! i"
    using best_bid_distance by (auto simp: xb_def reach_def split: option.splits)
  moreover have "\<forall>(v, d) \<in> set xa. 0 \<le> d \<and> d \<le> bucket_bounds liq ! i"
    using best_ask_distance by (auto simp: xa_def reach_def split: option.splits)
  ultimately have means: "0 \<le> weighted_mean xb \<and> weighted_mean xb \<le> max 0 (real_of_int (bucket_bounds liq ! i))"
    "0 \<le> weighted_mean xa \<and> weighted_mean xa \<le> max 0 (real_of_int (bucket_bounds liq ! i))"
    by (simp_all only: weighted_mean_range)
  have "\<bar>bucket_imbalance b a\<bar> < 1" for b a
    unfolding bucket_imbalance_def Let_def by (rule imbalance_below_one) simp_all
  then show ?thesis
    using assms(1) means unfolding liq'_def update_liq_state_def Let_def side_sums
    by (simp add: bucket_moments_are_moments xb_def xa_def) (simp add: sums_of_def)
qed

definition two_sided :: ShadowOrderBook where
  "two_sided = \<lparr>sh_bids = RBT.insert 99 5 (RBT.insert 97 10 RBT.empty), sh_asks = RBT.insert 101 5 RBT.empty\<rparr>"

definition no_liquidity :: LiquidityState where
  "no_liquidity = \<lparr>bucket_bounds = [1, 5, 10], lq_bid_volumes = [], lq_ask_volumes = [], imbalances = [], bid_mean_distances = [],
     bid_variances = [], bid_skews = [], ask_mean_distances = [], ask_variances = [], ask_skews = [],
     has_bid_side = False, has_ask_side = False\<rparr>"

lemma two_sided_near: "near_levels BUY 5 two_sided = [(10, 2), (5, 0)]"
  by code_simp

theorem liquidity_statistics_are_weighted_moments_witness:
  "lq_bid_volumes (update_liq_state two_sided no_liquidity) ! 1 = 15
    \<and> bid_mean_distances (update_liq_state two_sided no_liquidity) ! 1 = 4 / 3"
proof -
  have "1 < length (bucket_bounds no_liquidity)" and "bucket_bounds no_liquidity ! 1 = 5"
    by (simp_all add: no_liquidity_def)
  with liquidity_statistics_are_weighted_moments [of 1 no_liquidity two_sided] show ?thesis
    by (simp add: two_sided_near weighted_mean_def del: near_levels.simps)
qed

end
