(* ===== verification/Market_Dynamics.thy ===== *)
theory Market_Dynamics
  imports Simulation_State
begin

text \<open>
  The price model of the market simulator (apps/market_simulator/market_dynamics.hpp): what order
  to send next, and at which rates orders are sent and cancelled.  The parts of \<open>decide_insert\<close> are
  definitions of their own, in the order and with the draws of the code.

  A \<open>double\<close> is a real number here, so rounding is not modelled.  The object behind \<open>RNG*\<close> is an argument
  (theory Rng); the lemmas about decisions hold for every source with the laws of \<open>random_source\<close>
  and are used for the generator that main.cpp creates.
\<close>

section \<open>Types and constants\<close>

definition LAMBDA_INSERT_BASE :: real where "LAMBDA_INSERT_BASE = 25000"
definition CANCEL_SCALING_FACTOR :: real where "CANCEL_SCALING_FACTOR = 50000"
definition LAMBDA_CANCEL_BASE :: real where "LAMBDA_CANCEL_BASE = LAMBDA_INSERT_BASE / CANCEL_SCALING_FACTOR"
definition BASE_ORDER_SIZE :: real where "BASE_ORDER_SIZE = 25"

datatype AgentType = MM | TAKER | DEEP | NOISE

datatype OrderRegime = MARKETABLE | IMPROVE | PASSIVE

record InsertDecision =
  d_side :: Side
  d_price :: Price_t
  d_quantity :: Volume_t
  d_lifespan :: Lifespan
  cancellation_hazard_mass :: real

section \<open>Side and kind of agent\<close>

definition two_sided_liq :: "LiquidityState \<Rightarrow> bool" where
  "two_sided_liq liq \<longleftrightarrow> has_bid_side liq \<and> has_ask_side liq"

definition buy_probability :: "SimulationState \<Rightarrow> real" where
  "buy_probability st =
    (let fs = flow_state st; liq = liq_state st;
         side_score = 0.9 * flow_imbalance fs + 0.6 * taker_sign_ewma fs
           + (if two_sided_liq liq then 0.4 * imbalances liq ! 0 else 0);
         buy_prob = 0.5 + 0.35 * tanh side_score
     in clamp buy_prob 0.02 0.98)"

definition urgency_of :: "SimulationState \<Rightarrow> real" where
  "urgency_of st =
    (let fs = flow_state st; vol_s = realised_vol_short (vol_state st)
     in clamp (0.35 * \<bar>flow_imbalance fs\<bar> + 0.35 * min vol_s 1 + 0.30 * clamp (trade_excitation fs / 2) 0 1) 0 1)"

definition thinness_of :: "SimulationState \<Rightarrow> real" where
  "thinness_of st =
    (let liq = liq_state st
     in if two_sided_liq liq then 1 / sqrt (1 + real (unat (lq_bid_volumes liq ! 0 + lq_ask_volumes liq ! 0))) else 1)"

definition agent_weights :: "real \<Rightarrow> real \<Rightarrow> real \<times> real \<times> real \<times> real" where
  "agent_weights urgency thinness =
    (let w_mm = 0.45 + 0.25 * (1 - urgency);
         w_taker = 0.20 + 0.55 * urgency + 0.20 * thinness;
         w_deep = 0.25 + 0.15 * (1 - urgency);
         w_noise = 0.10;
         w_sum = w_mm + w_taker + w_deep + w_noise
     in (w_mm / w_sum, w_taker / w_sum, w_deep / w_sum, w_noise / w_sum))"

definition sample_agent :: "'g RNG \<Rightarrow> real \<times> real \<times> real \<times> real \<Rightarrow> 'g \<Rightarrow> AgentType \<times> 'g" where
  "sample_agent rng ws g =
    (let (w_mm, w_taker, w_deep, w_noise) = ws;
         c1 = w_mm; c2 = c1 + w_taker; c3 = c2 + w_deep;
         (u, g') = rng_uniform rng g
     in (if u < c1 then MM else if u < c2 then TAKER else if u < c3 then DEEP else NOISE, g'))"

section \<open>Regime\<close>

definition marketable_probability :: "PriceState \<Rightarrow> AgentType \<Rightarrow> real \<Rightarrow> real" where
  "marketable_probability ps agent urgency =
    (let p = (case agent of TAKER \<Rightarrow> 0.35 + 0.55 * urgency
              | MM \<Rightarrow> 0.05 + 0.10 * urgency
              | _ \<Rightarrow> 0.02 + 0.05 * urgency);
         p1 = (case ps_spread ps of Some s \<Rightarrow> p + 0.12 / (1 + real_of_int s) | None \<Rightarrow> p);
         p2 = (if ps_best_bid ps = None \<or> ps_best_ask ps = None then max p1 0.35 else p1)
     in clamp p2 0.01 0.95)"

definition improve_probability :: "PriceState \<Rightarrow> AgentType \<Rightarrow> real \<Rightarrow> real" where
  "improve_probability ps agent urgency =
    (case ps_spread ps of
       Some s \<Rightarrow> if s > 1
                 then (case agent of MM \<Rightarrow> 0.45 | NOISE \<Rightarrow> 0.10 | _ \<Rightarrow> 0.20) * (1 - 0.6 * urgency)
                 else 0
     | None \<Rightarrow> 0)"

definition draw_regime :: "'g RNG \<Rightarrow> real \<Rightarrow> real \<Rightarrow> 'g \<Rightarrow> OrderRegime \<times> 'g" where
  "draw_regime rng p_marketable p_improve g =
    (let (u_reg, g') = rng_uniform rng g
     in (if u_reg < p_marketable then MARKETABLE
         else if u_reg < p_marketable + p_improve then IMPROVE
         else PASSIVE, g'))"

section \<open>Price\<close>

definition stochastic_round :: "'g RNG \<Rightarrow> real \<Rightarrow> 'g \<Rightarrow> Price_t \<times> 'g" where
  "stochastic_round rng x g =
    (let f = \<lfloor>x\<rfloor>; frac = x - real_of_int f; (u, g') = rng_uniform rng g
     in (f + (if u < frac then 1 else 0), g'))"

definition compute_anchor :: "'g RNG \<Rightarrow> PriceState \<Rightarrow> LatentState \<Rightarrow> Side \<Rightarrow> 'g \<Rightarrow> Price_t \<times> 'g" where
  "compute_anchor rng ps ls sd g =
    (let best_w = 0.65; fv_w = 0.35;
         fv = fair_value ls; last_trade = real_of_int (ps_last_trade_price ps);
         best = (if sd = BUY then ps_best_bid ps else ps_best_ask ps);
         a = (case best of Some b \<Rightarrow> best_w * real_of_int b + fv_w * fv
              | None \<Rightarrow> best_w * last_trade + fv_w * fv);
         (p, g') = stochastic_round rng a g
     in (max MINIMUM_BID p, g'))"

definition marketable_price :: "PriceState \<Rightarrow> Side \<Rightarrow> Price_t \<Rightarrow> Price_t \<times> real" where
  "marketable_price ps sd anchor =
    (case (sd, ps_best_bid ps, ps_best_ask ps) of
       (BUY, bid, Some ask) \<Rightarrow> (ask, case bid of Some b \<Rightarrow> max 0 (real_of_int (ask - b)) | None \<Rightarrow> 0)
     | (SELL, Some bid, ask) \<Rightarrow> (bid, case ask of Some a \<Rightarrow> max 0 (real_of_int (a - bid)) | None \<Rightarrow> 0)
     | (BUY, _, None) \<Rightarrow> (min MAXIMUM_ASK (anchor + 4), 0)
     | (SELL, None, _) \<Rightarrow> (max MINIMUM_BID (anchor - 4), 0))"

definition improve_price :: "Side \<Rightarrow> Price_t \<Rightarrow> Price_t \<Rightarrow> Price_t" where
  "improve_price sd bid ask = (if sd = BUY then min (ask - 1) (bid + 1) else max (bid + 1) (ask - 1))"

definition passive_mean :: "PriceState \<Rightarrow> VolatilityState \<Rightarrow> AgentType \<Rightarrow> real" where
  "passive_mean ps vs agent =
    (let vol_s = realised_vol_short vs; vol_l = realised_vol_long vs;
         vol_regime = (if vol_l > 0 then vol_s / vol_l else 1);
         spread_scale = (case ps_spread ps of Some s \<Rightarrow> real_of_int s | None \<Rightarrow> 1);
         base = 1 + 0.35 * spread_scale + 0.25 * ln (1 + 5 * max 0 (vol_regime - 1)) + 0.35 * jump_intensity vs;
         mean_dist = (case agent of MM \<Rightarrow> base * 0.8 | DEEP \<Rightarrow> base * 2.5 | NOISE \<Rightarrow> base * 1.3 | TAKER \<Rightarrow> base)
     in clamp mean_dist 0.5 50)"

definition passive_price :: "'g RNG \<Rightarrow> PriceState \<Rightarrow> VolatilityState \<Rightarrow> AgentType \<Rightarrow> Side \<Rightarrow> Price_t \<Rightarrow> 'g \<Rightarrow> (Price_t \<times> real) \<times> 'g" where
  "passive_price rng ps vs agent sd anchor g =
    (let (d, g1) = rng_exponential rng (passive_mean ps vs agent) g;
         away = max 0 d
     in if sd = BUY
        then (let (p, g2) = stochastic_round rng (real_of_int anchor - away) g1 in ((max p MINIMUM_BID, away), g2))
        else (let (p, g2) = stochastic_round rng (real_of_int anchor + away) g1 in ((min p MAXIMUM_ASK, away), g2)))"

text \<open>Price, distance and the regime that is left: improving a one-sided book falls back to a passive order.\<close>

definition place_order :: "'g RNG \<Rightarrow> SimulationState \<Rightarrow> AgentType \<Rightarrow> OrderRegime \<Rightarrow> Side \<Rightarrow> Price_t \<Rightarrow> 'g \<Rightarrow> (Price_t \<times> real \<times> OrderRegime) \<times> 'g" where
  "place_order rng st agent regime sd anchor g =
    (let ps = price_state st;
         passive = (let ((p, d), g') = passive_price rng ps (vol_state st) agent sd anchor g in ((p, d, PASSIVE), g'))
     in case regime of
          MARKETABLE \<Rightarrow> (let (p, d) = marketable_price ps sd anchor in ((p, d, MARKETABLE), g))
        | IMPROVE \<Rightarrow> (case (ps_best_bid ps, ps_best_ask ps) of
              (Some bid, Some ask) \<Rightarrow> ((improve_price sd bid ask, 1, IMPROVE), g)
            | _ \<Rightarrow> passive)
        | PASSIVE \<Rightarrow> passive)"

section \<open>Size and cancellation threshold\<close>

definition LOTS :: "Volume_t list" where
  "LOTS = [1, 5, 10, 25, 50, 100]"

definition lot_distance :: "Volume_t \<Rightarrow> Volume_t \<Rightarrow> Volume_t" where
  "lot_distance q l = (if q > l then q - l else l - q)"

definition nearest_lot :: "Volume_t \<Rightarrow> Volume_t" where
  "nearest_lot q =
    fst (fold (\<lambda>l (best, best_diff). let d = lot_distance q l in if d < best_diff then (l, d) else (best, best_diff))
      LOTS (hd LOTS, lot_distance q (hd LOTS)))"

definition apply_lot_clustering :: "'g RNG \<Rightarrow> Volume_t \<Rightarrow> 'g \<Rightarrow> Volume_t \<times> 'g" where
  "apply_lot_clustering rng q g =
    (let (u, g') = rng_uniform rng g in (if u < 0.55 then q else max 1 (nearest_lot q), g'))"

definition size_scale :: "SimulationState \<Rightarrow> Side \<Rightarrow> OrderRegime \<Rightarrow> real \<Rightarrow> real" where
  "size_scale st sd regime urgency =
    (let fs = flow_state st; liq = liq_state st;
         near_depth = (if sd = BUY \<and> has_bid_side liq then real (unat (lq_bid_volumes liq ! 0))
                       else if sd = SELL \<and> has_ask_side liq then real (unat (lq_ask_volumes liq ! 0)) else 0);
         base_scale = max 1 (BASE_ORDER_SIZE + 0.25 * (abs_volume_ewma fs - BASE_ORDER_SIZE));
         depth_factor = sqrt (min near_depth 200 + 1);
         pressure = \<bar>flow_imbalance fs\<bar>;
         urgency_factor = (case regime of MARKETABLE \<Rightarrow> 1 + 1.25 * urgency
                           | IMPROVE \<Rightarrow> 0.9 + 0.4 * (1 - urgency)
                           | PASSIVE \<Rightarrow> 0.9 + 0.6 * (1 - pressure));
         surprise_factor = clamp (1 + volume_surprise fs) 0.75 1.6
     in max 1 (base_scale * (0.6 + 0.4 * depth_factor) * urgency_factor * surprise_factor))"

definition order_quantity :: "'g RNG \<Rightarrow> SimulationState \<Rightarrow> Side \<Rightarrow> OrderRegime \<Rightarrow> real \<Rightarrow> 'g \<Rightarrow> Volume_t \<times> 'g" where
  "order_quantity rng st sd regime urgency g =
    (let p_large = clamp (0.03 + 0.12 * urgency) 0.03 0.18;
         (large_child, g1) = rng_bernoulli rng p_large g;
         ln_sigma = (if large_child then 1 else 0.55);
         ln_mu = ln (size_scale st sd regime urgency);
         (z, g2) = rng_normal rng g1;
         log_qty = ln_mu + ln_sigma * z;
         qty_d = max 1 (exp log_qty);
         qty = word_of_int (round qty_d)
     in apply_lot_clustering rng qty g2)"

definition hazard_threshold :: "'g RNG \<Rightarrow> SimulationState \<Rightarrow> real \<Rightarrow> AgentType \<Rightarrow> Side \<Rightarrow> real \<Rightarrow> 'g \<Rightarrow> real \<times> 'g" where
  "hazard_threshold rng st cumulative_hazard agent sd away g =
    (let (draw, g') = rng_uniform rng g;
         u = max (1 / 10 ^ 12) draw;
         base = - ln u;
         dist_mult = exp (0.04 * away);
         type_mult = (case agent of MM \<Rightarrow> 0.55 | DEEP \<Rightarrow> 2 | _ \<Rightarrow> 1);
         side_flow = (if sd = BUY then 1 else -1);
         adverse = max 0 (- side_flow * flow_imbalance (flow_state st));
         adverse_mult = 1 / (1 + 2.5 * adverse + 1.5 * jump_intensity (vol_state st));
         hazard_increment = clamp (base * dist_mult * type_mult * adverse_mult) 0.02 100
     in (cumulative_hazard + hazard_increment, g'))"

section \<open>The decision and the intensities\<close>

definition decide_insert :: "'g RNG \<Rightarrow> SimulationState \<Rightarrow> real \<Rightarrow> 'g \<Rightarrow> InsertDecision \<times> 'g" where
  "decide_insert rng st cumulative_hazard g =
    (let ps = price_state st;
         (buy, g1) = rng_bernoulli rng (buy_probability st) g;
         sd = (if buy then BUY else SELL);
         urgency = urgency_of st;
         (agent, g2) = sample_agent rng (agent_weights urgency (thinness_of st)) g1;
         (regime0, g3) = draw_regime rng (marketable_probability ps agent urgency) (improve_probability ps agent urgency) g2;
         (anchor, g4) = compute_anchor rng ps (latent_state st) sd g3;
         ((p, away, regime), g5) = place_order rng st agent regime0 sd anchor g4;
         (qty, g6) = order_quantity rng st sd regime urgency g5;
         (threshold, g7) = hazard_threshold rng st cumulative_hazard agent sd away g6
     in (\<lparr>d_side = sd, d_price = p, d_quantity = qty, d_lifespan = GOOD_FOR_DAY,
          cancellation_hazard_mass = threshold\<rparr>, g7))"

definition insert_multiplier :: "SimulationState \<Rightarrow> real" where
  "insert_multiplier st =
    (let fs = flow_state st; liq = liq_state st; vol_s = realised_vol_short (vol_state st);
         depth_near_touch = (if two_sided_liq liq then real (unat (lq_bid_volumes liq ! 0 + lq_ask_volumes liq ! 0)) else 1);
         thinness = 1 / sqrt (1 + depth_near_touch)
     in 1 + 0.45 * \<bar>flow_imbalance fs\<bar> + 0.65 * min vol_s 1.5 + 0.50 * clamp (trade_excitation fs) 0 3 + 0.60 * thinness)"

definition cancel_multiplier :: "SimulationState \<Rightarrow> nat \<Rightarrow> real" where
  "cancel_multiplier st open_orders =
    (let ps = price_state st; fs = flow_state st; vol = vol_state st; vol_s = realised_vol_short vol;
         spread_ticks = (case ps_spread ps of Some s \<Rightarrow> real_of_int s | None \<Rightarrow> 1);
         depth_mult = 0.35 + real open_orders / CANCEL_SCALING_FACTOR;
         vol_mult = 1 + 1.2 * min vol_s 1.5 + 1 * jump_intensity vol;
         flow_mult = 1 + 1 * \<bar>flow_imbalance fs\<bar> + 0.6 * \<bar>taker_sign_ewma fs\<bar>;
         spread_mult = 1 + 0.25 * spread_ticks;
         excite_mult = 1 + 0.6 * clamp (trade_excitation fs) 0 3
     in depth_mult * vol_mult * flow_mult * spread_mult * excite_mult)"

text \<open>The two intensities that \<open>update_intensity\<close> assigns.\<close>

definition update_intensity :: "SimulationState \<Rightarrow> nat \<Rightarrow> real \<times> real" where
  "update_intensity st open_orders =
    (LAMBDA_INSERT_BASE * clamp (insert_multiplier st) 0.3 10,
     LAMBDA_CANCEL_BASE * clamp (cancel_multiplier st open_orders) 0.2 25)"

section \<open>Lots\<close>

text \<open>No lot is nearer than the one chosen.\<close>

definition closer :: "Volume_t \<Rightarrow> Volume_t \<Rightarrow> Volume_t \<times> Volume_t \<Rightarrow> Volume_t \<times> Volume_t" where
  "closer q l b = (let d = lot_distance q l in if d < snd b then (l, d) else b)"

lemma closer_fold:
  assumes "snd b = lot_distance q (fst b)"
  shows "fst (fold (closer q) ls b) \<in> insert (fst b) (set ls)
    \<and> (\<forall>l \<in> insert (fst b) (set ls). lot_distance q (fst (fold (closer q) ls b)) \<le> lot_distance q l)"
  using assms
proof (induction ls arbitrary: b)
  case (Cons l ls)
  have "snd (closer q l b) = lot_distance q (fst (closer q l b))"
    using Cons.prems by (simp add: closer_def Let_def)
  note IH = Cons.IH [OF this]
  have "fst (closer q l b) \<in> {l, fst b}" by (simp add: closer_def Let_def)
  moreover have "lot_distance q (fst (closer q l b)) \<le> lot_distance q l"
    "lot_distance q (fst (closer q l b)) \<le> lot_distance q (fst b)"
    using Cons.prems by (auto simp: closer_def Let_def)
  ultimately show ?case using IH by (auto intro: order_trans)
qed simp

lemma nearest_lot_nearest: "nearest_lot q \<in> set LOTS" "l \<in> set LOTS \<Longrightarrow> lot_distance q (nearest_lot q) \<le> lot_distance q l"
proof -
  have eq: "(\<lambda>l (best, best_diff). let d = lot_distance q l in if d < best_diff then (l, d) else (best, best_diff)) = closer q"
    by (auto simp: closer_def fun_eq_iff)
  have "nearest_lot q = fst (fold (closer q) LOTS (hd LOTS, lot_distance q (hd LOTS)))"
    unfolding nearest_lot_def eq ..
  moreover have "insert (hd LOTS) (set LOTS) = set LOTS" by (simp add: LOTS_def)
  ultimately show "nearest_lot q \<in> set LOTS" "l \<in> set LOTS \<Longrightarrow> lot_distance q (nearest_lot q) \<le> lot_distance q l"
    using closer_fold [of "(hd LOTS, lot_distance q (hd LOTS))" q LOTS] by auto
qed

section \<open>Decisions from any random source\<close>

lemma urgency_range: "0 \<le> urgency_of st \<and> urgency_of st \<le> 1"
  unfolding urgency_of_def Let_def by (rule clamp_range) simp

lemma passive_mean_pos: "0 < passive_mean ps vs agent"
  using clamp_range [of "0.5" 50] unfolding passive_mean_def Let_def by (rule less_le_trans [of 0 "0.5", rotated, OF conjunct1]) simp_all

text \<open>Quotes in the price range of the exchange, not crossed; the other prices an anchor is made of no higher.\<close>

definition quotes_ok :: "PriceState \<Rightarrow> bool" where
  "quotes_ok ps \<longleftrightarrow> (\<forall>b. ps_best_bid ps = Some b \<longrightarrow> MINIMUM_BID \<le> b \<and> b \<le> MAXIMUM_ASK)
    \<and> (\<forall>a. ps_best_ask ps = Some a \<longrightarrow> MINIMUM_BID \<le> a \<and> a \<le> MAXIMUM_ASK)
    \<and> (\<forall>b a. ps_best_bid ps = Some b \<longrightarrow> ps_best_ask ps = Some a \<longrightarrow> b < a)"

lemma improve_price_inside:
  assumes "b < a"
  shows "b \<le> improve_price sd b a" "improve_price sd b a \<le> a"
    and "b + 1 < a \<Longrightarrow> b < improve_price sd b a \<and> improve_price sd b a < a"
  using assms by (auto simp: improve_price_def)

text \<open>The scale of the size, for statistics of trades of at most a hundred thousand.\<close>

lemma size_scale_range:
  assumes "flow_ok 100000 (flow_state st)" "0 \<le> urgency" "urgency \<le> 1"
  shows "1 \<le> size_scale st sd regime urgency \<and> size_scale st sd regime urgency \<le> 565624"
proof -
  define fs where "fs = flow_state st"
  define depth where "depth = (if sd = BUY \<and> has_bid_side (liq_state st) then real (unat (lq_bid_volumes (liq_state st) ! 0))
      else if sd = SELL \<and> has_ask_side (liq_state st) then real (unat (lq_ask_volumes (liq_state st) ! 0)) else 0)"
  define base where "base = max 1 (BASE_ORDER_SIZE + 0.25 * (abs_volume_ewma fs - BASE_ORDER_SIZE))"
  define uf where "uf = (case regime of MARKETABLE \<Rightarrow> 1 + 1.25 * urgency | IMPROVE \<Rightarrow> 0.9 + 0.4 * (1 - urgency)
      | PASSIVE \<Rightarrow> 0.9 + 0.6 * (1 - \<bar>flow_imbalance fs\<bar>))"
  have "0 \<le> depth" by (simp add: depth_def)
  then have root: "0 \<le> sqrt (min depth 200 + 1)" "sqrt (min depth 200 + 1) \<le> 14.2"
    by (simp, intro real_le_lsqrt) (simp_all add: power2_eq_square)
  have volume: "abs_volume_ewma fs \<le> 100000" using assms(1) by (simp add: flow_ok_def fs_def)
  have b: "0 \<le> base" "base \<le> 25018.75"
    using volume by (simp_all add: base_def BASE_ORDER_SIZE_def max_def)
  have u: "0 \<le> uf" "uf \<le> 2.25"
    using assms flow_imbalance_le_1 [OF assms(1)] by (cases regime; simp add: uf_def fs_def field_simps)+
  have c: "0 \<le> clamp (1 + volume_surprise fs) 0.75 1.6" "clamp (1 + volume_surprise fs) 0.75 1.6 \<le> 1.6"
    by (simp_all add: clamp_def)
  have "base * (0.6 + 0.4 * sqrt (min depth 200 + 1)) * uf * clamp (1 + volume_surprise fs) 0.75 1.6
      \<le> 25018.75 * (0.6 + 0.4 * 14.2) * 2.25 * 1.6"
    using root b u c by (intro mult_mono add_mono mult_nonneg_nonneg) simp_all
  moreover have "size_scale st sd regime urgency =
      max 1 (base * (0.6 + 0.4 * sqrt (min depth 200 + 1)) * uf * clamp (1 + volume_surprise fs) 0.75 1.6)"
    unfolding size_scale_def Let_def fs_def [symmetric] depth_def [symmetric] base_def [symmetric] uf_def [symmetric] ..
  ultimately show ?thesis by simp
qed

lemma exp_8: "exp (8 :: real) \<le> 6561"
proof -
  have "exp (8 :: real) = exp 1 ^ 8" by (simp flip: exp_of_nat_mult)
  also have "\<dots> \<le> 3 ^ 8" using exp_le by (intro power_mono) simp_all
  finally show ?thesis by simp
qed

lemma size_before_clustering:
  fixes s z sigma :: real
  assumes "1 \<le> s" "s \<le> 565624" "\<bar>z\<bar> \<le> 8" "0 \<le> sigma" "sigma \<le> 1"
  shows "0 < unat (word_of_int (round (max 1 (exp (ln s + sigma * z)))) :: Volume_t)"
    and "unat (word_of_int (round (max 1 (exp (ln s + sigma * z)))) :: Volume_t) = nat (round (max 1 (exp (ln s + sigma * z))))"
proof -
  let ?q = "max 1 (exp (ln s + sigma * z))"
  have "sigma * z \<le> 1 * 8" using assms(3-5) by (intro order_trans [OF mult_left_mono [of z "\<bar>z\<bar>"] mult_mono]) simp_all
  then have "exp (ln s + sigma * z) \<le> s * exp 8" using assms(1) by (simp add: exp_add)
  also have "\<dots> \<le> 565624 * 6561" using assms(1,2) exp_8 by (intro mult_mono) simp_all
  finally have "?q \<le> 3711059064" "1 \<le> ?q" by simp_all
  then have r: "1 \<le> round ?q" "round ?q \<le> 3711059064"
    using round_mono [of 1 ?q] round_mono [of ?q 3711059064] by simp_all
  then show "unat (word_of_int (round ?q) :: Volume_t) = nat (round ?q)"
    by (simp add: unsigned_of_int take_bit_int_eq_self)
  with r show "0 < unat (word_of_int (round ?q) :: Volume_t)" by simp
qed

lemma lot_pos: "0 < q \<Longrightarrow> 0 < fst (apply_lot_clustering rng q g)"
  using less_le_trans [of 0 1 "max 1 (nearest_lot q)"] by (simp add: apply_lot_clustering_def split_beta)

lemma hazard_threshold_range:
  "h + 0.02 \<le> fst (hazard_threshold rng st h agent sd away g) \<and> fst (hazard_threshold rng st h agent sd away g) \<le> h + 100"
  using clamp_range [of "0.02" 100] unfolding hazard_threshold_def Let_def by (simp add: split_beta)

context random_source
begin

lemma stochastic_round_range: "\<lfloor>x\<rfloor> \<le> fst (stochastic_round rng x g) \<and> fst (stochastic_round rng x g) \<le> \<lceil>x\<rceil>"
proof -
  define u where "u = fst (rng_uniform rng g)"
  have "0 < u" using uniform_range by (simp add: u_def)
  then have "u < x - real_of_int \<lfloor>x\<rfloor> \<Longrightarrow> \<lceil>x\<rceil> = \<lfloor>x\<rfloor> + 1" by linarith
  then show ?thesis by (simp add: stochastic_round_def Let_def split_beta u_def [symmetric])
qed

lemma anchor_range:
  assumes "quotes_ok ps" "ps_last_trade_price ps \<le> MAXIMUM_ASK" "fair_value ls \<le> real_of_int MAXIMUM_ASK"
  shows "MINIMUM_BID \<le> fst (compute_anchor rng ps ls sd g) \<and> fst (compute_anchor rng ps ls sd g) \<le> MAXIMUM_ASK"
proof -
  define best where "best = (if sd = BUY then ps_best_bid ps else ps_best_ask ps)"
  define a where "a = (case best of Some b \<Rightarrow> 0.65 * real_of_int b + 0.35 * fair_value ls
      | None \<Rightarrow> 0.65 * real_of_int (ps_last_trade_price ps) + 0.35 * fair_value ls)"
  have "case best of None \<Rightarrow> True | Some b \<Rightarrow> b \<le> MAXIMUM_ASK"
    using assms(1) by (auto simp: best_def quotes_ok_def split: option.split)
  then have "a \<le> real_of_int MAXIMUM_ASK"
    using assms(2,3) by (auto simp: a_def MAXIMUM_ASK_def split: option.splits)
  then have "fst (stochastic_round rng a g) \<le> MAXIMUM_ASK"
    using stochastic_round_range [of a g] by linarith
  then show ?thesis
    unfolding compute_anchor_def Let_def best_def [symmetric] a_def [symmetric]
    by (simp add: split_beta MINIMUM_BID_def MAXIMUM_ASK_def)
qed

lemma passive_price_range:
  assumes "MINIMUM_BID \<le> anchor" "anchor \<le> MAXIMUM_ASK"
  shows "MINIMUM_BID \<le> fst (fst (passive_price rng ps vs agent sd anchor g)) \<and> fst (fst (passive_price rng ps vs agent sd anchor g)) \<le> MAXIMUM_ASK"
proof -
  define away where "away = max 0 (fst (rng_exponential rng (passive_mean ps vs agent) g))"
  define g1 where "g1 = snd (rng_exponential rng (passive_mean ps vs agent) g)"
  have "fst (stochastic_round rng (real_of_int anchor - away) g1) \<le> anchor"
    "anchor \<le> fst (stochastic_round rng (real_of_int anchor + away) g1)"
    using stochastic_round_range [of "real_of_int anchor - away" g1] stochastic_round_range [of "real_of_int anchor + away" g1]
    by (auto simp: away_def) linarith+
  then show ?thesis using assms
    by (auto simp: passive_price_def Let_def split_beta away_def [symmetric] g1_def [symmetric] MINIMUM_BID_def MAXIMUM_ASK_def)
qed

lemma place_order_range:
  assumes "quotes_ok (price_state st)" "MINIMUM_BID \<le> anchor" "anchor \<le> MAXIMUM_ASK"
  shows "MINIMUM_BID \<le> fst (fst (place_order rng st agent regime sd anchor g))
    \<and> fst (fst (place_order rng st agent regime sd anchor g)) \<le> MAXIMUM_ASK"
proof -
  note pas = passive_price_range [OF assms(2,3), of "price_state st" "vol_state st" agent sd g]
  have market: "MINIMUM_BID \<le> fst (marketable_price (price_state st) sd anchor) \<and> fst (marketable_price (price_state st) sd anchor) \<le> MAXIMUM_ASK"
    using assms by (cases sd) (auto simp: marketable_price_def quotes_ok_def MINIMUM_BID_def MAXIMUM_ASK_def split: option.split)
  have improve: "MINIMUM_BID \<le> improve_price sd b a \<and> improve_price sd b a \<le> MAXIMUM_ASK"
    if "ps_best_bid (price_state st) = Some b" "ps_best_ask (price_state st) = Some a" for b a
    using assms(1) that improve_price_inside [of b a sd] unfolding quotes_ok_def by force
  show ?thesis
    using pas market improve
    by (auto simp: place_order_def Let_def split_beta split: OrderRegime.split option.split)
qed

lemma order_quantity_pos:
  assumes "flow_ok 100000 (flow_state st)" "0 \<le> urgency" "urgency \<le> 1"
  shows "0 < fst (order_quantity rng st sd regime urgency g)"
proof -
  define p where "p = clamp (0.03 + 0.12 * urgency) 0.03 0.18"
  define sigma where "sigma = (if fst (rng_bernoulli rng p g) then 1 else 0.55 :: real)"
  define g1 where "g1 = snd (rng_bernoulli rng p g)"
  define z where "z = fst (rng_normal rng g1)"
  define s where "s = size_scale st sd regime urgency"
  have s: "1 \<le> s" "s \<le> 565624" using size_scale_range [OF assms] by (simp_all add: s_def)
  have z: "\<bar>z\<bar> \<le> 8" using normal_range by (simp add: z_def)
  have "0 < (word_of_int (round (max 1 (exp (ln s + sigma * z)))) :: Volume_t)"
    unfolding word_gt_0_unat using s z by (intro size_before_clustering(1)) (simp_all add: sigma_def)
  then have "0 < fst (apply_lot_clustering rng (word_of_int (round (max 1 (exp (ln s + sigma * z))))) (snd (rng_normal rng g1)))"
    by (rule lot_pos)
  moreover have "order_quantity rng st sd regime urgency g =
      apply_lot_clustering rng (word_of_int (round (max 1 (exp (ln s + sigma * z))))) (snd (rng_normal rng g1))"
    unfolding order_quantity_def Let_def split_beta p_def [symmetric] sigma_def [symmetric] g1_def [symmetric]
      z_def [symmetric] s_def [symmetric] by (simp add: split_beta sigma_def)
  ultimately show ?thesis by simp
qed

lemma decide_insert_valid:
  fixes st h g
  assumes "flow_ok 100000 (flow_state st)" "quotes_ok (price_state st)"
    "ps_last_trade_price (price_state st) \<le> MAXIMUM_ASK" "fair_value (latent_state st) \<le> real_of_int MAXIMUM_ASK"
  defines "d \<equiv> fst (decide_insert rng st h g)"
  shows "MINIMUM_BID \<le> d_price d" "d_price d \<le> MAXIMUM_ASK" "0 < d_quantity d" "d_lifespan d = GOOD_FOR_DAY"
    "h + 0.02 \<le> cancellation_hazard_mass d" "cancellation_hazard_mass d \<le> h + 100"
proof -
  have price: "MINIMUM_BID \<le> fst (fst (place_order rng st agent regime sd (fst (compute_anchor rng (price_state st) (latent_state st) sd g3)) g4))
     \<and> fst (fst (place_order rng st agent regime sd (fst (compute_anchor rng (price_state st) (latent_state st) sd g3)) g4)) \<le> MAXIMUM_ASK"
    for agent regime sd g3 g4
    using anchor_range [OF assms(2-4), of sd g3] by (intro place_order_range assms) simp_all
  note qty = order_quantity_pos [OF assms(1) conjunct1 [OF urgency_range] conjunct2 [OF urgency_range]]
  note unfold = d_def decide_insert_def Let_def split_beta fst_conv snd_conv InsertDecision.simps
  show "MINIMUM_BID \<le> d_price d" unfolding unfold by (rule price [THEN conjunct1])
  show "d_price d \<le> MAXIMUM_ASK" unfolding unfold by (rule price [THEN conjunct2])
  show "0 < d_quantity d" unfolding unfold by (rule qty)
  show "d_lifespan d = GOOD_FOR_DAY" unfolding unfold ..
  show "h + 0.02 \<le> cancellation_hazard_mass d" unfolding unfold by (rule hazard_threshold_range [THEN conjunct1])
  show "cancellation_hazard_mass d \<le> h + 100" unfolding unfold by (rule hazard_threshold_range [THEN conjunct2])
qed

end


definition no_quotes :: PriceState where
  "no_quotes = \<lparr>ps_best_bid = None, ps_best_ask = None, ps_spread = None, ps_last_trade_price = 0\<rparr>"

definition fresh_state :: SimulationState where
  "fresh_state = SimulationState_init [1, 5, 10] \<lparr>sim_time = 0, time_since_event = 0\<rparr> no_quotes no_liquidity"


section \<open>The intensities\<close>

lemma root_fraction: "0 \<le> x \<Longrightarrow> 0 \<le> 1 / sqrt (1 + x) \<and> 1 / sqrt (1 + x) \<le> 1"
  by (simp add: divide_le_eq)

lemma insert_multiplier_range:
  assumes "stats_ok bound st"
  shows "1 \<le> insert_multiplier st \<and> insert_multiplier st \<le> 4.525"
proof -
  define depth where "depth = (if two_sided_liq (liq_state st)
      then real (unat (lq_bid_volumes (liq_state st) ! 0 + lq_ask_volumes (liq_state st) ! 0)) else 1)"
  have "0 \<le> depth" by (simp add: depth_def)
  note thin = root_fraction [OF this]
  have ok: "vol_ok (vol_state st)" "flow_ok bound (flow_state st)" using assms by (simp_all add: stats_ok_def)
  have vol: "0 \<le> min (realised_vol_short (vol_state st)) 1.5" "min (realised_vol_short (vol_state st)) 1.5 \<le> 1.5"
    using ok(1) by (simp_all add: vol_ok_def realised_vol_short_def)
  note flow = flow_imbalance_le_1 [OF ok(2)] and exc = clamp_range [of 0 3 "trade_excitation (flow_state st)"]
  have "insert_multiplier st = 1 + 0.45 * \<bar>flow_imbalance (flow_state st)\<bar> + 0.65 * min (realised_vol_short (vol_state st)) 1.5
      + 0.50 * clamp (trade_excitation (flow_state st)) 0 3 + 0.60 * (1 / sqrt (1 + depth))"
    unfolding insert_multiplier_def Let_def depth_def [symmetric] ..
  then show ?thesis using thin vol flow exc by simp
qed

lemma cancel_multiplier_mono:
  assumes "stats_ok bound st" "m \<le> n" "\<And>s. ps_spread (price_state st) = Some s \<Longrightarrow> 0 \<le> s"
  shows "cancel_multiplier st m \<le> cancel_multiplier st n"
proof -
  have ok: "vol_ok (vol_state st)" using assms by (simp_all add: stats_ok_def)
  then have "0 \<le> min (realised_vol_short (vol_state st)) 1.5" "0 \<le> jump_intensity (vol_state st)"
    by (simp_all add: vol_ok_def realised_vol_short_def)
  moreover have "0 \<le> clamp (trade_excitation (flow_state st)) 0 3" by (simp add: clamp_def)
  moreover have "0 \<le> (case ps_spread (price_state st) of Some s \<Rightarrow> real_of_int s | None \<Rightarrow> 1)"
    using assms(3) by (simp split: option.split)
  ultimately show ?thesis
    unfolding cancel_multiplier_def Let_def using assms(2)
    by (intro mult_right_mono add_mono divide_right_mono) (simp_all add: CANCEL_SCALING_FACTOR_def)
qed

text \<open>
  C38: The intensities stay within bounds.  The limits on the insertion rate never act: it is the
  baseline times the computed factor, between 25000 and 113125 per second.  The cancellation rate lies between
  0.1 and 12.5, so it is positive and the order manager's timers always expire, and does not fall when there are more open orders.
\<close>

theorem intensities_are_bounded:
  fixes st m n
  assumes "stats_ok bound st" "m \<le> n" "\<And>s. ps_spread (price_state st) = Some s \<Longrightarrow> 0 \<le> s"
  defines "li \<equiv> fst (update_intensity st m)" and "lc \<equiv> snd (update_intensity st m)"
  shows "li = LAMBDA_INSERT_BASE * insert_multiplier st \<and> 25000 \<le> li \<and> li \<le> 113125
    \<and> 0.1 \<le> lc \<and> lc \<le> 12.5 \<and> lc \<le> snd (update_intensity st n)"
proof -
  note ins = insert_multiplier_range [OF assms(1)]
  have "clamp (insert_multiplier st) 0.3 10 = insert_multiplier st" using ins by (intro clamp_id) simp_all
  then have li: "li = 25000 * insert_multiplier st" by (simp add: li_def update_intensity_def LAMBDA_INSERT_BASE_def)
  have lc: "snd (update_intensity st k) = 0.5 * clamp (cancel_multiplier st k) 0.2 25" for k
    by (simp add: update_intensity_def LAMBDA_CANCEL_BASE_def LAMBDA_INSERT_BASE_def CANCEL_SCALING_FACTOR_def)
  have "clamp (cancel_multiplier st m) 0.2 25 \<le> clamp (cancel_multiplier st n) 0.2 25"
    using cancel_multiplier_mono [OF assms(1-3)] by (simp add: clamp_def)
  then show ?thesis
    using ins clamp_range [of "0.2" 25 "cancel_multiplier st m"] unfolding lc_def lc li LAMBDA_INSERT_BASE_def by simp
qed

theorem intensities_are_bounded_witness:
  "0.1 \<le> snd (update_intensity fresh_state 3) \<and> snd (update_intensity fresh_state 3) \<le> snd (update_intensity fresh_state 8)"
proof -
  have "stats_ok 0 fresh_state" unfolding fresh_state_def by (rule SimulationState_init_ok) simp
  moreover have "0 \<le> s" if "ps_spread (price_state fresh_state) = Some s" for s
    using that by (simp add: fresh_state_def SimulationState_init_def no_quotes_def)
  ultimately show ?thesis using intensities_are_bounded [of 0 fresh_state 3 8] by simp
qed

end
