(* ===== verification/Order_Manager.thy ===== *)
theory Order_Manager
  imports Complex_Main Connectivity "HOL-Library.Multiset"
begin

text \<open>
  The order manager of the market simulator (apps/market_simulator/order_manager.hpp): it keeps the
  open orders and cancels each once the cumulative hazard passes the order's threshold.

  A \<open>double\<close> is a real number here: the hazards are compared and added, and rounding is not modelled.
  The steady clock is read as a count of nanoseconds, which is an argument of each handler that
  reads it.  All handlers run on the strand, so \<open>dispatch\<close> calls them at once.  The request counter
  and the connection, which the class refers to, are fields of the record; timer operations and
  what the connection asks of the network are listed in \<open>om_actions\<close>.
\<close>

section \<open>The expiry queue\<close>

record HazardEntry =
  he_threshold :: real
  he_order_id :: Id_t

text \<open>
  The interface of a priority queue whose top has the least key.  Which of several entries with
  the same key is on top is left open.
\<close>

locale min_queue =
  fixes inv :: "'q \<Rightarrow> bool" and entries :: "'q \<Rightarrow> 'e multiset" and key :: "'e \<Rightarrow> 'k::linorder"
    and push :: "'e \<Rightarrow> 'q \<Rightarrow> 'q" and top_of :: "'q \<Rightarrow> 'e option" and pop :: "'q \<Rightarrow> 'q"
  assumes push_law: "inv q \<Longrightarrow> inv (push e q) \<and> entries (push e q) = add_mset e (entries q)"
    and top_none: "inv q \<Longrightarrow> top_of q = None \<Longrightarrow> entries q = {#}"
    and top_some: "inv q \<Longrightarrow> top_of q = Some e \<Longrightarrow>
      inv (pop q) \<and> entries q = add_mset e (entries (pop q)) \<and> (\<forall>f \<in># entries q. key e \<le> key f)"
begin

lemma not_due_top:
  assumes "inv q" and "\<And>e. top_of q = Some e \<Longrightarrow> h < key e" and "f \<in># entries q"
  shows "h < key f"
proof (cases "top_of q")
  case None
  then show ?thesis using top_none [OF assms(1)] assms(3) by simp
next
  case (Some e)
  then have "key e \<le> key f" using top_some [OF assms(1)] assms(3) by blast
  with assms(2) [OF Some] show ?thesis by (rule less_le_trans)
qed

end

text \<open>The queue as a list in the order of the thresholds.\<close>

type_synonym expiry_list = "HazardEntry list"

definition expiry_push :: "HazardEntry \<Rightarrow> expiry_list \<Rightarrow> expiry_list" where
  "expiry_push e q = insort_key he_threshold e q"

fun expiry_top :: "expiry_list \<Rightarrow> HazardEntry option" where
  "expiry_top [] = None"
| "expiry_top (e # q) = Some e"

definition expiry_pop :: "expiry_list \<Rightarrow> expiry_list" where
  "expiry_pop q = tl q"

definition expiry_inv :: "expiry_list \<Rightarrow> bool" where
  "expiry_inv q \<longleftrightarrow> sorted (map he_threshold q)"

interpretation expiry: min_queue expiry_inv mset he_threshold expiry_push expiry_top expiry_pop
proof
  fix q :: expiry_list and e
  assume inv: "expiry_inv q"
  show "expiry_inv (expiry_push e q) \<and> mset (expiry_push e q) = add_mset e (mset q)"
    using inv by (simp add: expiry_inv_def expiry_push_def sorted_insort_key)
  show "mset q = {#}" if "expiry_top q = None" using that by (cases q) simp_all
  show "expiry_inv (expiry_pop q) \<and> mset q = add_mset e (mset (expiry_pop q)) \<and> (\<forall>f \<in># mset q. he_threshold e \<le> he_threshold f)"
    if "expiry_top q = Some e"
    using that inv by (cases q) (auto simp: expiry_inv_def expiry_pop_def)
qed

section \<open>The class\<close>

datatype OmAction = Timer_Cancel | Timer_Wait real | Post_Fire | Om_Io IoAction

record OrderManager =
  om_connection :: Connection
  client_request_id :: Id_t
  cumulative_hazard :: real
  lambda_cancel :: real
  last_update_time :: int
  expiry_queue :: expiry_list
  active_orders :: "Id_t set"
  pending_inserts :: "Id_t \<rightharpoonup> real"
  om_actions :: "OmAction list"

definition OrderManager_init :: "Connection \<Rightarrow> Id_t \<Rightarrow> OrderManager" where
  "OrderManager_init conn request_id =
    \<lparr>om_connection = conn, client_request_id = request_id, cumulative_hazard = 0, lambda_cancel = 0,
     last_update_time = 0, expiry_queue = [], active_orders = {}, pending_inserts = Map.empty, om_actions = []\<rparr>"

definition act :: "OmAction \<Rightarrow> OrderManager \<Rightarrow> OrderManager" where
  "act a om = om\<lparr>om_actions := om_actions om @ [a]\<rparr>"

definition register_pending_insert :: "Id_t \<Rightarrow> real \<Rightarrow> OrderManager \<Rightarrow> OrderManager" where
  "register_pending_insert req threshold om = om\<lparr>pending_inserts := (pending_inserts om)(req \<mapsto> threshold)\<rparr>"

definition on_partial_fill :: "PayloadPartialFill \<Rightarrow> OrderManager \<Rightarrow> OrderManager" where
  "on_partial_fill msg om =
    (if 0 < PayloadPartialFill.leaves_quantity msg then om
     else om\<lparr>active_orders := active_orders om - {PayloadPartialFill.exchange_order_id msg}\<rparr>)"

definition open_order_count :: "OrderManager \<Rightarrow> nat" where
  "open_order_count om = card (active_orders om)"

definition advance_hazard_to_now :: "int \<Rightarrow> OrderManager \<Rightarrow> OrderManager" where
  "advance_hazard_to_now now om =
    (let om1 = (if last_update_time om \<noteq> 0 \<and> 0 < lambda_cancel om
                then om\<lparr>cumulative_hazard := cumulative_hazard om
                        + lambda_cancel om * (real_of_int (now - last_update_time om) / 10 ^ 9)\<rparr>
                else om)
     in om1\<lparr>last_update_time := now\<rparr>)"

lemma expiry_pop_shorter: "expiry_top q = Some e \<Longrightarrow> length (expiry_pop q) < length q"
  by (cases q) (simp_all add: expiry_pop_def)

function prune_top :: "OrderManager \<Rightarrow> OrderManager" where
  "prune_top om =
    (case expiry_top (expiry_queue om) of None \<Rightarrow> om
     | Some entry \<Rightarrow> if he_order_id entry \<in> active_orders om then om
                   else prune_top (om\<lparr>expiry_queue := expiry_pop (expiry_queue om)\<rparr>))"
  by auto

termination by (relation "measure (\<lambda>om. length (expiry_queue om))") (simp_all add: expiry_pop_shorter)

declare prune_top.simps [simp del]

definition reschedule_next_expiry :: "int \<Rightarrow> OrderManager \<Rightarrow> OrderManager" where
  "reschedule_next_expiry now om0 =
    (let om = advance_hazard_to_now now (act Timer_Cancel om0) in
     if lambda_cancel om \<le> 0 then om
     else let om1 = prune_top om in
       case expiry_top (expiry_queue om1) of None \<Rightarrow> om1
       | Some nxt \<Rightarrow>
           let remaining_hazard = he_threshold nxt - cumulative_hazard om1 in
           if remaining_hazard \<le> 0 then act Post_Fire om1
           else act (Timer_Wait (remaining_hazard / lambda_cancel om1)) om1)"

definition on_insert_acknowledged :: "int \<Rightarrow> PayloadConfirmOrderInserted \<Rightarrow> OrderManager \<Rightarrow> OrderManager" where
  "on_insert_acknowledged now msg om =
    (let client_id = PayloadConfirmOrderInserted.client_request_id msg;
         exchange_id = PayloadConfirmOrderInserted.exchange_order_id msg in
     case pending_inserts om client_id of None \<Rightarrow> om
     | Some threshold \<Rightarrow>
         reschedule_next_expiry now
           (om\<lparr>pending_inserts := (pending_inserts om)(client_id := None),
               active_orders := insert exchange_id (active_orders om),
               expiry_queue := expiry_push \<lparr>he_threshold = threshold, he_order_id = exchange_id\<rparr> (expiry_queue om)\<rparr>))"

definition update_cancel_rate :: "int \<Rightarrow> int \<Rightarrow> real \<Rightarrow> OrderManager \<Rightarrow> OrderManager" where
  "update_cancel_rate now1 now2 rate om =
    reschedule_next_expiry now2 ((advance_hazard_to_now now1 om)\<lparr>lambda_cancel := rate\<rparr>)"

definition send_cancel :: "Id_t \<Rightarrow> OrderManager \<Rightarrow> OrderManager" where
  "send_cancel exchange_id om =
    (let client_id = client_request_id om;
         (c, acts) = send_message (om_connection om) (type_code CANCEL_ORDER)
           (image PayloadCancelOrder_codec (make_cancel_order client_id exchange_id))
     in om\<lparr>client_request_id := client_id + 1, om_connection := c, om_actions := om_actions om @ map Om_Io acts\<rparr>)"

lemma prune_top_shorter: "length (expiry_queue (prune_top om)) \<le> length (expiry_queue om)"
proof (induction om rule: prune_top.induct)
  case (1 om)
  then show ?case using expiry_pop_shorter [of "expiry_queue om"]
    by (subst prune_top.simps) (force split: option.split intro: less_imp_le dest: le_less_trans)
qed

lemma send_cancel_fields [simp]:
  "expiry_queue (send_cancel i om) = expiry_queue om" "active_orders (send_cancel i om) = active_orders om"
  "cumulative_hazard (send_cancel i om) = cumulative_hazard om" "lambda_cancel (send_cancel i om) = lambda_cancel om"
  "pending_inserts (send_cancel i om) = pending_inserts om" "last_update_time (send_cancel i om) = last_update_time om"
  by (simp_all add: send_cancel_def Let_def split: prod.split)

text \<open>The loop of \<open>fire_next_expiry\<close>.\<close>

function fire_due :: "OrderManager \<Rightarrow> OrderManager" where
  "fire_due om =
    (case expiry_top (expiry_queue om) of None \<Rightarrow> om
     | Some entry \<Rightarrow>
         if cumulative_hazard om < he_threshold entry then om
         else let om1 = om\<lparr>expiry_queue := expiry_pop (expiry_queue om)\<rparr> in
           if he_order_id entry \<notin> active_orders om1 then fire_due (prune_top om1)
           else fire_due (prune_top (send_cancel (he_order_id entry)
                  (om1\<lparr>active_orders := active_orders om1 - {he_order_id entry}\<rparr>))))"
  by auto

termination
  by (relation "measure (\<lambda>om. length (expiry_queue om))")
    (auto intro!: le_less_trans [OF prune_top_shorter] expiry_pop_shorter)

declare fire_due.simps [simp del]

definition fire_next_expiry :: "bool \<Rightarrow> int \<Rightarrow> int \<Rightarrow> OrderManager \<Rightarrow> OrderManager" where
  "fire_next_expiry aborted now1 now2 om =
    (if aborted then om
     else let om1 = advance_hazard_to_now now1 om in
       if lambda_cancel om1 \<le> 0 then om1
       else reschedule_next_expiry now2 (fire_due (prune_top om1)))"


section \<open>What the loops do\<close>

lemma prune_top_spec:
  assumes "expiry_inv (expiry_queue om)"
  shows "\<exists>q. prune_top om = om\<lparr>expiry_queue := q\<rparr> \<and> expiry_inv q \<and> set q \<subseteq> set (expiry_queue om) \<and>
    (\<forall>e \<in> set (expiry_queue om). he_order_id e \<in> active_orders om \<longrightarrow> e \<in> set q) \<and>
    (\<forall>e. expiry_top q = Some e \<longrightarrow> he_order_id e \<in> active_orders om)"
  using assms
proof (induction om rule: prune_top.induct)
  case (1 om)
  let ?q = "expiry_queue om"
  show ?case
  proof (cases "\<exists>e. expiry_top ?q = Some e \<and> he_order_id e \<notin> active_orders om")
    case True
    then obtain e where e: "expiry_top ?q = Some e" "he_order_id e \<notin> active_orders om" by blast
    note p = expiry.top_some [OF 1(2) e(1)]
    have sub: "set ?q = insert e (set (expiry_pop ?q))" using p by (metis set_mset_mset set_mset_add_mset_insert)
    obtain q where q: "prune_top (om\<lparr>expiry_queue := expiry_pop ?q\<rparr>) = om\<lparr>expiry_queue := q\<rparr>" "expiry_inv q"
      "set q \<subseteq> set (expiry_pop ?q)" "\<forall>e \<in> set (expiry_pop ?q). he_order_id e \<in> active_orders om \<longrightarrow> e \<in> set q"
      "\<forall>e. expiry_top q = Some e \<longrightarrow> he_order_id e \<in> active_orders om"
      using 1(1) [OF e] p by auto
    have "prune_top om = om\<lparr>expiry_queue := q\<rparr>" using e q(1) by (subst prune_top.simps) simp
    then show ?thesis using q(2-5) e(2) unfolding sub by blast
  next
    case False
    then have "prune_top om = om" by (subst prune_top.simps) (auto split: option.split)
    then show ?thesis using 1(2) False by (intro exI [of _ ?q]) auto
  qed
qed

lemma send_cancel_updates:
  "send_cancel i (om\<lparr>expiry_queue := q\<rparr>) = (send_cancel i om)\<lparr>expiry_queue := q\<rparr>"
  "send_cancel i (om\<lparr>active_orders := A\<rparr>) = (send_cancel i om)\<lparr>active_orders := A\<rparr>"
  by (simp_all add: send_cancel_def Let_def split: prod.split)

lemma send_cancels_updates:
  "fold send_cancel is (om\<lparr>expiry_queue := q\<rparr>) = (fold send_cancel is om)\<lparr>expiry_queue := q\<rparr>"
  "fold send_cancel is (om\<lparr>active_orders := A\<rparr>) = (fold send_cancel is om)\<lparr>active_orders := A\<rparr>"
  by (induction "is" arbitrary: om) (simp_all add: send_cancel_updates)

definition due :: "OrderManager \<Rightarrow> HazardEntry \<Rightarrow> bool" where
  "due om e \<longleftrightarrow> e \<in> set (expiry_queue om) \<and> he_order_id e \<in> active_orders om \<and> he_threshold e \<le> cumulative_hazard om"

text \<open>The entries \<open>es\<close> are the due ones of open orders, one for each order, in the order of their thresholds.\<close>

definition fired :: "OrderManager \<Rightarrow> HazardEntry list \<Rightarrow> OrderManager \<Rightarrow> bool" where
  "fired om es om' \<longleftrightarrow>
     (\<exists>q. om' = (fold send_cancel (map he_order_id es) om)
          \<lparr>expiry_queue := q, active_orders := active_orders om - set (map he_order_id es)\<rparr> \<and>
        expiry_inv q \<and> set q \<subseteq> set (expiry_queue om) \<and>
        (\<forall>e \<in> set (expiry_queue om). he_order_id e \<in> active_orders om - set (map he_order_id es) \<longrightarrow> e \<in> set q) \<and>
        (\<forall>e \<in> set q. cumulative_hazard om < he_threshold e)) \<and>
     distinct (map he_order_id es) \<and> sorted (map he_threshold es) \<and> (\<forall>e \<in> set es. due om e) \<and>
     he_order_id ` {e. due om e} \<subseteq> set (map he_order_id es)"

lemma fired_none:
  assumes "expiry_inv (expiry_queue om)" and "\<And>e. expiry_top (expiry_queue om) = Some e \<Longrightarrow> cumulative_hazard om < he_threshold e"
  shows "fired om [] om"
proof -
  have "cumulative_hazard om < he_threshold e" if "e \<in> set (expiry_queue om)" for e
    using expiry.not_due_top [OF assms(1), where h = "cumulative_hazard om"] assms(2) that by simp
  then show ?thesis using assms(1) by (force simp: fired_def due_def intro: exI [of _ "expiry_queue om"])
qed

lemma fired_skip:
  assumes "fired (om\<lparr>expiry_queue := q\<rparr>) es om'" and "set q \<subseteq> set (expiry_queue om)"
    and "\<forall>e \<in> set (expiry_queue om). he_order_id e \<in> active_orders om \<longrightarrow> e \<in> set q"
  shows "fired om es om'"
  using assms by (fastforce simp: fired_def due_def send_cancels_updates)

lemma fired_cancel:
  assumes f: "fired (send_cancel (he_order_id e) (om\<lparr>expiry_queue := q, active_orders := active_orders om - {he_order_id e}\<rparr>)) es om'"
    and q: "set q \<subseteq> set (expiry_queue om)" "\<forall>f \<in> set (expiry_queue om). he_order_id f \<in> active_orders om - {he_order_id e} \<longrightarrow> f \<in> set q"
    and e: "due om e" "\<forall>f \<in> set (expiry_queue om). he_threshold e \<le> he_threshold f"
  shows "fired om (e # es) om'"
proof -
  let ?i = "he_order_id e"
  let ?om = "send_cancel ?i (om\<lparr>expiry_queue := q, active_orders := active_orders om - {?i}\<rparr>)"
  have d: "due ?om f \<longleftrightarrow> f \<in> set q \<and> he_order_id f \<in> active_orders om - {?i} \<and> he_threshold f \<le> cumulative_hazard om" for f
    by (simp add: due_def)
  have es: "\<And>f. f \<in> set es \<Longrightarrow> due ?om f" "distinct (map he_order_id es)" "sorted (map he_threshold es)"
    "he_order_id ` {f. due ?om f} \<subseteq> set (map he_order_id es)" using f by (simp_all add: fired_def)
  show ?thesis
    unfolding fired_def
  proof (intro conjI)
    have "?i \<noteq> he_order_id f" if "f \<in> set es" for f using es(1) [OF that] unfolding d by auto
    then show "distinct (map he_order_id (e # es))" using es(2) by auto
    show "sorted (map he_threshold (e # es))" using es(1,3) d q(1) e(2) by auto
    show "\<forall>f \<in> set (e # es). due om f" using es(1) d e(1) q(1) by (auto simp: due_def)
    show "he_order_id ` {f. due om f} \<subseteq> set (map he_order_id (e # es))"
      using es(4) d q(2) by (fastforce simp: due_def)
    show "\<exists>q. om' = (fold send_cancel (map he_order_id (e # es)) om)
          \<lparr>expiry_queue := q, active_orders := active_orders om - set (map he_order_id (e # es))\<rparr> \<and>
        expiry_inv q \<and> set q \<subseteq> set (expiry_queue om) \<and>
        (\<forall>f \<in> set (expiry_queue om). he_order_id f \<in> active_orders om - set (map he_order_id (e # es)) \<longrightarrow> f \<in> set q) \<and>
        (\<forall>f \<in> set q. cumulative_hazard om < he_threshold f)"
    proof -
      obtain q0 where q0: "om' = (fold send_cancel (map he_order_id es) ?om)
            \<lparr>expiry_queue := q0, active_orders := active_orders ?om - set (map he_order_id es)\<rparr>"
          "expiry_inv q0" "set q0 \<subseteq> set q"
          "\<And>f. f \<in> set q \<Longrightarrow> he_order_id f \<in> active_orders om - {?i} - set (map he_order_id es) \<Longrightarrow> f \<in> set q0"
          "\<And>f. f \<in> set q0 \<Longrightarrow> cumulative_hazard om < he_threshold f"
        using f unfolding fired_def by auto
      have "om' = (fold send_cancel (map he_order_id (e # es)) om)
          \<lparr>expiry_queue := q0, active_orders := active_orders om - set (map he_order_id (e # es))\<rparr>"
        unfolding q0(1) by (simp add: send_cancel_updates send_cancels_updates Diff_insert2 [symmetric])
      moreover have "f \<in> set q0" if "f \<in> set (expiry_queue om)" "he_order_id f \<in> active_orders om - set (map he_order_id (e # es))" for f
        using q(2) q0(4) [of f] that by simp
      ultimately show ?thesis using q0(2,3,5) q(1) by blast
    qed
  qed
qed

lemma fire_due_spec:
  "expiry_inv (expiry_queue om) \<Longrightarrow> \<exists>es. fired om es (fire_due om)"
proof (induction om rule: fire_due.induct)
  case (1 om)
  show ?case
  proof (cases "\<exists>e. expiry_top (expiry_queue om) = Some e \<and> he_threshold e \<le> cumulative_hazard om")
    case False
    then have "fire_due om = om" by (subst fire_due.simps) (auto split: option.split)
    then show ?thesis using fired_none [OF 1(3)] False by (metis not_le)
  next
    case True
    then obtain e where e: "expiry_top (expiry_queue om) = Some e" "\<not> cumulative_hazard om < he_threshold e" by auto
    note p = expiry.top_some [OF 1(3) e(1)]
    let ?p = "expiry_pop (expiry_queue om)" and ?i = "he_order_id e"
    have sub: "set (expiry_queue om) = insert e (set ?p)" using p by (metis set_mset_mset set_mset_add_mset_insert)
    have least: "\<forall>f \<in> set (expiry_queue om). he_threshold e \<le> he_threshold f" using p by simp
    show ?thesis
    proof (cases "?i \<in> active_orders om")
      case dead: False
      have "expiry_inv (expiry_queue (om\<lparr>expiry_queue := ?p\<rparr>))" using p by simp
      from prune_top_spec [OF this] obtain q where q: "prune_top (om\<lparr>expiry_queue := ?p\<rparr>) = om\<lparr>expiry_queue := q\<rparr>" "expiry_inv q"
        "set q \<subseteq> set ?p" "\<forall>f \<in> set ?p. he_order_id f \<in> active_orders om \<longrightarrow> f \<in> set q" by auto
      have "fire_due om = fire_due (om\<lparr>expiry_queue := q\<rparr>)"
        using e dead q(1) by (subst fire_due.simps) simp
      moreover obtain es where "fired (om\<lparr>expiry_queue := q\<rparr>) es (fire_due (om\<lparr>expiry_queue := q\<rparr>))"
        using 1(1) [OF e refl] dead q(1,2) by auto
      ultimately show ?thesis using fired_skip [where om = om and q = q and es = es] q(3,4) dead unfolding sub by auto
    next
      case live: True
      let ?om = "send_cancel ?i (om\<lparr>expiry_queue := ?p, active_orders := active_orders om - {?i}\<rparr>)"
      have "expiry_inv (expiry_queue ?om)" using p by simp
      from prune_top_spec [OF this] obtain q where q: "prune_top ?om = ?om\<lparr>expiry_queue := q\<rparr>" "expiry_inv q"
        "set q \<subseteq> set ?p" "\<forall>f \<in> set ?p. he_order_id f \<in> active_orders om - {?i} \<longrightarrow> f \<in> set q" by auto
      let ?om' = "send_cancel ?i (om\<lparr>expiry_queue := q, active_orders := active_orders om - {?i}\<rparr>)"
      have om': "prune_top ?om = ?om'" unfolding q(1) by (simp add: send_cancel_updates)
      have "fire_due om = fire_due ?om'"
        using e live om' by (subst fire_due.simps) simp
      moreover obtain es where "fired ?om' es (fire_due ?om')"
        using 1(2) [OF e refl] live q(2) by (auto simp: om')
      moreover have "due om e" using live e sub by (simp add: due_def)
      ultimately show ?thesis
        using fired_cancel [where om = om and q = q and es = es] q(3,4) least unfolding sub by (intro exI [of _ "e # es"]) auto
    qed
  qed
qed


section \<open>Every open order has a scheduled expiry\<close>

definition om_inv :: "OrderManager \<Rightarrow> bool" where
  "om_inv om \<longleftrightarrow> expiry_inv (expiry_queue om) \<and> active_orders om \<subseteq> he_order_id ` set (expiry_queue om)"

lemma advance_fields [simp]:
  "expiry_queue (advance_hazard_to_now now om) = expiry_queue om" "active_orders (advance_hazard_to_now now om) = active_orders om"
  "lambda_cancel (advance_hazard_to_now now om) = lambda_cancel om" "om_connection (advance_hazard_to_now now om) = om_connection om"
  "client_request_id (advance_hazard_to_now now om) = client_request_id om" "om_actions (advance_hazard_to_now now om) = om_actions om"
  by (simp_all add: advance_hazard_to_now_def Let_def)

lemma act_fields [simp]:
  "expiry_queue (act a om) = expiry_queue om" "active_orders (act a om) = active_orders om"
  "lambda_cancel (act a om) = lambda_cancel om" "om_connection (act a om) = om_connection om"
  "client_request_id (act a om) = client_request_id om" "om_actions (act a om) = om_actions om @ [a]"
  by (simp_all add: act_def)

fun wakes :: "OmAction \<Rightarrow> bool" where
  "wakes (Timer_Wait dt) \<longleftrightarrow> 0 < dt"
| "wakes Post_Fire \<longleftrightarrow> True"
| "wakes _ \<longleftrightarrow> False"

lemma reschedule_spec:
  fixes now :: int and om :: OrderManager
  assumes "om_inv om"
  defines "om' \<equiv> reschedule_next_expiry now om"
  shows "om_inv om'" "active_orders om' = active_orders om" "om_connection om' = om_connection om"
    "client_request_id om' = client_request_id om" "set (expiry_queue om') \<subseteq> set (expiry_queue om)"
    "0 < lambda_cancel om \<Longrightarrow> active_orders om \<noteq> {} \<Longrightarrow> wakes (last (om_actions om'))"
proof -
  let ?om = "advance_hazard_to_now now (act Timer_Cancel om)"
  have "expiry_inv (expiry_queue ?om)" using assms(1) by (simp add: om_inv_def)
  from prune_top_spec [OF this] obtain q where q: "prune_top ?om = ?om\<lparr>expiry_queue := q\<rparr>" "expiry_inv q"
    "set q \<subseteq> set (expiry_queue om)" "\<forall>e \<in> set (expiry_queue om). he_order_id e \<in> active_orders om \<longrightarrow> e \<in> set q"
    "\<forall>e. expiry_top q = Some e \<longrightarrow> he_order_id e \<in> active_orders om" by auto
  have cover: "active_orders om \<subseteq> he_order_id ` set q" using assms(1) q(4) by (fastforce simp: om_inv_def)
  have stop: "om' = ?om" if "\<not> 0 < lambda_cancel om" using that by (simp add: om'_def reschedule_next_expiry_def Let_def)
  have go: "\<exists>as. om' = (?om\<lparr>expiry_queue := q, om_actions := om_actions ?om @ as\<rparr>) \<and> (q \<noteq> [] \<longrightarrow> as \<noteq> [] \<and> wakes (last as))"
    if l: "0 < lambda_cancel om"
  proof (cases "expiry_top q")
    case None
    then have "om' = ?om\<lparr>expiry_queue := q\<rparr>" "q = []"
      using l by (simp_all add: om'_def reschedule_next_expiry_def Let_def q(1)) (cases q; simp)
    then show ?thesis by (intro exI [of _ "[]"]) simp
  next
    case (Some e)
    let ?r = "he_threshold e - cumulative_hazard ?om"
    have "om' = act (if ?r \<le> 0 then Post_Fire else Timer_Wait (?r / lambda_cancel om)) (?om\<lparr>expiry_queue := q\<rparr>)"
      using l Some by (simp add: om'_def reschedule_next_expiry_def Let_def q(1))
    then show ?thesis
      using l by (intro exI [of _ "[if ?r \<le> 0 then Post_Fire else Timer_Wait (?r / lambda_cancel om)]"]) (auto simp: act_def)
  qed
  obtain q' as where q': "om' = ?om\<lparr>expiry_queue := q', om_actions := om_actions ?om @ as\<rparr>"
    and q'_ok: "expiry_inv q'" "active_orders om \<subseteq> he_order_id ` set q'" "set q' \<subseteq> set (expiry_queue om)"
  proof (cases "0 < lambda_cancel om")
    case True
    then show ?thesis using go q(2,3) cover that by blast
  next
    case False
    then show ?thesis using stop assms(1) that [of "[]" "expiry_queue om"] by (simp add: om_inv_def)
  qed
  show "om_inv om'" "active_orders om' = active_orders om" "om_connection om' = om_connection om"
    "client_request_id om' = client_request_id om" "set (expiry_queue om') \<subseteq> set (expiry_queue om)"
    unfolding q' om_inv_def using q'_ok by simp_all
  show "wakes (last (om_actions om'))" if pos: "0 < lambda_cancel om" and ne: "active_orders om \<noteq> {}"
  proof -
    obtain as where as: "om' = ?om\<lparr>expiry_queue := q, om_actions := om_actions ?om @ as\<rparr>" "q \<noteq> [] \<longrightarrow> as \<noteq> [] \<and> wakes (last as)"
      using go [OF pos] by blast
    moreover have "q \<noteq> []" using ne cover by auto
    ultimately show ?thesis by simp
  qed
qed


section \<open>Runs\<close>

inductive om_run :: "Connection \<Rightarrow> Id_t \<Rightarrow> OrderManager \<Rightarrow> bool" for conn request_id where
  om_start: "om_run conn request_id (OrderManager_init conn request_id)"
| om_register: "om_run conn request_id om \<Longrightarrow> om_run conn request_id (register_pending_insert req h om)"
| om_ack: "om_run conn request_id om \<Longrightarrow> om_run conn request_id (on_insert_acknowledged now msg om)"
| om_fill: "om_run conn request_id om \<Longrightarrow> om_run conn request_id (on_partial_fill fmsg om)"
| om_rate: "om_run conn request_id om \<Longrightarrow> om_run conn request_id (update_cancel_rate now1 now2 rate om)"
| om_fire: "om_run conn request_id om \<Longrightarrow> om_run conn request_id (fire_next_expiry aborted now1 now2 om)"

lemma fire_spec:
  fixes now :: int and om :: OrderManager
  assumes "om_inv om"
  defines "om1 \<equiv> advance_hazard_to_now now om"
  shows "\<exists>es. fired om1 es (fire_due (prune_top om1))" "om_inv (fire_due (prune_top om1))"
proof -
  have inv: "expiry_inv (expiry_queue om1)" "active_orders om1 \<subseteq> he_order_id ` set (expiry_queue om1)"
    using assms(1) by (simp_all add: om1_def om_inv_def)
  from prune_top_spec [OF inv(1)] obtain q where q: "prune_top om1 = om1\<lparr>expiry_queue := q\<rparr>" "expiry_inv q"
    "set q \<subseteq> set (expiry_queue om1)" "\<forall>e \<in> set (expiry_queue om1). he_order_id e \<in> active_orders om1 \<longrightarrow> e \<in> set q" by blast
  obtain es where "fired (om1\<lparr>expiry_queue := q\<rparr>) es (fire_due (om1\<lparr>expiry_queue := q\<rparr>))"
    using fire_due_spec [of "om1\<lparr>expiry_queue := q\<rparr>"] q(2) by auto
  then have f: "fired om1 es (fire_due (prune_top om1))" unfolding q(1) by (rule fired_skip) (rule q)+
  then show "\<exists>es. fired om1 es (fire_due (prune_top om1))" by blast
  from f obtain q' where q': "fire_due (prune_top om1) = (fold send_cancel (map he_order_id es) om1)
      \<lparr>expiry_queue := q', active_orders := active_orders om1 - set (map he_order_id es)\<rparr>" "expiry_inv q'"
    "\<forall>e \<in> set (expiry_queue om1). he_order_id e \<in> active_orders om1 - set (map he_order_id es) \<longrightarrow> e \<in> set q'"
    unfolding fired_def by blast
  show "om_inv (fire_due (prune_top om1))"
    unfolding q'(1) om_inv_def using q'(2,3) inv(2) by fastforce
qed

lemma om_run_inv:
  "om_run conn request_id om \<Longrightarrow> om_inv om"
proof (induction rule: om_run.induct)
  case om_start
  then show ?case by (simp add: om_inv_def OrderManager_init_def expiry_inv_def)
next
  case (om_register om req h)
  then show ?case by (simp add: om_inv_def register_pending_insert_def)
next
  case (om_ack om now msg)
  have "om_inv (om\<lparr>pending_inserts := P, active_orders := insert i (active_orders om),
      expiry_queue := expiry_push \<lparr>he_threshold = h, he_order_id = i\<rparr> (expiry_queue om)\<rparr>)" for P i h
  proof -
    note p = expiry.push_law [of "expiry_queue om" "\<lparr>he_threshold = h, he_order_id = i\<rparr>"]
    have "set (expiry_push \<lparr>he_threshold = h, he_order_id = i\<rparr> (expiry_queue om)) =
        insert \<lparr>he_threshold = h, he_order_id = i\<rparr> (set (expiry_queue om))"
      using p om_ack.IH by (metis om_inv_def set_mset_mset set_mset_add_mset_insert)
    then show ?thesis using p om_ack.IH by (auto simp: om_inv_def)
  qed
  then show ?case
    using om_ack.IH reschedule_spec(1) by (simp add: on_insert_acknowledged_def Let_def split: option.split)
next
  case (om_fill om fmsg)
  then show ?case by (auto simp: om_inv_def on_partial_fill_def)
next
  case (om_rate om now1 now2 rate)
  then show ?case unfolding update_cancel_rate_def by (intro reschedule_spec(1)) (simp add: om_inv_def)
next
  case (om_fire om aborted now1 now2)
  then have "om_inv (advance_hazard_to_now now1 om)" by (simp add: om_inv_def)
  then show ?case
    using om_fire.IH reschedule_spec(1) [OF fire_spec(2)] by (simp add: fire_next_expiry_def Let_def)
qed

lemma send_cancels_ids: "client_request_id (fold send_cancel is om) = client_request_id om + of_nat (length is)"
proof (induction "is" arbitrary: om)
  case (Cons i "is")
  have "client_request_id (send_cancel i om) = client_request_id om + 1"
    by (simp add: send_cancel_def Let_def split: prod.split)
  then show ?case using Cons [of "send_cancel i om"] by (simp add: ac_simps)
qed simp



definition one_order :: OrderManager where
  "one_order = update_cancel_rate 1000000000 1000000000 2
     (on_insert_acknowledged 1000000000 (make_confirm_order_inserted 0 7 BUY 100 5 5 0)
       (register_pending_insert 0 1 (OrderManager_init (Connection_init 0 (new_queue OUTBOUND_Q_CAP
         \<lparr>OutboundMessage.connection_id = 0, message_type = 0, payload_size = 0, payload = []\<rparr>)) 1)))"

lemma one_order_state:
  "\<exists>conn r. om_run conn r one_order" "lambda_cancel one_order = 2" "active_orders one_order = {7}"
  "expiry_queue one_order = [\<lparr>he_threshold = 1, he_order_id = 7\<rparr>]" "last_update_time one_order = 1000000000" "cumulative_hazard one_order = 0"
proof -
  show "\<exists>conn r. om_run conn r one_order" unfolding one_order_def by (intro exI) (rule om_rate om_ack om_register om_start)+
qed (simp_all add: one_order_def update_cancel_rate_def on_insert_acknowledged_def register_pending_insert_def
    OrderManager_init_def make_confirm_order_inserted_def reschedule_next_expiry_def advance_hazard_to_now_def act_def
    expiry_push_def prune_top.simps Let_def)


end
