(* ===== verification/Market_Simulator.thy ===== *)
theory Market_Simulator
  imports Market_Dynamics Order_Manager
begin

text \<open>
  The event loop of the market simulator (apps/market_simulator/simulator.hpp): it reads the
  exchange's messages, keeps its copy of the book and its order manager up to date, and sends
  orders at each tick unless its outbox is too full.

  The tick is whole: the statistics are brought up to date, the price model (theory Market_Dynamics) sets the
  intensities and decides every order sent.  The random source is an argument, and its state a field.
  The connection and the request counter are those of the order manager.  The steady clock is
  read as a count of nanoseconds, an argument of each handler that reads it.
\<close>

section \<open>State\<close>

datatype SimAction = Sim_Post_Start | Sim_Post_Drain | Sim_Schedule_Tick | Sim_Timer_Cancel | Sim_Async_Read
  | Sim_Io IoAction | Sim_On_Shutdown

record 'g MarketSimulator =
  order_manager :: OrderManager
  sim_inbound :: InboundQueue
  shadow_order_book :: ShadowOrderBook
  sim_running :: bool
  inbound_drain_scheduled :: bool
  outbound_paused :: bool
  lambda_insert :: real
  sim_lambda_cancel :: real
  sim_state :: SimulationState
  sim_rng :: 'g
  last_tick :: int
  sim_actions :: "SimAction list"

definition MESSAGES_PER_DRAIN :: nat where
  "MESSAGES_PER_DRAIN = 2000"

definition HIGH_OUTBOUND_Q_SIZE :: size_t where
  "HIGH_OUTBOUND_Q_SIZE = (OUTBOUND_Q_CAP * 85) div 100"

definition LOW_OUTBOUND_Q_SIZE :: size_t where
  "LOW_OUTBOUND_Q_SIZE = (OUTBOUND_Q_CAP * 70) div 100"

definition sim_act :: "SimAction \<Rightarrow> 'g MarketSimulator \<Rightarrow> 'g MarketSimulator" where
  "sim_act a sim = sim\<lparr>sim_actions := sim_actions sim @ [a]\<rparr>"

section \<open>Reading messages\<close>

text \<open>
  The structs behind the casted pointers.  A side byte is only ever compared with \<open>Side::BUY\<close>.
\<close>

definition side_at :: "byte \<Rightarrow> Side" where
  "side_at b = (if b = 1 then BUY else SELL)"

definition price_at :: "nat \<Rightarrow> byte list \<Rightarrow> Price_t" where
  "price_at i p = sint (le_word (take 8 (drop i p)) :: 64 word)"

definition u32_at :: "nat \<Rightarrow> byte list \<Rightarrow> 32 word" where
  "u32_at i p = le_word (take 4 (drop i p))"

definition u64_at :: "nat \<Rightarrow> byte list \<Rightarrow> 64 word" where
  "u64_at i p = le_word (take 8 (drop i p))"

definition price_level_update_at :: "byte list \<Rightarrow> PayloadPriceLevelUpdate" where
  "price_level_update_at p = make_price_level_update (u32_at 0 p) (side_at (p ! 4)) (price_at 5 p) (u32_at 13 p) (u64_at 17 p)"

definition trade_event_at :: "byte list \<Rightarrow> PayloadTradeEvent" where
  "trade_event_at p = make_trade_event (u32_at 0 p) (u32_at 4 p) (price_at 8 p) (u32_at 16 p) (side_at (p ! 20)) (u64_at 21 p)"

definition confirm_order_inserted_at :: "byte list \<Rightarrow> PayloadConfirmOrderInserted" where
  "confirm_order_inserted_at p = make_confirm_order_inserted (u32_at 0 p) (u32_at 4 p) (side_at (p ! 8)) (price_at 9 p)
     (u32_at 17 p) (u32_at 21 p) (u64_at 25 p)"

definition partial_fill_at :: "byte list \<Rightarrow> PayloadPartialFill" where
  "partial_fill_at p = make_partial_fill (u32_at 0 p) (u32_at 4 p) (price_at 8 p) (u32_at 16 p) (u32_at 20 p) (u32_at 24 p) (u64_at 28 p)"

definition on_message :: "int \<Rightarrow> Message_t \<Rightarrow> byte list \<Rightarrow> 'g MarketSimulator \<Rightarrow> 'g MarketSimulator" where
  "on_message now mt bytes sim =
    (case type_of_code mt of
       Some PRICE_LEVEL_UPDATE \<Rightarrow>
         sim\<lparr>shadow_order_book := on_price_level_update (shadow_order_book sim) (price_level_update_at bytes)\<rparr>
     | Some TRADE_EVENT \<Rightarrow> sim\<lparr>sim_state := sim_on_trade (trade_event_at bytes) (sim_state sim)\<rparr>
     | Some CONFIRM_ORDER_INSERTED \<Rightarrow>
         sim\<lparr>order_manager := on_insert_acknowledged now (confirm_order_inserted_at bytes) (order_manager sim)\<rparr>
     | Some PARTIAL_FILL_ORDER \<Rightarrow>
         sim\<lparr>order_manager := on_partial_fill (partial_fill_at bytes) (order_manager sim)\<rparr>
     | _ \<Rightarrow> sim)"

text \<open>The payload of a large message as its own buffer, whose length is compared with the struct's.\<close>

definition on_large_message :: "Message_t \<Rightarrow> byte list option \<Rightarrow> 'g MarketSimulator \<Rightarrow> 'g MarketSimulator" where
  "on_large_message mt buf sim =
    (case buf of None \<Rightarrow> sim
     | Some bytes \<Rightarrow>
       (case type_of_code mt of
          Some ORDER_BOOK_SNAPSHOT \<Rightarrow>
            if length bytes \<noteq> sizeof PayloadOrderBookSnapshot_codec then sim
            else (case reading PayloadOrderBookSnapshot_codec bytes of None \<Rightarrow> sim
                  | Some snap \<Rightarrow> sim\<lparr>shadow_order_book := on_order_book_snapshot (shadow_order_book sim) snap\<rparr>)
        | _ \<Rightarrow> sim))"

text \<open>\<open>clock\<close> gives the time at which each message is handled.\<close>

fun drain_inbound_bounded :: "(nat \<Rightarrow> int) \<Rightarrow> nat \<Rightarrow> 'g MarketSimulator \<Rightarrow> 'g MarketSimulator" where
  "drain_inbound_bounded clock 0 sim = sim"
| "drain_inbound_bounded clock (Suc n) sim =
    (case try_pop INBOUND_Q_CAP (sim_inbound sim) of
       (None, q) \<Rightarrow> sim\<lparr>sim_inbound := q\<rparr>
     | (Some msg, q) \<Rightarrow> drain_inbound_bounded clock n
         (on_message (clock n) (InboundMessage.message_type msg) (InboundMessage.payload msg) (sim\<lparr>sim_inbound := q\<rparr>)))"

definition schedule_inbound_drain :: "'g MarketSimulator \<Rightarrow> 'g MarketSimulator" where
  "schedule_inbound_drain sim =
    (if inbound_drain_scheduled sim then sim
     else sim_act Sim_Post_Drain (sim\<lparr>inbound_drain_scheduled := True\<rparr>))"

definition inbound_drain_task :: "(nat \<Rightarrow> int) \<Rightarrow> 'g MarketSimulator \<Rightarrow> 'g MarketSimulator" where
  "inbound_drain_task clock sim0 =
    (let sim = drain_inbound_bounded clock MESSAGES_PER_DRAIN (sim0\<lparr>inbound_drain_scheduled := False\<rparr>)
     in if sim_running sim \<and> size_approx (sim_inbound sim) \<noteq> 0 then schedule_inbound_drain sim else sim)"

section \<open>Ticks\<close>

text \<open>One order: \<open>send_insert\<close> is what \<open>generate_insert\<close> does with the decision.\<close>

definition send_insert :: "InsertDecision \<Rightarrow> 'g MarketSimulator \<Rightarrow> 'g MarketSimulator" where
  "send_insert d sim =
    (let om = order_manager sim;
         request_id = OrderManager.client_request_id om;
         om1 = om\<lparr>OrderManager.client_request_id := request_id + 1\<rparr>;
         bytes = image PayloadInsertOrder_codec (make_insert_order request_id (d_side d) (d_price d) (d_quantity d) (d_lifespan d));
         om2 = register_pending_insert request_id (cancellation_hazard_mass d) om1;
         (c, acts) = send_message (om_connection om2) (type_code INSERT_ORDER) bytes
     in sim\<lparr>order_manager := om2\<lparr>om_connection := c\<rparr>, sim_actions := sim_actions sim @ map Sim_Io acts\<rparr>)"

definition generate_insert :: "'g RNG \<Rightarrow> 'g MarketSimulator \<Rightarrow> 'g MarketSimulator" where
  "generate_insert rng sim =
    (let (d, g) = decide_insert rng (sim_state sim) (cumulative_hazard (order_manager sim)) (sim_rng sim)
     in send_insert d (sim\<lparr>sim_rng := g\<rparr>))"

text \<open>
  A tick whose timer did not fail, in two parts.  The first catches up with the exchange and sets the intensities;
  \<open>t0\<close>, \<open>now1\<close> and \<open>now2\<close> are the readings of the clock.  The second sends
  as many orders as are drawn, unless the outbox is too full.
\<close>

definition tick_dt :: "int \<Rightarrow> 'g MarketSimulator \<Rightarrow> real" where
  "tick_dt t0 sim =
    (let dt = real_of_int (t0 - last_tick sim) / 10 ^ 9;
         dt1 = (if dt < 0 then 0 else dt)
     in if dt1 > 0.25 then 0.25 else dt1)"

definition tick_catch_up :: "(nat \<Rightarrow> int) \<Rightarrow> int \<Rightarrow> int \<Rightarrow> int \<Rightarrow> 'g MarketSimulator \<Rightarrow> 'g MarketSimulator" where
  "tick_catch_up clock t0 now1 now2 sim =
    (let sim1 = (if size_approx (sim_inbound sim) \<noteq> 0 then drain_inbound_bounded clock MESSAGES_PER_DRAIN sim else sim);
         st = sync_with_book (shadow_order_book sim1) (tick_dt t0 sim1) (sim_state sim1);
         om = update_cancel_rate now1 now2 (sim_lambda_cancel sim1) (order_manager sim1);
         (li, lc) = update_intensity st (open_order_count om)
     in sim1\<lparr>last_tick := t0, sim_state := st, order_manager := om, lambda_insert := li, sim_lambda_cancel := lc\<rparr>)"

definition tick_send :: "'g RNG \<Rightarrow> real \<Rightarrow> 'g MarketSimulator \<Rightarrow> 'g MarketSimulator" where
  "tick_send rng dt sim =
    (let out_depth = size_approx (outbound (om_connection (order_manager sim)));
         sim1 = (if \<not> outbound_paused sim \<and> HIGH_OUTBOUND_Q_SIZE \<le> out_depth then sim\<lparr>outbound_paused := True\<rparr> else sim)
     in if outbound_paused sim1 \<and> \<not> out_depth \<le> LOW_OUTBOUND_Q_SIZE then sim_act Sim_Schedule_Tick sim1
        else let sim2 = (if outbound_paused sim1 then sim1\<lparr>outbound_paused := False\<rparr> else sim1);
                 (k, g) = rng_poisson rng (lambda_insert sim2 * dt) (sim_rng sim2)
             in sim_act Sim_Schedule_Tick ((generate_insert rng ^^ unat k) (sim2\<lparr>sim_rng := g\<rparr>)))"

definition tick :: "'g RNG \<Rightarrow> (nat \<Rightarrow> int) \<Rightarrow> int \<Rightarrow> int \<Rightarrow> int \<Rightarrow> 'g MarketSimulator \<Rightarrow> 'g MarketSimulator" where
  "tick rng clock t0 now1 now2 sim =
    (if \<not> sim_running sim then sim
     else tick_send rng (tick_dt t0 sim) (tick_catch_up clock t0 now1 now2 sim))"

section \<open>Start and stop\<close>

definition MarketSimulator_init :: "Connection \<Rightarrow> InboundMessage \<Rightarrow> Price_t list \<Rightarrow> TimeState \<Rightarrow> PriceState \<Rightarrow> LiquidityState \<Rightarrow>
    'g \<Rightarrow> 'g MarketSimulator" where
  "MarketSimulator_init c slot0 liquidity_bucket_bounds ts ps liq g =
    \<lparr>order_manager = OrderManager_init
        (c\<lparr>disconnected_set := True, large_message_received_set := True, inbound_ready_set := True\<rparr>) 0,
     sim_inbound = new_queue INBOUND_Q_CAP slot0, shadow_order_book = ShadowOrderBook_init, sim_running = False,
     inbound_drain_scheduled = False, outbound_paused = False,
     lambda_insert = LAMBDA_INSERT_BASE, sim_lambda_cancel = LAMBDA_CANCEL_BASE,
     sim_state = SimulationState_init liquidity_bucket_bounds ts ps liq, sim_rng = g, last_tick = 0, sim_actions = []\<rparr>"

definition sim_start :: "'g MarketSimulator \<Rightarrow> 'g MarketSimulator" where
  "sim_start sim = sim_act Sim_Post_Start (sim_act Sim_Async_Read (sim\<lparr>sim_running := True\<rparr>))"

definition sim_start_task :: "int \<Rightarrow> 'g MarketSimulator \<Rightarrow> 'g MarketSimulator" where
  "sim_start_task now sim = sim_act Sim_Schedule_Tick (sim\<lparr>last_tick := now\<rparr>)"

definition sim_stop :: "'g MarketSimulator \<Rightarrow> 'g MarketSimulator" where
  "sim_stop sim =
    (let sim1 = sim_act Sim_Timer_Cancel (sim\<lparr>sim_running := False\<rparr>);
         (c, acts) = close (om_connection (order_manager sim1))
     in sim1\<lparr>order_manager := (order_manager sim1)\<lparr>om_connection := c\<rparr>, sim_actions := sim_actions sim1 @ map Sim_Io acts\<rparr>)"

definition sim_on_disconnected :: "'g MarketSimulator \<Rightarrow> 'g MarketSimulator" where
  "sim_on_disconnected sim = sim_act Sim_On_Shutdown (sim_act Sim_Timer_Cancel (sim\<lparr>sim_running := False\<rparr>))"

definition sim_on_inbound_ready :: "'g MarketSimulator \<Rightarrow> 'g MarketSimulator" where
  "sim_on_inbound_ready sim = (if \<not> sim_running sim then sim else schedule_inbound_drain sim)"


section \<open>What a message does\<close>

fun on_payload :: "int \<Rightarrow> Payload \<Rightarrow> 'g MarketSimulator \<Rightarrow> 'g MarketSimulator" where
  "on_payload now (PriceLevelUpdate u) sim = sim\<lparr>shadow_order_book := on_price_level_update (shadow_order_book sim) u\<rparr>"
| "on_payload now (TradeEvent t) sim = sim\<lparr>sim_state := sim_on_trade t (sim_state sim)\<rparr>"
| "on_payload now (ConfirmOrderInserted c) sim = sim\<lparr>order_manager := on_insert_acknowledged now c (order_manager sim)\<rparr>"
| "on_payload now (PartialFill f) sim = sim\<lparr>order_manager := on_partial_fill f (order_manager sim)\<rparr>"
| "on_payload now _ sim = sim"

lemma sint_word_of_int: "int64 p \<Longrightarrow> sint (word_of_int p :: 64 word) = p"
  by (simp add: int64_def sint_sbintrunc' signed_take_bit_int_eq_self)

lemmas image_defs = struct_codec_def seq_codec_def word_codec_def side_codec_def enum_codec_def int64_codec_def
lemmas view_defs = u32_at_def u64_at_def price_at_def side_at_def payload_array_def

lemma price_level_update_view:
  assumes "int64 (PayloadPriceLevelUpdate.price u)"
  shows "price_level_update_at (payload_array (image PayloadPriceLevelUpdate_codec u)) = u"
  using assms
  by (cases u) (simp add: price_level_update_at_def make_price_level_update_def PayloadPriceLevelUpdate_codec_def
      image_defs view_defs nth_append sint_word_of_int split: Side.split)

lemma trade_event_view:
  assumes "int64 (PayloadTradeEvent.price u)"
  shows "trade_event_at (payload_array (image PayloadTradeEvent_codec u)) = u"
  using assms
  by (cases u) (simp add: trade_event_at_def make_trade_event_def PayloadTradeEvent_codec_def
      image_defs view_defs nth_append sint_word_of_int split: Side.split)

lemma confirm_order_inserted_view:
  assumes "int64 (PayloadConfirmOrderInserted.price u)"
  shows "confirm_order_inserted_at (payload_array (image PayloadConfirmOrderInserted_codec u)) = u"
  using assms
  by (cases u) (simp add: confirm_order_inserted_at_def make_confirm_order_inserted_def PayloadConfirmOrderInserted_codec_def
      image_defs view_defs nth_append sint_word_of_int split: Side.split)

lemma partial_fill_view:
  assumes "int64 (PayloadPartialFill.last_price u)"
  shows "partial_fill_at (payload_array (image PayloadPartialFill_codec u)) = u"
  using assms
  by (cases u) (simp add: partial_fill_at_def make_partial_fill_def PayloadPartialFill_codec_def
      image_defs view_defs nth_append sint_word_of_int)

lemma on_message_payload:
  assumes "payload_fits p"
  shows "on_message now (type_code (payload_type p)) (payload_array (payload_image p)) sim = on_payload now p sim"
  unfolding on_message_def type_of_type_code using assms
  by (cases p) (simp_all add: price_level_update_view trade_event_view confirm_order_inserted_view partial_fill_view)


lemma on_large_message_snapshot:
  assumes "payload_fits (OrderBookSnapshot snap)"
  shows "on_large_message (type_code ORDER_BOOK_SNAPSHOT) (Some (payload_image (OrderBookSnapshot snap))) sim =
    sim\<lparr>shadow_order_book := on_order_book_snapshot (shadow_order_book sim) snap\<rparr>"
  unfolding on_large_message_def type_of_type_code
  using assms order_book_snapshot.image_length [of snap] order_book_snapshot.read_image [of snap] by simp

section \<open>Draining the inbox\<close>

text \<open>The part of a message that concerns the order manager.\<close>

fun manage :: "int \<times> Payload \<Rightarrow> OrderManager \<Rightarrow> OrderManager" where
  "manage (now, ConfirmOrderInserted c) om = on_insert_acknowledged now c om"
| "manage (now, PartialFill f) om = on_partial_fill f om"
| "manage (now, _) om = om"

fun trade_of :: "Payload \<Rightarrow> PayloadTradeEvent list" where
  "trade_of (TradeEvent t) = [t]"
| "trade_of _ = []"

lemma on_payload_parts:
  "on_payload now p sim = sim\<lparr>shadow_order_book := on_feed p (shadow_order_book sim),
     sim_state := fold sim_on_trade (trade_of p) (sim_state sim), order_manager := manage (now, p) (order_manager sim)\<rparr>"
  by (cases p) simp_all

definition deposited :: "Id_t \<Rightarrow> Payload \<Rightarrow> InboundMessage" where
  "deposited i p = inbound_message i (type_code (payload_type p), payload_image p)"

lemma on_message_deposited:
  assumes "payload_fits p"
  shows "on_message now (InboundMessage.message_type (deposited i p)) (InboundMessage.payload (deposited i p)) sim =
    on_payload now p sim"
  using on_message_payload [OF assms] by (simp add: deposited_def inbound_message_def)

lemma drain_inbound_spec:
  assumes "queue_inv INBOUND_Q_CAP (sim_inbound sim)"
    and "contents INBOUND_Q_CAP (sim_inbound sim) = map (deposited i) ps" and "list_all payload_fits ps"
  shows "\<exists>q. drain_inbound_bounded clock n sim = sim\<lparr>sim_inbound := q,
      shadow_order_book := fold on_feed (take n ps) (shadow_order_book sim),
      sim_state := fold sim_on_trade (concat (map trade_of (take n ps))) (sim_state sim),
      order_manager := fold manage (zip (map clock (rev [0..<n])) (take n ps)) (order_manager sim)\<rparr>
    \<and> queue_inv INBOUND_Q_CAP q \<and> contents INBOUND_Q_CAP q = map (deposited i) (drop n ps)"
  using assms
proof (induction n arbitrary: sim ps)
  case 0
  then show ?case by (intro exI [of _ "sim_inbound sim"]) simp
next
  case (Suc n)
  show ?case
  proof (cases ps)
    case Nil
    then have "try_pop INBOUND_Q_CAP (sim_inbound sim) = (None, sim_inbound sim)"
      using ring.pop_empty [OF Suc.prems(1)] Suc.prems(2) by simp
    then show ?thesis using Nil Suc.prems(1,2) by (intro exI [of _ "sim_inbound sim"]) simp
  next
    case (Cons p ps')
    then have front: "contents INBOUND_Q_CAP (sim_inbound sim) = deposited i p # map (deposited i) ps'" using Suc.prems(2) by simp
    obtain q1 where q1: "try_pop INBOUND_Q_CAP (sim_inbound sim) = (Some (deposited i p), q1)" "queue_inv INBOUND_Q_CAP q1"
      "contents INBOUND_Q_CAP q1 = map (deposited i) ps'"
      using ring.pop_front [OF Suc.prems(1) front] by (metis prod.collapse)
    have fits: "payload_fits p" "list_all payload_fits ps'" using Suc.prems(3) Cons by simp_all
    let ?sim = "sim\<lparr>sim_inbound := q1, shadow_order_book := on_feed p (shadow_order_book sim),
      sim_state := fold sim_on_trade (trade_of p) (sim_state sim), order_manager := manage (clock n, p) (order_manager sim)\<rparr>"
    have "drain_inbound_bounded clock (Suc n) sim = drain_inbound_bounded clock n ?sim"
      by (simp add: q1(1) on_message_deposited [OF fits(1)] on_payload_parts)
    then show ?thesis using Suc.IH [of ?sim ps'] q1(2,3) fits(2) Cons by simp
  qed
qed

text \<open>
  C33: The simulator acts on every message of the exchange, in order.  When its inbox holds the frames of
  some messages, one run of the drain task applies the first 2000 of them: the level updates to its
  copy of the book, the fills and confirmations to its order manager, the trades to its
  statistics; the rest stays in the inbox and the task has scheduled itself again.
\<close>

theorem drain_applies_the_messages_in_order:
  fixes sim :: "'g MarketSimulator" and clock :: "nat \<Rightarrow> int"
  assumes "queue_inv INBOUND_Q_CAP (sim_inbound sim)"
    and "contents INBOUND_Q_CAP (sim_inbound sim) = map (deposited i) ps" and "list_all payload_fits ps"
  defines "sim' \<equiv> inbound_drain_task clock sim"
  shows "shadow_order_book sim' = fold on_feed (take 2000 ps) (shadow_order_book sim)
    \<and> order_manager sim' = fold manage (zip (map clock (rev [0..<2000])) (take 2000 ps)) (order_manager sim)
    \<and> sim_state sim' = fold sim_on_trade (concat (map trade_of (take 2000 ps))) (sim_state sim)
    \<and> contents INBOUND_Q_CAP (sim_inbound sim') = map (deposited i) (drop 2000 ps)
    \<and> (sim_running sim \<and> drop 2000 ps \<noteq> [] \<longrightarrow> inbound_drain_scheduled sim' \<and> last (sim_actions sim') = Sim_Post_Drain)"
proof -
  let ?sim = "sim\<lparr>inbound_drain_scheduled := False\<rparr>"
  obtain q where q: "drain_inbound_bounded clock 2000 ?sim = ?sim\<lparr>sim_inbound := q,
      shadow_order_book := fold on_feed (take 2000 ps) (shadow_order_book sim),
      sim_state := fold sim_on_trade (concat (map trade_of (take 2000 ps))) (sim_state sim),
      order_manager := fold manage (zip (map clock (rev [0..<2000])) (take 2000 ps)) (order_manager sim)\<rparr>"
    "contents INBOUND_Q_CAP q = map (deposited i) (drop 2000 ps)"
    using drain_inbound_spec [of ?sim i ps clock 2000] assms(1-3) by auto
  have "size_approx q \<noteq> 0 \<longleftrightarrow> drop 2000 ps \<noteq> []"
    using arg_cong [OF q(2), of length] by (metis length_contents length_map list.size(3) length_0_conv unat_eq_zero)
  then show ?thesis
    unfolding sim'_def inbound_drain_task_def MESSAGES_PER_DRAIN_def Let_def q(1)
    using q(2) by (simp add: schedule_inbound_drain_def sim_act_def)
qed


definition one_update :: "pcg32 MarketSimulator" where
  "one_update = (let m = deposited 0 (PriceLevelUpdate (make_price_level_update 1 SELL 100 5 2)) in
     (MarketSimulator_init (Connection_init 0 (new_queue OUTBOUND_Q_CAP (outbound_message 0 0 []))) m [1, 5, 10] \<lparr>sim_time = 0, time_since_event = 0\<rparr> no_quotes no_liquidity (seed_rng 0 0))
       \<lparr>sim_inbound := snd (try_push INBOUND_Q_CAP m (new_queue INBOUND_Q_CAP m))\<rparr>)"

theorem drain_applies_the_messages_in_order_witness:
  "shadow_volume_at (shadow_order_book (inbound_drain_task (\<lambda>_. 0) one_update)) SELL 100 = 5"
proof -
  let ?u = "make_price_level_update 1 SELL 100 5 2"
  let ?q = "new_queue INBOUND_Q_CAP (deposited 0 (PriceLevelUpdate ?u))"
  have q: "queue_inv INBOUND_Q_CAP ?q" by (simp add: new_queue_inv caps_ok)
  have room: "length (contents INBOUND_Q_CAP ?q) < unat INBOUND_Q_CAP" by (simp add: INBOUND_Q_CAP_def del: length_contents)
  have inb: "sim_inbound one_update = snd (try_push INBOUND_Q_CAP (deposited 0 (PriceLevelUpdate ?u)) ?q)"
    by (simp add: one_update_def Let_def)
  have sh: "shadow_order_book one_update = ShadowOrderBook_init" by (simp add: one_update_def Let_def MarketSimulator_init_def)
  have "shadow_order_book (inbound_drain_task (\<lambda>_. 0) one_update) = fold on_feed (take 2000 [PriceLevelUpdate ?u]) ShadowOrderBook_init"
    using drain_applies_the_messages_in_order [of one_update 0 "[PriceLevelUpdate ?u]" "\<lambda>_. 0"] ring.push_room [OF q room] sh
    by (simp add: inb int64_def make_price_level_update_def)
  then show ?thesis by (simp add: update_volume)
qed

section \<open>Backpressure\<close>

lemma prune_top_keeps [simp]:
  "om_connection (prune_top om) = om_connection om" "OrderManager.client_request_id (prune_top om) = OrderManager.client_request_id om"
proof -
  have "om_connection (prune_top om) = om_connection om \<and> OrderManager.client_request_id (prune_top om) = OrderManager.client_request_id om"
  proof (induction om rule: prune_top.induct)
    case (1 om)
    then show ?case by (subst (1 2) prune_top.simps) (auto split: option.split)
  qed
  then show "om_connection (prune_top om) = om_connection om"
    "OrderManager.client_request_id (prune_top om) = OrderManager.client_request_id om" by simp_all
qed

lemma reschedule_keeps [simp]:
  "om_connection (reschedule_next_expiry now om) = om_connection om"
  "OrderManager.client_request_id (reschedule_next_expiry now om) = OrderManager.client_request_id om"
  by (simp_all add: reschedule_next_expiry_def Let_def split: option.split)

definition line :: "'g MarketSimulator \<Rightarrow> Connection \<times> Id_t" where
  "line sim = (om_connection (order_manager sim), OrderManager.client_request_id (order_manager sim))"

lemma on_message_line [simp]: "line (on_message now mt bytes sim) = line sim" "sim_running (on_message now mt bytes sim) = sim_running sim"
  "outbound_paused (on_message now mt bytes sim) = outbound_paused sim"
  by (simp_all add: on_message_def line_def on_insert_acknowledged_def on_partial_fill_def Let_def split: option.split MessageType.split)

lemma drain_line [simp]:
  "line (drain_inbound_bounded clock n sim) = line sim" "sim_running (drain_inbound_bounded clock n sim) = sim_running sim"
  "outbound_paused (drain_inbound_bounded clock n sim) = outbound_paused sim"
proof -
  have "line (drain_inbound_bounded clock n sim) = line sim \<and> sim_running (drain_inbound_bounded clock n sim) = sim_running sim
    \<and> outbound_paused (drain_inbound_bounded clock n sim) = outbound_paused sim"
  proof (induction n arbitrary: sim)
    case (Suc n)
    have "line (sim\<lparr>sim_inbound := q\<rparr>) = line sim" for q by (simp add: line_def)
    then show ?case using Suc by (simp split: prod.split option.split)
  qed simp
  then show "line (drain_inbound_bounded clock n sim) = line sim" "sim_running (drain_inbound_bounded clock n sim) = sim_running sim"
    "outbound_paused (drain_inbound_bounded clock n sim) = outbound_paused sim" by simp_all
qed

definition insert_message :: "Id_t \<Rightarrow> Id_t \<Rightarrow> InsertDecision \<Rightarrow> OutboundMessage" where
  "insert_message i r d = outbound_message i (type_code INSERT_ORDER)
     (image PayloadInsertOrder_codec (make_insert_order r (d_side d) (d_price d) (d_quantity d) (d_lifespan d)))"

lemma send_insert_spec:
  assumes "queue_inv OUTBOUND_Q_CAP (outbound c)" and "line sim = (c, r)" and "length (queued c) < 65536"
  shows "\<exists>c'. line (send_insert d sim) = (c', r + 1) \<and> queue_inv OUTBOUND_Q_CAP (outbound c') \<and> conn_id c' = conn_id c \<and>
    queued c' = queued c @ [insert_message (conn_id c) r d]"
proof -
  let ?b = "image PayloadInsertOrder_codec (make_insert_order r (d_side d) (d_price d) (d_quantity d) (d_lifespan d))"
  note s = send_message_outbound [OF assms(1) refl, of INSERT_ORDER ?b]
  have c: "om_connection (order_manager sim) = c" "OrderManager.client_request_id (order_manager sim) = r"
    using assms(2) by (simp_all add: line_def)
  have "line (send_insert d sim) = (fst (send_message c (type_code INSERT_ORDER) ?b), r + 1)"
    by (simp add: send_insert_def line_def c Let_def register_pending_insert_def split: prod.split)
  then show ?thesis using s assms(3) by (simp add: insert_message_def)
qed

text \<open>The frames of a list of orders, with consecutive request numbers.\<close>

fun insert_messages :: "Id_t \<Rightarrow> Id_t \<Rightarrow> InsertDecision list \<Rightarrow> OutboundMessage list" where
  "insert_messages i r [] = []"
| "insert_messages i r (d # ds) = insert_message i r d # insert_messages i (r + 1) ds"

lemma length_insert_messages [simp]: "length (insert_messages i r ds) = length ds"
  by (induction ds arbitrary: r) simp_all

lemma send_inserts_spec:
  assumes "queue_inv OUTBOUND_Q_CAP (outbound c)" and "line sim = (c, r)" and "length (queued c) + length ds \<le> 65536"
  shows "\<exists>c'. line (fold send_insert ds sim) = (c', r + of_nat (length ds)) \<and> queue_inv OUTBOUND_Q_CAP (outbound c') \<and>
    queued c' = queued c @ insert_messages (conn_id c) r ds"
  using assms
proof (induction ds arbitrary: c r sim)
  case Nil
  then show ?case by simp
next
  case (Cons d ds)
  have "length (queued c) < 65536" using Cons.prems(3) by (simp del: length_contents)
  from send_insert_spec [OF Cons.prems(1,2) this, of d] obtain c1 where
    c1: "line (send_insert d sim) = (c1, r + 1)" "queue_inv OUTBOUND_Q_CAP (outbound c1)" "conn_id c1 = conn_id c"
      "queued c1 = queued c @ [insert_message (conn_id c) r d]"
    by blast
  have "length (queued c1) + length ds \<le> 65536" using Cons.prems(3) unfolding c1(4) by (simp del: length_contents)
  from Cons.IH [OF c1(2,1) this] show ?case using c1(3,4) by (simp add: ac_simps)
qed

text \<open>
  The decisions of a tick.  Sending an order changes neither the statistics nor the accumulated hazard, so
  all of them are taken on the state the tick has caught up with.
\<close>

fun decisions :: "'g RNG \<Rightarrow> SimulationState \<Rightarrow> real \<Rightarrow> nat \<Rightarrow> 'g \<Rightarrow> InsertDecision list" where
  "decisions rng st h 0 g = []"
| "decisions rng st h (Suc k) g = (let (d, g') = decide_insert rng st h g in d # decisions rng st h k g')"

lemma length_decisions [simp]: "length (decisions rng st h k g) = k"
  by (induction k arbitrary: g) (simp_all add: split_beta)

lemma send_insert_keeps [simp]:
  "sim_state (send_insert d sim) = sim_state sim" "sim_rng (send_insert d sim) = sim_rng sim"
  "cumulative_hazard (order_manager (send_insert d sim)) = cumulative_hazard (order_manager sim)"
  "outbound_paused (send_insert d sim) = outbound_paused sim"
  by (simp_all add: send_insert_def Let_def register_pending_insert_def split: prod.split)

lemma send_insert_rng: "send_insert d (sim\<lparr>sim_rng := g\<rparr>) = (send_insert d sim)\<lparr>sim_rng := g\<rparr>"
  by (simp add: send_insert_def Let_def split: prod.split)

lemma fold_send_insert_rng: "fold send_insert ds (sim\<lparr>sim_rng := g\<rparr>) = (fold send_insert ds sim)\<lparr>sim_rng := g\<rparr>"
  by (induction ds arbitrary: sim) (simp_all add: send_insert_rng)

lemma generate_inserts_are_decisions:
  "\<exists>g. (generate_insert rng ^^ k) sim =
    (fold send_insert (decisions rng (sim_state sim) (cumulative_hazard (order_manager sim)) k (sim_rng sim)) sim)\<lparr>sim_rng := g\<rparr>"
proof (induction k arbitrary: sim)
  case 0
  show ?case by (intro exI [of _ "sim_rng sim"]) simp
next
  case (Suc k)
  obtain d g where d: "decide_insert rng (sim_state sim) (cumulative_hazard (order_manager sim)) (sim_rng sim) = (d, g)" by force
  have "generate_insert rng sim = send_insert d (sim\<lparr>sim_rng := g\<rparr>)" by (simp add: generate_insert_def d)
  with Suc.IH [of "send_insert d (sim\<lparr>sim_rng := g\<rparr>)"] show ?case
    by (auto simp: funpow_swap1 d send_insert_rng fold_send_insert_rng)
qed

lemma decisions_valid:
  assumes "stats_ok 100000 st" "quotes_ok (price_state st)"
    "ps_last_trade_price (price_state st) \<le> MAXIMUM_ASK" "fair_value (latent_state st) \<le> real_of_int MAXIMUM_ASK"
  shows "list_all (\<lambda>d. price_ok (d_price d) \<and> d_quantity d \<noteq> 0) (decisions (PCGRNG poisson) st h k g)"
proof -
  have "flow_ok 100000 (flow_state st)" using assms(1) by (simp add: stats_ok_def)
  from pcg.decide_insert_valid [OF this assms(2-4)] show ?thesis
    by (induction k arbitrary: g) (simp_all add: split_beta price_ok_def word_neq_0_conv)
qed

lemma tick_catch_up_keeps:
  "line (tick_catch_up clock t0 now1 now2 sim) = line sim"
  "outbound_paused (tick_catch_up clock t0 now1 now2 sim) = outbound_paused sim"
proof -
  define sim1 where "sim1 = (if size_approx (sim_inbound sim) \<noteq> 0 then drain_inbound_bounded clock MESSAGES_PER_DRAIN sim else sim)"
  have "line sim1 = line sim" "outbound_paused sim1 = outbound_paused sim" by (simp_all add: sim1_def)
  then show "line (tick_catch_up clock t0 now1 now2 sim) = line sim"
    "outbound_paused (tick_catch_up clock t0 now1 now2 sim) = outbound_paused sim"
    unfolding tick_catch_up_def sim1_def [symmetric] by (simp_all add: Let_def line_def update_cancel_rate_def split_beta)
qed

text \<open>The two outcomes of the second part of a tick.\<close>

lemma tick_send_holds:
  assumes "HIGH_OUTBOUND_Q_SIZE \<le> size_approx (outbound (om_connection (order_manager sim)))
    \<or> outbound_paused sim \<and> \<not> size_approx (outbound (om_connection (order_manager sim))) \<le> LOW_OUTBOUND_Q_SIZE"
  shows "tick_send rng dt sim = sim_act Sim_Schedule_Tick (sim\<lparr>outbound_paused := True\<rparr>)"
proof -
  let ?n = "size_approx (outbound (om_connection (order_manager sim)))"
  have "HIGH_OUTBOUND_Q_SIZE \<le> ?n \<Longrightarrow> \<not> ?n \<le> LOW_OUTBOUND_Q_SIZE"
    by (simp add: HIGH_OUTBOUND_Q_SIZE_def LOW_OUTBOUND_Q_SIZE_def OUTBOUND_Q_CAP_def word_le_nat_alt)
  moreover have same: "outbound_paused sim \<Longrightarrow> sim\<lparr>outbound_paused := True\<rparr> = sim" by simp
  ultimately show ?thesis using assms by (auto simp: tick_send_def Let_def same)
qed

lemma tick_send_sends:
  fixes sim rng dt
  assumes "\<not> (HIGH_OUTBOUND_Q_SIZE \<le> size_approx (outbound (om_connection (order_manager sim)))
    \<or> outbound_paused sim \<and> \<not> size_approx (outbound (om_connection (order_manager sim))) \<le> LOW_OUTBOUND_Q_SIZE)"
  defines "draw \<equiv> rng_poisson rng (lambda_insert sim * dt) (sim_rng sim)"
  defines "ds \<equiv> decisions rng (sim_state sim) (cumulative_hazard (order_manager sim)) (unat (fst draw)) (snd draw)"
  shows "\<exists>g. tick_send rng dt sim = sim_act Sim_Schedule_Tick ((fold send_insert ds (sim\<lparr>outbound_paused := False\<rparr>))\<lparr>sim_rng := g\<rparr>)"
proof -
  let ?sim = "sim\<lparr>outbound_paused := False, sim_rng := snd draw\<rparr>"
  have same: "\<not> outbound_paused sim \<Longrightarrow> sim\<lparr>outbound_paused := False, sim_rng := g\<rparr> = sim\<lparr>sim_rng := g\<rparr>" for g by simp
  have "tick_send rng dt sim = sim_act Sim_Schedule_Tick ((generate_insert rng ^^ unat (fst draw)) ?sim)"
    using assms(1) by (auto simp: tick_send_def Let_def draw_def split_beta same)
  moreover obtain g where "(generate_insert rng ^^ unat (fst draw)) ?sim = (fold send_insert ds ?sim)\<lparr>sim_rng := g\<rparr>"
    using generate_inserts_are_decisions [of "unat (fst draw)" rng ?sim] by (auto simp: ds_def)
  moreover have "(fold send_insert ds ?sim)\<lparr>sim_rng := g\<rparr> = (fold send_insert ds (sim\<lparr>outbound_paused := False\<rparr>))\<lparr>sim_rng := g\<rparr>"
    by (simp add: fold_send_insert_rng)
  ultimately show ?thesis by auto
qed

text \<open>
  C34: A tick sends orders only while the outbox has room.  If the outbox is filled to the high mark, or
  the simulator was paused and the outbox is still above the low mark, the tick leaves connection
  and request counter alone and the simulator is paused; otherwise it is not paused, and as many orders as
  are drawn, each decided on the statistics the tick has caught up with, are queued behind what is there, in
  order, with consecutive request numbers, as far as the outbox can hold them all.  In either case the next tick
  is scheduled and covers at most a quarter of a second.
\<close>

theorem tick_respects_backpressure:
  fixes sim :: "'g MarketSimulator" and rng :: "'g RNG" and clock :: "nat \<Rightarrow> int" and t0 now1 now2 :: int
  assumes "sim_running sim" and "line sim = (c, r)" and "queue_inv OUTBOUND_Q_CAP (outbound c)"
  defines "sim' \<equiv> tick rng clock t0 now1 now2 sim" and "caught \<equiv> tick_catch_up clock t0 now1 now2 sim"
  defines "draw \<equiv> rng_poisson rng (lambda_insert caught * tick_dt t0 sim) (sim_rng caught)"
  defines "ds \<equiv> decisions rng (sim_state caught) (cumulative_hazard (order_manager caught)) (unat (fst draw)) (snd draw)"
  defines "hold \<equiv> 55705 \<le> length (queued c) \<or> outbound_paused sim \<and> 45875 < length (queued c)"
  shows "(hold \<longrightarrow> line sim' = (c, r) \<and> outbound_paused sim')
    \<and> (\<not> hold \<longrightarrow> \<not> outbound_paused sim' \<and>
        (length (queued c) + length ds \<le> 65536 \<longrightarrow>
           queued (fst (line sim')) = queued c @ insert_messages (conn_id c) r ds \<and> snd (line sim') = r + of_nat (length ds)))
    \<and> last (sim_actions sim') = Sim_Schedule_Tick \<and> 0 \<le> tick_dt t0 sim \<and> tick_dt t0 sim \<le> 0.25"
proof -
  note caught = tick_catch_up_keeps [of clock t0 now1 now2 sim, folded caught_def]
  have l2: "line caught = (c, r)" "om_connection (order_manager caught) = c" using caught(1) assms(2) by (simp_all add: line_def)
  have hold: "hold \<longleftrightarrow> HIGH_OUTBOUND_Q_SIZE \<le> size_approx (outbound c) \<or> outbound_paused sim \<and> \<not> size_approx (outbound c) \<le> LOW_OUTBOUND_Q_SIZE"
    by (simp add: hold_def HIGH_OUTBOUND_Q_SIZE_def LOW_OUTBOUND_Q_SIZE_def OUTBOUND_Q_CAP_def word_le_nat_alt not_le)
  have sent: "sim' = tick_send rng (tick_dt t0 sim) caught" using assms(1) by (simp add: sim'_def tick_def caught_def)
  have dt: "0 \<le> tick_dt t0 sim" "tick_dt t0 sim \<le> 0.25" by (simp_all add: tick_dt_def Let_def)
  show ?thesis
  proof (cases hold)
    case True
    then have "sim' = sim_act Sim_Schedule_Tick (caught\<lparr>outbound_paused := True\<rparr>)"
      unfolding sent using caught(2) by (intro tick_send_holds) (simp add: hold l2)
    then show ?thesis using True l2 dt by (simp add: sim_act_def line_def)
  next
    case False
    then obtain g where s: "sim' = sim_act Sim_Schedule_Tick ((fold send_insert ds (caught\<lparr>outbound_paused := False\<rparr>))\<lparr>sim_rng := g\<rparr>)"
      using tick_send_sends [of caught rng "tick_dt t0 sim"] caught(2) unfolding sent ds_def draw_def by (auto simp: hold l2)
    have "line (caught\<lparr>outbound_paused := False\<rparr>) = (c, r)" using l2 by (simp add: line_def)
    note q = send_inserts_spec [OF assms(3) this, of ds]
    have paused: "outbound_paused (fold send_insert ds x) = outbound_paused x" for x :: "'g MarketSimulator"
      by (induction ds arbitrary: x) simp_all
    have "line sim' = line (fold send_insert ds (caught\<lparr>outbound_paused := False\<rparr>))" "\<not> outbound_paused sim'"
      "last (sim_actions sim') = Sim_Schedule_Tick"
      by (simp_all add: s sim_act_def line_def paused)
    then show ?thesis using False q dt by auto
  qed
qed

definition draws_one :: "pcg32 RNG" where
  "draws_one = PCGRNG (\<lambda>mean g. (1, g))"

theorem tick_respects_backpressure_witness:
  "length (queued (fst (line (tick draws_one (\<lambda>_. 0) 5 6 7 (one_update\<lparr>sim_running := True\<rparr>))))) = 1"
proof -
  let ?sim = "one_update\<lparr>sim_running := True\<rparr>"
  let ?c = "(Connection_init 0 (new_queue OUTBOUND_Q_CAP (outbound_message 0 0 [])))
    \<lparr>disconnected_set := True, large_message_received_set := True, inbound_ready_set := True\<rparr>"
  have line: "line ?sim = (?c, 0)"
    by (simp add: line_def one_update_def Let_def MarketSimulator_init_def OrderManager_init_def)
  have c: "outbound ?c = new_queue OUTBOUND_Q_CAP (outbound_message 0 0 [])" "conn_id ?c = 0" by (simp_all add: Connection_init_def)
  have inv: "queue_inv OUTBOUND_Q_CAP (outbound ?c)" "queued ?c = []" unfolding c by (simp_all add: new_queue_inv caps_ok)
  have np: "\<not> outbound_paused ?sim" by (simp add: one_update_def Let_def MarketSimulator_init_def)
  have one: "fst (rng_poisson draws_one m g) = 1" for m g by (simp add: draws_one_def PCGRNG_def)
  show ?thesis
    using tick_respects_backpressure [where sim = ?sim and rng = draws_one and clock = "\<lambda>_. 0" and ?t0.0 = 5 and ?now1.0 = 6 and ?now2.0 = 7,
        OF _ line inv(1)]
    unfolding inv(2) c(2) using np by (simp add: one del: length_contents decisions.simps)
qed

section \<open>Statistics of the simulator\<close>

text \<open>The statistics stay meaningful through everything the simulator does, for trades as the exchange reports them.\<close>

lemma drain_stats_ok:
  assumes "queue_inv INBOUND_Q_CAP (sim_inbound sim)"
    and "contents INBOUND_Q_CAP (sim_inbound sim) = map (deposited i) ps" and "list_all payload_fits ps"
    and "list_all (\<lambda>t. stat_event_ok bound (Trade t)) (concat (map trade_of (take n ps)))" and "stats_ok bound (sim_state sim)"
  shows "stats_ok bound (sim_state (drain_inbound_bounded clock n sim))"
proof -
  have "stats_ok bound (fold sim_on_trade ts st)"
    if "list_all (\<lambda>t. stat_event_ok bound (Trade t)) ts" "stats_ok bound st" for ts st
    using that by (induction ts arbitrary: st) (simp_all add: sim_on_trade_ok del: of_nat_unat)
  with drain_inbound_spec [OF assms(1-3), of clock n] assms(4,5) show ?thesis by auto
qed

lemma tick_dt_nonneg: "0 \<le> tick_dt t0 sim"
  by (simp add: tick_dt_def Let_def)

end
