(* ===== verification/Logging.thy ===== *)
theory Logging
  imports Prelude
begin

text \<open>
  Text logging: the severities and the compile-time switch of src/logging.hpp, the filter both
  programs install in Boost.Log (apps/exchange/main.cpp, apps/market_simulator/main.cpp), and the
  names the stream operators of src/types.hpp and src/logging.hpp write.  The sinks of Boost.Log are not modelled.
\<close>

datatype LogLevel = LL_DEBUG | LL_INFO | LL_WARNING | LL_ERROR | LL_FATAL

fun log_level_code :: "LogLevel \<Rightarrow> nat" where
  "log_level_code LL_DEBUG = 0"
| "log_level_code LL_INFO = 1"
| "log_level_code LL_WARNING = 2"
| "log_level_code LL_ERROR = 3"
| "log_level_code LL_FATAL = 4"

text \<open>Scoped enumerators are compared by their values.\<close>

lemma log_level_code_inj: "log_level_code a = log_level_code b \<longleftrightarrow> a = b"
  by (cases a; cases b) simp_all

instantiation LogLevel :: linorder
begin

definition less_eq_LogLevel :: "LogLevel \<Rightarrow> LogLevel \<Rightarrow> bool" where
  "less_eq_LogLevel a b \<longleftrightarrow> log_level_code a \<le> log_level_code b"

definition less_LogLevel :: "LogLevel \<Rightarrow> LogLevel \<Rightarrow> bool" where
  "less_LogLevel a b \<longleftrightarrow> log_level_code a < log_level_code b"

instance
  by standard (auto simp: less_eq_LogLevel_def less_LogLevel_def log_level_code_inj)

end

definition COMPILED_LOG_LEVEL :: "bool \<Rightarrow> LogLevel" where
  "COMPILED_LOG_LEVEL ndebug = (if ndebug then LL_WARNING else LL_DEBUG)"

definition log_level_enabled :: "bool \<Rightarrow> LogLevel \<Rightarrow> bool" where
  "log_level_enabled ndebug lvl \<longleftrightarrow> log_level_code (COMPILED_LOG_LEVEL ndebug) \<le> log_level_code lvl"

definition LOG_LEVEL_NAMES :: "string list" where
  "LOG_LEVEL_NAMES = [''DEBUG'', ''INFO'', ''WARNING'', ''ERROR'', ''FATAL'']"

definition show_log_level :: "LogLevel \<Rightarrow> string" where
  "show_log_level lvl = LOG_LEVEL_NAMES ! log_level_code lvl"

definition show_lifespan :: "Lifespan \<Rightarrow> string" where
  "show_lifespan span = (if span = FILL_AND_KILL then ''FAK'' else ''GFD'')"

definition show_side :: "Side \<Rightarrow> string" where
  "show_side side = (if side = BUY then ''Buy'' else ''Sell'')"

text \<open>The filter \<open>Severity >= LL_ERROR\<close>, and what \<open>RLOG\<close> emits under it: the build's switch, then the filter.\<close>

definition core_filter :: "LogLevel \<Rightarrow> bool" where
  "core_filter lvl \<longleftrightarrow> LL_ERROR \<le> lvl"

definition RLOG :: "bool \<Rightarrow> LogLevel \<Rightarrow> string \<Rightarrow> string list" where
  "RLOG ndebug lvl msg = (if log_level_enabled ndebug lvl then (if core_filter lvl then [msg] else []) else [])"

text \<open>The two builds log the same records, those of severity error and above; the names are in range and distinct.\<close>

lemma builds_log_the_same: "RLOG ndebug lvl msg = (if LL_ERROR \<le> lvl then [msg] else [])"
  by (cases lvl) (simp_all add: RLOG_def log_level_enabled_def COMPILED_LOG_LEVEL_def core_filter_def less_eq_LogLevel_def)

lemma log_level_names: "log_level_code lvl < length LOG_LEVEL_NAMES" "show_log_level a = show_log_level b \<longleftrightarrow> a = b"
  by (cases lvl; simp add: LOG_LEVEL_NAMES_def) (cases a; cases b; simp add: show_log_level_def LOG_LEVEL_NAMES_def)

end
