(* ===== verification/Simulator_Main.thy ===== *)
theory Simulator_Main
  imports Market_Simulator Logging Decimal
begin

text \<open>
  The simulator process (apps/market_simulator/main.cpp): it starts one thread per simulator, each of which connects
  to the exchange, builds a \<open>MarketSimulator\<close> with a generator of its own and runs its event loop until the
  shutdown callback stops it.  What resolving and connecting give, a connection or the text of an exception, and what
  the members without an initialiser hold are arguments.
\<close>

section \<open>One simulator\<close>

definition N_SIMULATORS :: nat where
  "N_SIMULATORS = 1"

definition LIQUIDITY_BOUNDS :: "Price_t list" where
  "LIQUIDITY_BOUNDS = [1, 5, 10]"

text \<open>The shared flag and the event loop that \<open>on_shutdown\<close> captures.\<close>

record ShutdownState =
  shutdown_requested :: bool
  sim_io_stopped :: bool
  io_stops :: nat

definition on_shutdown :: "ShutdownState \<Rightarrow> ShutdownState" where
  "on_shutdown st =
     (if shutdown_requested st then st
      else st\<lparr>shutdown_requested := True, sim_io_stopped := True, io_stops := io_stops st + 1\<rparr>)"

definition ShutdownState_init :: ShutdownState where
  "ShutdownState_init = \<lparr>shutdown_requested = False, sim_io_stopped = False, io_stops = 0\<rparr>"

definition simulator_thread ::
  "InboundMessage \<Rightarrow> TimeState \<Rightarrow> PriceState \<Rightarrow> LiquidityState \<Rightarrow> nat \<Rightarrow> string + Connection \<Rightarrow>
   string + pcg32 MarketSimulator" where
  "simulator_thread slot0 ts ps liq i connection =
     (case connection of
        Inl what \<Rightarrow> Inl (''[Simulator '' @ decimal i @ ''] Error: '' @ what @ endl)
      | Inr c \<Rightarrow> Inr (sim_start (MarketSimulator_init c slot0 LIQUIDITY_BOUNDS ts ps liq (seed_rng (of_nat i) 0))))"

text \<open>\<open>main\<close>: the simulators that run, what goes to \<open>std::cerr\<close>, and the exit code once all threads are joined.\<close>

definition simulator_main ::
  "InboundMessage \<Rightarrow> TimeState \<Rightarrow> PriceState \<Rightarrow> LiquidityState \<Rightarrow> (nat \<Rightarrow> string + Connection) \<Rightarrow>
   pcg32 MarketSimulator list \<times> string list \<times> nat" where
  "simulator_main slot0 ts ps liq connect =
     (let rs = map (\<lambda>i. simulator_thread slot0 ts ps liq i (connect i)) [0..<N_SIMULATORS]
      in (concat (map (\<lambda>r. case r of Inl _ \<Rightarrow> [] | Inr sim \<Rightarrow> [sim]) rs),
          concat (map (\<lambda>r. case r of Inl e \<Rightarrow> [e] | Inr _ \<Rightarrow> []) rs), 0))"

section \<open>Shutting down\<close>

text \<open>The shutdown callbacks among the actions of a simulator.\<close>

definition shutdowns :: "SimAction list \<Rightarrow> nat" where
  "shutdowns acts = length (filter (\<lambda>a. a = Sim_On_Shutdown) acts)"

lemma on_shutdown_once:
  "(on_shutdown ^^ n) ShutdownState_init =
     (if n = 0 then ShutdownState_init else \<lparr>shutdown_requested = True, sim_io_stopped = True, io_stops = 1\<rparr>)"
  by (induction n) (simp_all add: on_shutdown_def ShutdownState_init_def)

text \<open>
  However often the simulator is disconnected, the event loop is stopped exactly once, at the first time, and
  from then on it is stopped.
\<close>

lemma disconnect_stops_the_loop_once:
  assumes "sim' = (sim_on_disconnected ^^ Suc n) sim" and "shutdowns (sim_actions sim) = 0"
  shows "sim_io_stopped ((on_shutdown ^^ shutdowns (sim_actions sim')) ShutdownState_init)
    \<and> io_stops ((on_shutdown ^^ shutdowns (sim_actions sim')) ShutdownState_init) = 1 \<and> \<not> sim_running sim'"
proof -
  have "shutdowns (sim_actions ((sim_on_disconnected ^^ m) sim)) = m" for m
    by (induction m) (use assms(2) in \<open>simp_all add: sim_on_disconnected_def sim_act_def shutdowns_def\<close>)
  moreover have "\<not> sim_running sim'" by (simp add: assms(1) sim_on_disconnected_def sim_act_def)
  ultimately show ?thesis by (simp add: assms(1) on_shutdown_once del: funpow.simps)
qed

text \<open>A simulator that cannot connect only prints an error: the process still exits with 0.\<close>

lemma simulator_exit_code:
  "snd (snd (simulator_main slot0 ts ps liq connect)) = 0"
  "connect 0 = Inl what \<Longrightarrow> fst (simulator_main slot0 ts ps liq connect) = []"
  "connect 0 = Inr c \<Longrightarrow> \<exists>sim. fst (simulator_main slot0 ts ps liq connect) = [sim] \<and> sim_running sim \<and>
     sim_rng sim = seed_rng 0 0"
  by (simp_all add: simulator_main_def simulator_thread_def N_SIMULATORS_def sim_start_def sim_act_def
      MarketSimulator_init_def Let_def)

end
