(* ===== verification/Clock.thy ===== *)
theory Clock
  imports Prelude Decimal
begin

text \<open>
  The clock (src/time.cpp) and the time stamp in the names of the log files
  (\<open>make_timestamp_string\<close> of src/binary_logger.hpp).  What the system answers, a
  \<open>timespec\<close>, a \<open>FILETIME\<close> or the local time as a \<open>tm\<close>, is the argument.
\<close>

unbundle bit_operations_syntax

section \<open>Nanoseconds\<close>

record timespec =
  tv_sec :: int
  tv_nsec :: int

definition utc_now_ns_posix :: "timespec \<Rightarrow> Time_t" where
  "utc_now_ns_posix ts = of_int (tv_sec ts) * 1000000000 + of_int (tv_nsec ts)"

record FILETIME =
  dwHighDateTime :: "32 word"
  dwLowDateTime :: "32 word"

definition utc_now_ns_windows :: "FILETIME \<Rightarrow> Time_t" where
  "utc_now_ns_windows ft =
     (let t = push_bit 32 (ucast (dwHighDateTime ft)) OR ucast (dwLowDateTime ft) in t * 100)"

text \<open>A valid reading, and the instant it stands for in nanoseconds since 1970.\<close>

definition valid_timespec :: "timespec \<Rightarrow> bool" where
  "valid_timespec ts \<longleftrightarrow> 0 \<le> tv_sec ts \<and> 0 \<le> tv_nsec ts \<and> tv_nsec ts < 1000000000"

definition instant :: "timespec \<Rightarrow> int" where
  "instant ts = tv_sec ts * 1000000000 + tv_nsec ts"

text \<open>
  The same instant as a \<open>FILETIME\<close>: units of 100 nanoseconds since 1601, that is 11644473600 seconds before 1970.
\<close>

definition EPOCH_SHIFT :: int where
  "EPOCH_SHIFT = 11644473600"

definition filetime_of :: "timespec \<Rightarrow> FILETIME" where
  "filetime_of ts =
     (let ticks = (tv_sec ts + EPOCH_SHIFT) * 10000000 + tv_nsec ts div 100 in
      \<lparr>dwHighDateTime = of_int (ticks div 2 ^ 32), dwLowDateTime = of_int (ticks mod 2 ^ 32)\<rparr>)"

lemma int_unat_of_int: "0 \<le> i \<Longrightarrow> i < 2 ^ LENGTH('a) \<Longrightarrow> int (unat (of_int i :: 'a::len word)) = i"
  by (simp add: uint_nat [symmetric] unsigned_of_int take_bit_int_eq_self)

lemma posix_word: "utc_now_ns_posix ts = of_int (instant ts)"
  by (simp add: utc_now_ns_posix_def instant_def)

lemma filetime_parts:
  fixes ticks :: int
  assumes "0 \<le> ticks" "ticks < 2 ^ 64"
  shows "push_bit 32 (ucast (of_int (ticks div 2 ^ 32) :: 32 word)) OR ucast (of_int (ticks mod 2 ^ 32) :: 32 word) = (of_int ticks :: 64 word)"
proof -
  have h: "ucast (of_int (ticks div 2 ^ 32) :: 32 word) = (of_int (ticks div 2 ^ 32) :: 64 word)"
    and l: "ucast (of_int (ticks mod 2 ^ 32) :: 32 word) = (of_int (ticks mod 2 ^ 32) :: 64 word)"
    using assms by (simp_all add: unsigned_of_int take_bit_int_eq_self)
  show ?thesis unfolding h l drop_bit_eq_div [symmetric] take_bit_eq_mod [symmetric]
    by (rule bit_word_eqI) (auto simp: bit_simps bit_of_int_iff)
qed

lemma windows_word:
  assumes "valid_timespec ts" and "instant ts + EPOCH_SHIFT * 1000000000 < 2 ^ 64"
  shows "utc_now_ns_windows (filetime_of ts) = of_int (instant ts + EPOCH_SHIFT * 1000000000 - tv_nsec ts mod 100)"
proof -
  let ?t = "(tv_sec ts + EPOCH_SHIFT) * 10000000 + tv_nsec ts div 100"
  have t: "0 \<le> ?t" "?t < 2 ^ 64"
    using assms by (simp_all add: valid_timespec_def instant_def EPOCH_SHIFT_def pos_imp_zdiv_nonneg_iff)
  have "utc_now_ns_windows (filetime_of ts) = of_int ?t * 100"
    unfolding utc_now_ns_windows_def filetime_of_def Let_def using filetime_parts [OF t] by simp
  also have "\<dots> = of_int (?t * 100)" by simp
  also have "?t * 100 = instant ts + EPOCH_SHIFT * 1000000000 - tv_nsec ts mod 100"
    using mult_div_mod_eq [of 100 "tv_nsec ts"] by (simp add: instant_def algebra_simps)
  finally show ?thesis .
qed

text \<open>
  The clock.  On POSIX systems the 64-bit reading is the number of nanoseconds since 1970 for every valid
  answer of the system until \<open>2 ^ 64\<close> nanoseconds have passed (in 2554), so that later instants have
  larger time stamps.  On Windows it is the same instant to 100 nanoseconds but counted from 1601: there it is
  larger by 11644473600 seconds, until that sum exceeds 64 bits (in 2185).
\<close>

theorem clock_counts_nanoseconds:
  assumes "valid_timespec ts" and "valid_timespec ts'" and "instant ts' < 2 ^ 64"
  shows "(instant ts < instant ts' \<longrightarrow> utc_now_ns_posix ts < utc_now_ns_posix ts') \<and>
    int (unat (utc_now_ns_posix ts')) = instant ts' \<and>
    (instant ts + EPOCH_SHIFT * 1000000000 < 2 ^ 64 \<longrightarrow>
      int (unat (utc_now_ns_windows (filetime_of ts))) = instant ts + EPOCH_SHIFT * 1000000000 - tv_nsec ts mod 100)"
proof -
  have nn: "0 \<le> instant ts" "0 \<le> instant ts'" "0 \<le> tv_nsec ts" using assms by (simp_all add: valid_timespec_def instant_def)
  have val: "int (unat (utc_now_ns_posix ts')) = instant ts'"
    unfolding posix_word by (rule int_unat_of_int) (use nn assms(3) in simp_all)
  have "utc_now_ns_posix ts < utc_now_ns_posix ts'" if "instant ts < instant ts'"
  proof -
    have "int (unat (utc_now_ns_posix ts)) = instant ts"
      unfolding posix_word by (rule int_unat_of_int) (use nn assms(3) that in simp_all)
    then show ?thesis using val that by (simp add: word_less_def)
  qed
  moreover have "int (unat (utc_now_ns_windows (filetime_of ts))) = instant ts + EPOCH_SHIFT * 1000000000 - tv_nsec ts mod 100"
    if lt: "instant ts + EPOCH_SHIFT * 1000000000 < 2 ^ 64"
  proof -
    have "tv_nsec ts mod 100 < 100" "0 \<le> tv_nsec ts mod 100" by simp_all
    then show ?thesis
      unfolding windows_word [OF assms(1) lt] by (intro int_unat_of_int) (use nn lt in \<open>simp_all add: EPOCH_SHIFT_def\<close>)
  qed
  ultimately show ?thesis using val by blast
qed

theorem clock_counts_nanoseconds_witness:
  "int (unat (utc_now_ns_posix \<lparr>tv_sec = 1769203497, tv_nsec = 5\<rparr>)) = 1769203497000000005 \<and>
   int (unat (utc_now_ns_windows (filetime_of \<lparr>tv_sec = 1769203497, tv_nsec = 5\<rparr>))) = 13413677097000000000"
  using clock_counts_nanoseconds [of "\<lparr>tv_sec = 1769203497, tv_nsec = 5\<rparr>" "\<lparr>tv_sec = 1769203497, tv_nsec = 5\<rparr>"]
  by (simp add: valid_timespec_def instant_def EPOCH_SHIFT_def)

section \<open>Time stamps of the log files\<close>

record tm =
  tm_year :: nat
  tm_mon :: nat
  tm_mday :: nat
  tm_hour :: nat
  tm_min :: nat
  tm_sec :: nat

definition two_digits :: "nat \<Rightarrow> string" where
  "two_digits n = [digit (n div 10), digit (n mod 10)]"

text \<open>\<open>std::put_time\<close> with the format of the source, year, month, day, underscore, hour, minute, second;
  \<open>tm_year\<close> counts from 1900 and \<open>tm_mon\<close> from 0.\<close>

definition make_timestamp_string :: "tm \<Rightarrow> string" where
  "make_timestamp_string t =
     decimal (1900 + tm_year t) @ two_digits (tm_mon t + 1) @ two_digits (tm_mday t) @ ''_''
     @ two_digits (tm_hour t) @ two_digits (tm_min t) @ two_digits (tm_sec t)"

definition valid_tm :: "tm \<Rightarrow> bool" where
  "valid_tm t \<longleftrightarrow> tm_mon t < 12 \<and> tm_mday t \<le> 31 \<and> tm_hour t < 24 \<and> tm_min t < 60 \<and> tm_sec t \<le> 60"

lemma digit_inj: "m < 10 \<Longrightarrow> n < 10 \<Longrightarrow> digit m = digit n \<Longrightarrow> m = n"
  by (metis add_left_cancel of_char_digit)

lemma two_digits_inj: "m < 100 \<Longrightarrow> n < 100 \<Longrightarrow> two_digits m = two_digits n \<longleftrightarrow> m = n"
proof
  assume "m < 100" "n < 100" "two_digits m = two_digits n"
  then have "m div 10 = n div 10" "m mod 10 = n mod 10" by (auto simp: two_digits_def intro: digit_inj)
  then show "m = n" by (metis div_mult_mod_eq)
qed simp

lemma decimal_inj: "decimal m = decimal n \<longleftrightarrow> m = n"
  by (metis read_decimal)

lemma two_digits_length [simp]: "length (two_digits n) = 2"
  by (simp add: two_digits_def)

text \<open>Loggers opened in different seconds of local time get different time stamps.\<close>

lemma make_timestamp_string_inj:
  assumes "valid_tm t" and "valid_tm u" and "make_timestamp_string t = make_timestamp_string u"
  shows "t = u"
  using assms
  by (cases t; cases u)
    (auto simp: make_timestamp_string_def valid_tm_def append_eq_append_conv decimal_inj two_digits_inj)

end
