(* ===== verification/Binary_Logger.thy ===== *)
theory Binary_Logger
  imports Messages Spsc_Queue Clock
begin

text \<open>
  The event logger of src/binary_logger.hpp.  The exchange's thread copies payloads into one queue
  per event type; a writer thread moves them through a staging buffer per type into one file per
  type.  The five queues and the five sinks of the class are functions of the type's \<open>LogFile\<close>.

  The Win32 calls are parameters: \<open>create\<close> says for which file names \<open>CreateFileA\<close> gives a valid
  handle, and \<open>write_file contents bytes\<close> is what a file holds after \<open>WriteFile\<close>, whose result
  the code ignores.  That a write appends all its bytes (\<open>writes_all\<close>) is a hypothesis of the
  theorems that need it.  The local time in the file names is an argument.
\<close>

section \<open>File names\<close>

fun message_type_to_string :: "MessageType \<Rightarrow> string" where
  "message_type_to_string PRICE_LEVEL_UPDATE = ''price_level_update''"
| "message_type_to_string TRADE_EVENT = ''trade''"
| "message_type_to_string ORDER_INSERTED_EVENT = ''insert_order''"
| "message_type_to_string ORDER_CANCELLED_EVENT = ''cancel_order''"
| "message_type_to_string ORDER_AMENDED_EVENT = ''amend_order''"
| "message_type_to_string t = ''type_'' @ decimal (unat (type_code t))"

definition make_typed_filename :: "string \<Rightarrow> string \<Rightarrow> MessageType \<Rightarrow> string" where
  "make_typed_filename dir base_ts t = dir @ ''/'' @ base_ts @ ''_'' @ message_type_to_string t @ ''.bin''"

definition MAX_LOGGED_SIZE :: nat where
  "MAX_LOGGED_SIZE = max_size
    [sizeof PayloadTradeEvent_codec, sizeof PayloadOrderInsertedEvent_codec,
     sizeof PayloadOrderCancelledEvent_codec, sizeof PayloadOrderAmendedEvent_codec,
     sizeof PayloadPriceLevelUpdate_codec]"

section \<open>Sinks and queues\<close>

datatype LogFile = Log_Plu | Log_Trade | Log_Insert | Log_Cancel | Log_Amend

text \<open>The order in which the code goes through its sinks.\<close>

definition LOG_FILES :: "LogFile list" where
  "LOG_FILES = [Log_Plu, Log_Trade, Log_Insert, Log_Cancel, Log_Amend]"

fun logged_type :: "LogFile \<Rightarrow> MessageType" where
  "logged_type Log_Plu = PRICE_LEVEL_UPDATE"
| "logged_type Log_Trade = TRADE_EVENT"
| "logged_type Log_Insert = ORDER_INSERTED_EVENT"
| "logged_type Log_Cancel = ORDER_CANCELLED_EVENT"
| "logged_type Log_Amend = ORDER_AMENDED_EVENT"

text \<open>Of the staging array the first \<open>offset\<close> bytes; \<open>on_disk\<close> is what the file holds.\<close>

record FileSink =
  file_valid :: bool
  on_disk :: "byte list"
  staging :: "byte list"
  sink_payload_size :: nat
  opened :: bool

definition FileSink_init :: FileSink where
  "FileSink_init = \<lparr>file_valid = False, on_disk = [], staging = [], sink_payload_size = 0, opened = False\<rparr>"

definition STAGING_BYTES :: nat where
  "STAGING_BYTES = 64 * 1024"

type_synonym PayloadItem = "byte list"

fun q_cap :: "LogFile \<Rightarrow> size_t" where
  "q_cap Log_Plu = push_bit 15 1"
| "q_cap Log_Trade = push_bit 15 1"
| "q_cap Log_Insert = push_bit 14 1"
| "q_cap Log_Cancel = push_bit 14 1"
| "q_cap Log_Amend = push_bit 14 1"

record BinaryEventLogger =
  queues :: "LogFile \<Rightarrow> PayloadItem SPSCQueue"
  sinks :: "LogFile \<Rightarrow> FileSink"
  logger_running :: bool

section \<open>Opening, flushing, closing\<close>

definition open_sink :: "(string \<Rightarrow> bool) \<Rightarrow> string \<Rightarrow> string \<Rightarrow> MessageType \<Rightarrow> FileSink \<Rightarrow> string + FileSink" where
  "open_sink create dir base_ts t sink =
    (let filename = make_typed_filename dir base_ts t in
     if \<not> create filename then Inl (''Failed to open binary log file: '' @ filename)
     else if MAX_LOGGED_SIZE < payload_size_for_type t
     then Inl (''Payload size exceeds MAX_LOGGED_SIZE for type: '' @ filename)
     else Inr (sink\<lparr>file_valid := True, on_disk := [], sink_payload_size := payload_size_for_type t,
                opened := True, staging := []\<rparr>))"

type_synonym write_file = "byte list \<Rightarrow> byte list \<Rightarrow> byte list"

definition flush_sink :: "write_file \<Rightarrow> FileSink \<Rightarrow> FileSink" where
  "flush_sink wr sink =
    (if \<not> opened sink \<or> \<not> file_valid sink then sink
     else if staging sink = [] then sink
     else sink\<lparr>on_disk := wr (on_disk sink) (staging sink), staging := []\<rparr>)"

definition flush_sink_if_nonempty :: "write_file \<Rightarrow> FileSink \<Rightarrow> FileSink" where
  "flush_sink_if_nonempty wr sink =
    (if 0 < length (staging sink) \<and> 4096 \<le> length (staging sink) then flush_sink wr sink else sink)"

definition write_direct :: "write_file \<Rightarrow> FileSink \<Rightarrow> byte list \<Rightarrow> FileSink" where
  "write_direct wr sink buffer =
    (if \<not> opened sink \<or> \<not> file_valid sink then sink else sink\<lparr>on_disk := wr (on_disk sink) buffer\<rparr>)"

definition close_sink :: "FileSink \<Rightarrow> FileSink" where
  "close_sink sink =
    (if \<not> opened sink \<or> \<not> file_valid sink then sink
     else sink\<lparr>file_valid := False, opened := False, staging := []\<rparr>)"

section \<open>The producer\<close>

fun log_file_of :: "MessageType \<Rightarrow> LogFile option" where
  "log_file_of PRICE_LEVEL_UPDATE = Some Log_Plu"
| "log_file_of TRADE_EVENT = Some Log_Trade"
| "log_file_of ORDER_INSERTED_EVENT = Some Log_Insert"
| "log_file_of ORDER_CANCELLED_EVENT = Some Log_Cancel"
| "log_file_of ORDER_AMENDED_EVENT = Some Log_Amend"
| "log_file_of _ = None"

definition payload_item :: "nat \<Rightarrow> byte list \<Rightarrow> PayloadItem" where
  "payload_item psz bytes = take psz bytes @ replicate (MAX_LOGGED_SIZE - psz) 0"

definition push_item :: "BinaryEventLogger \<Rightarrow> LogFile \<Rightarrow> byte list \<Rightarrow> bool \<times> PayloadItem SPSCQueue" where
  "push_item l x bytes =
     try_push (q_cap x) (payload_item (sink_payload_size (sinks l x)) bytes) (queues l x)"

definition log_message :: "BinaryEventLogger \<Rightarrow> MessageType \<Rightarrow> byte list \<Rightarrow> BinaryEventLogger" where
  "log_message l t bytes =
    (case log_file_of t of None \<Rightarrow> l
     | Some x \<Rightarrow> l\<lparr>queues := (queues l)(x := snd (push_item l x bytes))\<rparr>)"

definition backlog_approx :: "BinaryEventLogger \<Rightarrow> size_t" where
  "backlog_approx l = size_approx (queues l Log_Plu) + size_approx (queues l Log_Trade)
     + size_approx (queues l Log_Insert) + size_approx (queues l Log_Cancel) + size_approx (queues l Log_Amend)"

section \<open>The writer\<close>

definition BATCH :: nat where
  "BATCH = 256"

definition store_item :: "write_file \<Rightarrow> PayloadItem \<Rightarrow> FileSink \<Rightarrow> FileSink" where
  "store_item wr tmp sink =
    (let psz = sink_payload_size sink in
     if STAGING_BYTES < psz then write_direct wr (flush_sink wr sink) (take psz tmp)
     else let sink1 = (if STAGING_BYTES < length (staging sink) + psz then flush_sink wr sink else sink);
              sink2 = sink1\<lparr>staging := staging sink1 @ take psz tmp\<rparr>
          in if STAGING_BYTES - 4096 \<le> length (staging sink2) then flush_sink wr sink2 else sink2)"

fun drain_queue :: "write_file \<Rightarrow> size_t \<Rightarrow> nat \<Rightarrow> PayloadItem SPSCQueue \<Rightarrow> FileSink \<Rightarrow>
    bool \<times> PayloadItem SPSCQueue \<times> FileSink" where
  "drain_queue wr c 0 q sink = (False, q, sink)"
| "drain_queue wr c (Suc n) q sink =
    (case try_pop c q of (None, q1) \<Rightarrow> (False, q1, sink)
     | (Some tmp, q1) \<Rightarrow> (True, snd (drain_queue wr c n q1 (store_item wr tmp sink))))"

definition drain_file :: "write_file \<Rightarrow> nat \<Rightarrow> LogFile \<Rightarrow> BinaryEventLogger \<Rightarrow> bool \<times> BinaryEventLogger" where
  "drain_file wr n x l =
    (let (did, q, s) = drain_queue wr (q_cap x) n (queues l x) (sinks l x)
     in (did, l\<lparr>queues := (queues l)(x := q), sinks := (sinks l)(x := s)\<rparr>))"

definition on_sink :: "(FileSink \<Rightarrow> FileSink) \<Rightarrow> LogFile \<Rightarrow> BinaryEventLogger \<Rightarrow> BinaryEventLogger" where
  "on_sink f x l = l\<lparr>sinks := (sinks l)(x := f (sinks l x))\<rparr>"

fun drain_files :: "write_file \<Rightarrow> LogFile list \<Rightarrow> BinaryEventLogger \<Rightarrow> bool \<times> BinaryEventLogger" where
  "drain_files wr [] l = (False, l)"
| "drain_files wr (x # xs) l =
    (let (did, l1) = drain_file wr BATCH x l; (did', l2) = drain_files wr xs l1 in (did \<or> did', l2))"

definition writer_pass :: "write_file \<Rightarrow> BinaryEventLogger \<Rightarrow> BinaryEventLogger" where
  "writer_pass wr l =
    (let (did_work, l1) = drain_files wr LOG_FILES l
     in if did_work then l1 else fold (on_sink (flush_sink_if_nonempty wr)) LOG_FILES l1)"

partial_function (option) writer_loop :: "write_file \<Rightarrow> BinaryEventLogger \<Rightarrow> BinaryEventLogger option" where
  "writer_loop wr l =
    (if logger_running l \<or> 0 < backlog_approx l then writer_loop wr (writer_pass wr l)
     else Some (fold (on_sink (flush_sink wr)) LOG_FILES l))"

section \<open>Construction and destruction\<close>

fun open_sinks :: "(string \<Rightarrow> bool) \<Rightarrow> string \<Rightarrow> string \<Rightarrow> LogFile list \<Rightarrow> BinaryEventLogger \<Rightarrow>
    string + BinaryEventLogger" where
  "open_sinks create dir base_ts [] l = Inr l"
| "open_sinks create dir base_ts (x # xs) l =
    (case open_sink create dir base_ts (logged_type x) (sinks l x) of
       Inl e \<Rightarrow> Inl e
     | Inr s \<Rightarrow> open_sinks create dir base_ts xs (l\<lparr>sinks := (sinks l)(x := s)\<rparr>))"

definition BinaryEventLogger_init :: "(string \<Rightarrow> bool) \<Rightarrow> string \<Rightarrow> string \<Rightarrow> string + BinaryEventLogger" where
  "BinaryEventLogger_init create dir base_ts =
    open_sinks create dir base_ts LOG_FILES
      \<lparr>queues = (\<lambda>x. new_queue (q_cap x) (replicate MAX_LOGGED_SIZE 0)), sinks = (\<lambda>_. FileSink_init),
       logger_running = True\<rparr>"

definition BinaryEventLogger_destroy :: "write_file \<Rightarrow> BinaryEventLogger \<Rightarrow> BinaryEventLogger option" where
  "BinaryEventLogger_destroy wr l = do {
     l1 \<leftarrow> writer_loop wr (l\<lparr>logger_running := False\<rparr>);
     Some (fold (on_sink close_sink) LOG_FILES (fold (on_sink (flush_sink wr)) LOG_FILES l1)) }"


section \<open>One sink\<close>

text \<open>What the Win32 documentation says of a successful write.\<close>

definition writes_all :: "write_file \<Rightarrow> bool" where
  "writes_all wr \<longleftrightarrow> (\<forall>f bs. wr f bs = f @ bs)"

abbreviation psz :: "LogFile \<Rightarrow> nat" where
  "psz x \<equiv> payload_size_for_type (logged_type x)"

lemma logged_sizes: "0 < psz x" "psz x \<le> MAX_LOGGED_SIZE" "MAX_LOGGED_SIZE < 4096"
  by (cases x; simp add: MAX_LOGGED_SIZE_def max_size_def codec_size)+

definition sink_ok :: "LogFile \<Rightarrow> FileSink \<Rightarrow> bool" where
  "sink_ok x s \<longleftrightarrow> opened s \<and> file_valid s \<and> sink_payload_size s = psz x \<and>
     length (staging s) < STAGING_BYTES - 4096"

text \<open>All bytes that went into a sink.\<close>

definition sunk :: "FileSink \<Rightarrow> byte list" where
  "sunk s = on_disk s @ staging s"

lemma flush_sink_spec:
  assumes "writes_all wr" and "opened s" and "file_valid s"
  shows "flush_sink wr s = s\<lparr>on_disk := sunk s, staging := []\<rparr>"
  using assms by (simp add: flush_sink_def writes_all_def sunk_def)

lemma flush_sink_ok:
  assumes "writes_all wr" and "sink_ok x s"
  shows "sink_ok x (flush_sink wr s)" "sunk (flush_sink wr s) = sunk s" "staging (flush_sink wr s) = []"
    "sink_ok x (flush_sink_if_nonempty wr s)" "sunk (flush_sink_if_nonempty wr s) = sunk s"
  using assms by (simp_all add: sink_ok_def flush_sink_if_nonempty_def flush_sink_spec sunk_def STAGING_BYTES_def)

lemma store_item_spec:
  assumes "writes_all wr" and "sink_ok x s" and "length tmp = MAX_LOGGED_SIZE"
  shows "sink_ok x (store_item wr tmp s)" "sunk (store_item wr tmp s) = sunk s @ take (psz x) tmp"
proof -
  have s: "opened s" "file_valid s" "sink_payload_size s = psz x" "length (staging s) < STAGING_BYTES - 4096"
    using assms(2) by (simp_all add: sink_ok_def)
  define s1 where "s1 = s\<lparr>staging := staging s @ take (psz x) tmp\<rparr>"
  have "store_item wr tmp s = (if STAGING_BYTES - 4096 \<le> length (staging s1) then flush_sink wr s1 else s1)"
    using s logged_sizes(1,2) [of x] logged_sizes(3) by (simp add: store_item_def Let_def s1_def STAGING_BYTES_def)
  moreover have "opened s1" "file_valid s1" "sink_payload_size s1 = psz x" "sunk s1 = sunk s @ take (psz x) tmp"
    using s by (simp_all add: s1_def sunk_def)
  ultimately show "sink_ok x (store_item wr tmp s)" "sunk (store_item wr tmp s) = sunk s @ take (psz x) tmp"
    using flush_sink_spec [OF assms(1), of s1] by (simp_all add: sink_ok_def sunk_def STAGING_BYTES_def)
qed

section \<open>One queue and its sink\<close>

definition items_ok :: "LogFile \<Rightarrow> PayloadItem SPSCQueue \<Rightarrow> bool" where
  "items_ok x q \<longleftrightarrow> queue_inv (q_cap x) q \<and> (\<forall>tmp \<in> set (contents (q_cap x) q). length tmp = MAX_LOGGED_SIZE)"

definition queued_bytes :: "LogFile \<Rightarrow> PayloadItem list \<Rightarrow> byte list" where
  "queued_bytes x tmps = concat (map (take (psz x)) tmps)"

lemma queued_bytes_simps [simp]:
  "queued_bytes x [] = []" "queued_bytes x (tmp # tmps) = take (psz x) tmp @ queued_bytes x tmps"
  "queued_bytes x (as @ bs) = queued_bytes x as @ queued_bytes x bs"
  by (simp_all add: queued_bytes_def)

lemma drain_queue_spec:
  assumes "writes_all wr" and "items_ok x q" and "sink_ok x s"
    and "drain_queue wr (q_cap x) n q s = (did, q', s')"
  shows "items_ok x q'" "sink_ok x s'" "contents (q_cap x) q' = drop n (contents (q_cap x) q)"
    "sunk s' = sunk s @ queued_bytes x (take n (contents (q_cap x) q))"
    "did \<longleftrightarrow> 0 < n \<and> contents (q_cap x) q \<noteq> []"
proof -
  have "items_ok x q' \<and> sink_ok x s' \<and> contents (q_cap x) q' = drop n (contents (q_cap x) q) \<and>
      sunk s' = sunk s @ queued_bytes x (take n (contents (q_cap x) q)) \<and>
      (did \<longleftrightarrow> 0 < n \<and> contents (q_cap x) q \<noteq> [])"
    using assms(2-4)
  proof (induction n arbitrary: q s did q' s')
    case 0
    then show ?case by simp
  next
    case (Suc n)
    have inv: "queue_inv (q_cap x) q" using Suc.prems(1) by (simp add: items_ok_def)
    show ?case
    proof (cases "contents (q_cap x) q")
      case Nil
      then have "try_pop (q_cap x) q = (None, q)" by (rule ring.pop_empty [OF inv])
      then show ?thesis using Suc.prems Nil by auto
    next
      case (Cons tmp tmps)
      obtain q1 where q1: "try_pop (q_cap x) q = (Some tmp, q1)" "queue_inv (q_cap x) q1" "contents (q_cap x) q1 = tmps"
        using ring.pop_front [OF inv Cons] by (metis prod.collapse)
      obtain d q2 s2 where d: "drain_queue wr (q_cap x) n q1 (store_item wr tmp s) = (d, q2, s2)" by (metis prod_cases3)
      have len: "length tmp = MAX_LOGGED_SIZE" and ok1: "items_ok x q1"
        using Suc.prems(1) Cons q1 by (simp_all add: items_ok_def)
      note st = store_item_spec [OF assms(1) Suc.prems(2) len]
      show ?thesis using Suc.IH [OF ok1 st(1) d] Suc.prems(3) q1 d st(2) Cons by simp
    qed
  qed
  then show "items_ok x q'" "sink_ok x s'" "contents (q_cap x) q' = drop n (contents (q_cap x) q)"
    "sunk s' = sunk s @ queued_bytes x (take n (contents (q_cap x) q))"
    "did \<longleftrightarrow> 0 < n \<and> contents (q_cap x) q \<noteq> []" by blast+
qed

section \<open>The invariant\<close>

text \<open>
  \<open>acc\<close> lists what the queues accepted, each payload with the file it is for.  Per file, the
  bytes on disk, staged and queued are the accepted ones in order.
\<close>

definition bytes_for :: "LogFile \<Rightarrow> (LogFile \<times> byte list) list \<Rightarrow> byte list" where
  "bytes_for x acc = concat (map snd (filter (\<lambda>(y, bs). y = x) acc))"

definition log_inv :: "(LogFile \<times> byte list) list \<Rightarrow> BinaryEventLogger \<Rightarrow> bool" where
  "log_inv acc l \<longleftrightarrow> (\<forall>x. items_ok x (queues l x) \<and> sink_ok x (sinks l x) \<and>
     sunk (sinks l x) @ queued_bytes x (contents (q_cap x) (queues l x)) = bytes_for x acc)"

lemma log_invD:
  assumes "log_inv acc l"
  shows "items_ok x (queues l x)" "sink_ok x (sinks l x)"
    "sunk (sinks l x) @ queued_bytes x (contents (q_cap x) (queues l x)) = bytes_for x acc"
  using assms by (simp_all add: log_inv_def)

lemma log_inv_sink:
  assumes inv: "log_inv acc l" and f: "sink_ok x (sinks l x) \<Longrightarrow> sink_ok x (f (sinks l x)) \<and> sunk (f (sinks l x)) = sunk (sinks l x)"
  shows "log_inv acc (on_sink f x l)"
  using log_invD [OF inv] f by (auto simp: log_inv_def on_sink_def)

lemma log_inv_sinks:
  assumes "log_inv acc l" and "\<And>x s. sink_ok x s \<Longrightarrow> sink_ok x (f s) \<and> sunk (f s) = sunk s"
  shows "log_inv acc (fold (on_sink f) xs l)"
  using assms(1) by (induction xs arbitrary: l) (simp_all add: log_inv_sink assms(2))

lemma drain_file_inv:
  assumes wr: "writes_all wr" and inv: "log_inv acc l" and d: "drain_file wr n x l = (did, l')"
  shows "log_inv acc l'" "logger_running l' = logger_running l"
    "contents (q_cap y) (queues l' y) = (if y = x then drop n (contents (q_cap x) (queues l x)) else contents (q_cap y) (queues l y))"
    "did \<longleftrightarrow> 0 < n \<and> contents (q_cap x) (queues l x) \<noteq> []"
proof -
  obtain q s where q: "drain_queue wr (q_cap x) n (queues l x) (sinks l x) = (did, q, s)"
    and l': "l' = l\<lparr>queues := (queues l)(x := q), sinks := (sinks l)(x := s)\<rparr>"
    using d by (auto simp: drain_file_def split: prod.splits)
  note sp = drain_queue_spec [OF wr log_invD(1,2) [OF inv] q]
  have "sunk s @ queued_bytes x (contents (q_cap x) q) = bytes_for x acc"
    using log_invD(3) [OF inv, of x] sp(3,4) by (metis append_take_drop_id append.assoc queued_bytes_simps(3))
  then show "log_inv acc l'" using sp(1,2) log_invD [OF inv] by (auto simp: log_inv_def l')
  show "contents (q_cap y) (queues l' y) = (if y = x then drop n (contents (q_cap x) (queues l x)) else contents (q_cap y) (queues l y))"
    "logger_running l' = logger_running l" "did \<longleftrightarrow> 0 < n \<and> contents (q_cap x) (queues l x) \<noteq> []"
    using sp(3,5) by (simp_all add: l')
qed


lemma drain_files_inv:
  assumes "writes_all wr" and "log_inv acc l" and "distinct xs" and "drain_files wr xs l = (did, l')"
  shows "log_inv acc l' \<and> logger_running l' = logger_running l \<and>
    (\<forall>y. contents (q_cap y) (queues l' y) =
       (if y \<in> set xs then drop BATCH (contents (q_cap y) (queues l y)) else contents (q_cap y) (queues l y))) \<and>
    (did \<longleftrightarrow> (\<exists>x \<in> set xs. contents (q_cap x) (queues l x) \<noteq> []))"
  using assms(2-4)
proof (induction xs arbitrary: l did)
  case Nil
  then show ?case by simp
next
  case (Cons x xs)
  obtain d1 l1 where d1: "drain_file wr BATCH x l = (d1, l1)" by (metis surj_pair)
  obtain d2 where d2: "drain_files wr xs l1 = (d2, l')" and did: "did \<longleftrightarrow> d1 \<or> d2"
    using Cons.prems(3) d1 by (auto split: prod.splits)
  note a = drain_file_inv [OF assms(1) Cons.prems(1) d1]
  have b: "log_inv acc l' \<and> logger_running l' = logger_running l1 \<and>
    (\<forall>y. contents (q_cap y) (queues l' y) =
       (if y \<in> set xs then drop BATCH (contents (q_cap y) (queues l1 y)) else contents (q_cap y) (queues l1 y))) \<and>
    (d2 \<longleftrightarrow> (\<exists>x \<in> set xs. contents (q_cap x) (queues l1 x) \<noteq> []))"
    using Cons.prems(2) by (intro Cons.IH a(1) d2) simp
  have other: "contents (q_cap y) (queues l1 y) = contents (q_cap y) (queues l y)" if "y \<in> set xs" for y
    using a(3) [of y] Cons.prems(2) that by auto
  show ?case
  proof (intro conjI allI)
    show "log_inv acc l'" "logger_running l' = logger_running l" using a(2) b by simp_all
    show "contents (q_cap y) (queues l' y) =
       (if y \<in> set (x # xs) then drop BATCH (contents (q_cap y) (queues l y)) else contents (q_cap y) (queues l y))" for y
      using a(3) [of y] b Cons.prems(2) other by auto
    show "did \<longleftrightarrow> (\<exists>x \<in> set (x # xs). contents (q_cap x) (queues l x) \<noteq> [])"
      using a(4) b other did by (auto simp: BATCH_def)
  qed
qed

section \<open>The two threads\<close>

text \<open>
  The producer's calls and the writer's calls in any order.  A step of the writer is a run of
  \<open>n\<close> rounds of the loop in \<open>drain_queue_\<close>, where the producer may come in after each, or a flush.
  The queue's own atomic accesses are interleaved in the theory of the queue.
\<close>

inductive logger_step :: "write_file \<Rightarrow> (LogFile \<times> byte list) list \<times> BinaryEventLogger \<Rightarrow>
    (LogFile \<times> byte list) list \<times> BinaryEventLogger \<Rightarrow> bool" for wr where
  step_log: "payload_size_for_type t \<le> length bytes \<Longrightarrow>
    logger_step wr (acc, l) (case log_file_of t of None \<Rightarrow> acc
      | Some x \<Rightarrow> if fst (push_item l x bytes) then acc @ [(x, take (psz x) bytes)] else acc, log_message l t bytes)"
| step_drain: "logger_step wr (acc, l) (acc, snd (drain_file wr n x l))"
| step_flush: "logger_step wr (acc, l) (acc, on_sink (flush_sink wr) x l)"
| step_flush_if: "logger_step wr (acc, l) (acc, on_sink (flush_sink_if_nonempty wr) x l)"
| step_stop: "logger_step wr (acc, l) (acc, l\<lparr>logger_running := False\<rparr>)"

inductive_cases logger_stepE: "logger_step wr s s'"

lemma q_caps: "capacity_ok (q_cap x)" "unat (q_cap x) \<le> 2 ^ 15"
  by (cases x; simp add: capacity_ok_def)+

lemma log_file_of_type: "log_file_of t = Some x \<longleftrightarrow> t = logged_type x"
  by (cases t; cases x) simp_all

lemma push_accepted:
  assumes "log_inv acc l"
  shows "fst (push_item l x bytes) \<longleftrightarrow> length (contents (q_cap x) (queues l x)) < unat (q_cap x)"
proof -
  have q: "queue_inv (q_cap x) (queues l x)" using log_invD(1) [OF assms, of x] by (simp add: items_ok_def)
  have full: "length (contents (q_cap x) (queues l x)) = unat (q_cap x)" if "\<not> length (contents (q_cap x) (queues l x)) < unat (q_cap x)"
    using ring.items_bound [OF q] that by simp
  show ?thesis
    unfolding push_item_def using ring.push_room [OF q] ring.push_full [OF q full]
    by (cases "length (contents (q_cap x) (queues l x)) < unat (q_cap x)") (simp_all del: length_contents)
qed

lemma log_message_inv:
  assumes inv: "log_inv acc l" and len: "payload_size_for_type t \<le> length bytes" and x: "log_file_of t = Some x"
  shows "log_inv (if fst (push_item l x bytes) then acc @ [(x, take (psz x) bytes)] else acc) (log_message l t bytes)"
proof -
  let ?q = "queues l x" and ?item = "payload_item (psz x) bytes"
  have q: "queue_inv (q_cap x) ?q" "\<And>tmp. tmp \<in> set (contents (q_cap x) ?q) \<Longrightarrow> length tmp = MAX_LOGGED_SIZE"
    using log_invD(1) [OF inv, of x] by (simp_all add: items_ok_def)
  have p: "push_item l x bytes = try_push (q_cap x) ?item ?q"
    using log_invD(2) [OF inv, of x] by (simp add: push_item_def sink_ok_def)
  have item: "length ?item = MAX_LOGGED_SIZE" "take (psz x) ?item = take (psz x) bytes"
    using len x logged_sizes(2) [of x] by (simp_all add: payload_item_def log_file_of_type)
  have l': "log_message l t bytes = l\<lparr>queues := (queues l)(x := snd (push_item l x bytes))\<rparr>"
    using x by (simp add: log_message_def)
  show ?thesis
  proof (cases "length (contents (q_cap x) ?q) < unat (q_cap x)")
    case True
    note r = ring.push_room [OF q(1) True, of ?item]
    have "bytes_for y (acc @ [(x, take (psz x) bytes)]) = bytes_for y acc @ (if x = y then take (psz x) bytes else [])" for y
      by (simp add: bytes_for_def)
    then show ?thesis
      using r item q(2) log_invD [OF inv] log_invD(3) [OF inv, of x] unfolding l' p
      by (auto simp: log_inv_def items_ok_def simp flip: append_assoc)
  next
    case False
    then have "length (contents (q_cap x) ?q) = unat (q_cap x)" using ring.items_bound [OF q(1)] by simp
    then have "try_push (q_cap x) ?item ?q = (False, ?q)" by (rule ring.push_full [OF q(1)])
    then show ?thesis using inv unfolding l' p by simp
  qed
qed

lemma logger_step_inv:
  assumes "logger_step wr s s'" and "writes_all wr" and "log_inv (fst s) (snd s)"
  shows "log_inv (fst s') (snd s')"
  using assms
proof (cases rule: logger_step.cases)
  case (step_log t bytes acc l)
  then show ?thesis
    using assms(3) log_message_inv [of acc l t bytes] by (cases "log_file_of t") (auto simp: log_message_def split: if_splits)
next
  case (step_drain acc l n x)
  then show ?thesis using assms(3) drain_file_inv(1) [OF assms(2), of acc l n x] by (metis fst_conv snd_conv prod.collapse)
next
  case (step_flush acc l x)
  then show ?thesis using assms(3) log_inv_sink flush_sink_ok [OF assms(2)] by simp
next
  case (step_flush_if acc l x)
  then show ?thesis using assms(3) log_inv_sink flush_sink_ok [OF assms(2)] by simp
next
  case (step_stop acc l)
  then show ?thesis using assms(3) by (simp add: log_inv_def)
qed


section \<open>Opening and shutting down\<close>

lemma distinct_log_files: "distinct LOG_FILES" "x \<in> set LOG_FILES"
  by (simp_all add: LOG_FILES_def, cases x) simp_all

lemma open_sink_eq:
  "open_sink create dir ts (logged_type x) sink =
    (if create (make_typed_filename dir ts (logged_type x))
     then Inr (sink\<lparr>file_valid := True, on_disk := [], sink_payload_size := psz x, opened := True, staging := []\<rparr>)
     else Inl (''Failed to open binary log file: '' @ make_typed_filename dir ts (logged_type x)))"
  using logged_sizes(2) [of x] by (simp add: open_sink_def Let_def)

lemma open_sinks_eq:
  assumes "distinct xs"
  shows "open_sinks create dir ts xs l =
    (case find (\<lambda>x. \<not> create (make_typed_filename dir ts (logged_type x))) xs of
       Some x \<Rightarrow> Inl (''Failed to open binary log file: '' @ make_typed_filename dir ts (logged_type x))
     | None \<Rightarrow> Inr (l\<lparr>sinks := (\<lambda>x. if x \<in> set xs then (sinks l x)\<lparr>file_valid := True, on_disk := [],
         sink_payload_size := psz x, opened := True, staging := []\<rparr> else sinks l x)\<rparr>))"
  using assms
proof (induction xs arbitrary: l)
  case (Cons x xs)
  then show ?case by (auto simp: open_sink_eq fun_eq_iff split: option.split intro!: BinaryEventLogger.equality)
qed simp

lemma init_inv:
  assumes "BinaryEventLogger_init create dir ts = Inr l"
  shows "log_inv [] l"
proof -
  have "l = \<lparr>queues = (\<lambda>x. new_queue (q_cap x) (replicate MAX_LOGGED_SIZE 0)),
      sinks = (\<lambda>x. FileSink_init\<lparr>file_valid := True, on_disk := [], sink_payload_size := psz x, opened := True, staging := []\<rparr>),
      logger_running = True\<rparr>"
    using assms by (simp add: BinaryEventLogger_init_def open_sinks_eq [OF distinct_log_files(1)] distinct_log_files(2)
        split: option.splits)
  then show ?thesis
    by (simp add: new_queue_inv [OF q_caps(1)] log_inv_def items_ok_def sink_ok_def STAGING_BYTES_def sunk_def bytes_for_def)
qed

lemma backlog_zero:
  assumes "log_inv acc l"
  shows "0 < backlog_approx l \<longleftrightarrow> (\<exists>x. contents (q_cap x) (queues l x) \<noteq> [])"
proof -
  let ?n = "\<lambda>x. length (contents (q_cap x) (queues l x))"
  have le: "?n x \<le> 2 ^ 15" for x
    using ring.items_bound [of "q_cap x" "queues l x"] log_invD(1) [OF assms, of x] q_caps(2) [of x] by (simp add: items_ok_def)
  have "unat (backlog_approx l) = ?n Log_Plu + ?n Log_Trade + ?n Log_Insert + ?n Log_Cancel + ?n Log_Amend"
    using le [of Log_Plu] le [of Log_Trade] le [of Log_Insert] le [of Log_Cancel] le [of Log_Amend]
    by (simp add: backlog_approx_def unat_add_bounded)
  then have "0 < backlog_approx l \<longleftrightarrow> (\<exists>x \<in> set LOG_FILES. 0 < ?n x)"
    unfolding word_gt_0_unat by (simp add: LOG_FILES_def)
  also have "\<dots> \<longleftrightarrow> (\<exists>x. contents (q_cap x) (queues l x) \<noteq> [])"
    using distinct_log_files(2) by (simp only: length_greater_0_conv) blast
  finally show ?thesis .
qed

lemma sum_list_less:
  assumes "\<And>y. f y \<le> g y" and "x \<in> set xs" and "f x < g x"
  shows "sum_list (map f xs) < sum_list (map g xs :: nat list)"
  using assms(2)
proof (induction xs)
  case (Cons y ys)
  have "sum_list (map f ys) \<le> sum_list (map g ys)" by (rule sum_list_mono) (rule assms(1))
  then show ?case using Cons assms(1) [of y] assms(3) by (auto intro: add_less_le_mono add_le_less_mono)
qed simp

definition backlog_items :: "BinaryEventLogger \<Rightarrow> nat" where
  "backlog_items l = (\<Sum>x\<leftarrow>LOG_FILES. length (contents (q_cap x) (queues l x)))"

lemma writer_pass_progress:
  assumes "writes_all wr" and "log_inv acc l" and "0 < backlog_approx l"
  shows "log_inv acc (writer_pass wr l)" "logger_running (writer_pass wr l) = logger_running l"
    "backlog_items (writer_pass wr l) < backlog_items l"
proof -
  obtain did l1 where d: "drain_files wr LOG_FILES l = (did, l1)" by (metis surj_pair)
  note di = drain_files_inv [OF assms(1,2) distinct_log_files(1) d]
  obtain x where x: "contents (q_cap x) (queues l x) \<noteq> []" using assms(3) backlog_zero [OF assms(2)] by blast
  have l1: "writer_pass wr l = l1"
    using di x distinct_log_files(2) by (auto simp: writer_pass_def d)
  have c: "contents (q_cap y) (queues l1 y) = drop BATCH (contents (q_cap y) (queues l y))" for y
    using di distinct_log_files(2) by simp
  show "log_inv acc (writer_pass wr l)" "logger_running (writer_pass wr l) = logger_running l" using di l1 by simp_all
  have "sum_list (map (\<lambda>y. length (contents (q_cap y) (queues l1 y))) LOG_FILES)
      < sum_list (map (\<lambda>y. length (contents (q_cap y) (queues l y))) LOG_FILES)"
  proof (rule sum_list_less)
    show "length (contents (q_cap y) (queues l1 y)) \<le> length (contents (q_cap y) (queues l y))" for y
      unfolding c by simp
    show "x \<in> set LOG_FILES" by (rule distinct_log_files)
    show "length (contents (q_cap x) (queues l1 x)) < length (contents (q_cap x) (queues l x))"
      using x unfolding c by (simp add: BATCH_def del: length_contents)
  qed
  then show "backlog_items (writer_pass wr l) < backlog_items l" by (simp only: backlog_items_def l1)
qed

lemma flush_all:
  assumes "writes_all wr" and "log_inv acc l"
  shows "log_inv acc (fold (on_sink (flush_sink wr)) LOG_FILES l)"
    "queues (fold (on_sink (flush_sink wr)) LOG_FILES l) = queues l"
    "sinks (fold (on_sink (flush_sink wr)) LOG_FILES l) x = flush_sink wr (sinks l x)"
proof -
  show "log_inv acc (fold (on_sink (flush_sink wr)) LOG_FILES l)"
    by (rule log_inv_sinks [OF assms(2)]) (simp add: flush_sink_ok [OF assms(1)])
  show "queues (fold (on_sink (flush_sink wr)) LOG_FILES l) = queues l" by (simp add: LOG_FILES_def on_sink_def)
  show "sinks (fold (on_sink (flush_sink wr)) LOG_FILES l) x = flush_sink wr (sinks l x)"
    by (cases x) (simp_all add: LOG_FILES_def on_sink_def)
qed

lemma writer_loop_returns:
  assumes wr: "writes_all wr" and "log_inv acc l" and "\<not> logger_running l"
  shows "\<exists>l'. writer_loop wr l = Some l' \<and> log_inv acc l' \<and>
    (\<forall>x. contents (q_cap x) (queues l' x) = [] \<and> staging (sinks l' x) = [])"
  using assms(2,3)
proof (induction "backlog_items l" arbitrary: l rule: less_induct)
  case less
  show ?case
  proof (cases "0 < backlog_approx l")
    case True
    note p = writer_pass_progress [OF wr less.prems(1) True]
    show ?thesis using less.hyps [OF p(3,1)] p(2) less.prems(2) True by (subst writer_loop.simps) simp
  next
    case False
    note f = flush_all [OF wr less.prems(1)]
    have "staging (flush_sink wr (sinks l x)) = []" for x by (rule flush_sink_ok [OF wr log_invD(2) [OF less.prems(1)]])
    then show ?thesis
      using False backlog_zero [OF less.prems(1)] less.prems(2) f
      by (subst writer_loop.simps) simp
  qed
qed


section \<open>Properties\<close>

lemma logger_run_inv:
  assumes "BinaryEventLogger_init create dir ts = Inr l0" and "writes_all wr"
    and "(logger_step wr)\<^sup>*\<^sup>* ([], l0) (acc, l)"
  shows "log_inv acc l"
proof -
  have "log_inv (fst s') (snd s')" if "(logger_step wr)\<^sup>*\<^sup>* s s'" "log_inv (fst s) (snd s)" for s s'
    using that by (induction rule: rtranclp_induct) (simp_all add: logger_step_inv [OF _ assms(2)])
  from this [OF assms(3)] show ?thesis using init_inv [OF assms(1)] by simp
qed

text \<open>
  C30: No logged byte is lost, repeated, reordered or put in the wrong file.  However the calls of the
  exchange's thread and of the writer's thread interleave, in every state each file holds a prefix of
  the bytes of the payloads its queue accepted, in the order they were accepted, and the rest is in
  the staging buffer and then in the queue; a payload is accepted exactly if its queue is not
  full; and the next payload always fits behind the staged bytes, so the buffer is never overrun.
\<close>

theorem logged_bytes_are_kept_in_order:
  assumes "BinaryEventLogger_init create dir ts = Inr l0" and "writes_all wr"
    and "(logger_step wr)\<^sup>*\<^sup>* ([], l0) (acc, l)"
  shows "on_disk (sinks l x) @ staging (sinks l x) @
      concat (map (take (psz x)) (contents (q_cap x) (queues l x))) = concat (map snd (filter (\<lambda>(y, bs). y = x) acc))
    \<and> length (staging (sinks l x)) + sink_payload_size (sinks l x) \<le> STAGING_BYTES
    \<and> (fst (push_item l x bytes) \<longleftrightarrow> length (contents (q_cap x) (queues l x)) < unat (q_cap x))"
proof -
  note inv = log_invD [OF logger_run_inv [OF assms], of x]
  note push_accepted [OF logger_run_inv [OF assms], of x bytes]
  moreover have "length (staging (sinks l x)) + sink_payload_size (sinks l x) \<le> STAGING_BYTES"
    using inv(2) logged_sizes(2) [of x] logged_sizes(3) by (simp add: sink_ok_def STAGING_BYTES_def)
  ultimately show ?thesis using inv(3) by (simp add: sunk_def queued_bytes_def bytes_for_def)
qed

definition opened_logger :: BinaryEventLogger where
  "opened_logger = projr (BinaryEventLogger_init (\<lambda>_. True) ''logs'' ''20250101_120000'')"

lemma opened_logger: "BinaryEventLogger_init (\<lambda>_. True) ''logs'' ''20250101_120000'' = Inr opened_logger"
  by (simp add: opened_logger_def BinaryEventLogger_init_def open_sinks_eq [OF distinct_log_files(1)]
      find_None_iff split: option.split)

definition cancel_record :: "byte list" where
  "cancel_record = payload_image (OrderCancelledEvent (make_order_cancelled_event 1 2 3 4))"

lemma opened_logger_empty: "contents (q_cap x) (queues opened_logger x) = []"
proof -
  have "find (\<lambda>x. False) LOG_FILES = None" by (simp add: find_None_iff)
  then have "queues opened_logger = (\<lambda>x. new_queue (q_cap x) (replicate MAX_LOGGED_SIZE 0))"
    by (simp add: opened_logger_def BinaryEventLogger_init_def open_sinks_eq [OF distinct_log_files(1)])
  then show ?thesis by simp
qed

lemma one_record_logged:
  "(logger_step (@))\<^sup>*\<^sup>* ([], opened_logger)
     ([(Log_Cancel, cancel_record)], log_message opened_logger ORDER_CANCELLED_EVENT cancel_record)"
proof -
  have len: "length cancel_record = psz Log_Cancel" unfolding cancel_record_def by (subst length_payload_image) simp_all
  have inv: "log_inv [] opened_logger" by (rule init_inv [OF opened_logger])
  have "fst (push_item opened_logger Log_Cancel cancel_record)"
    using push_accepted [OF inv, of Log_Cancel] opened_logger_empty [of Log_Cancel] by (simp del: length_contents)
  then show ?thesis
    using step_log [of ORDER_CANCELLED_EVENT cancel_record "(@)" "[]" opened_logger] len by auto
qed

theorem logged_bytes_are_kept_in_order_witness:
  "let l = log_message opened_logger ORDER_CANCELLED_EVENT cancel_record in
     on_disk (sinks l Log_Cancel) @ staging (sinks l Log_Cancel) @
       concat (map (take (psz Log_Cancel)) (contents (q_cap Log_Cancel) (queues l Log_Cancel))) = cancel_record"
  using logged_bytes_are_kept_in_order [OF opened_logger _ one_record_logged, of Log_Cancel]
  by (simp add: writes_all_def)

lemma destroy_writes:
  assumes "BinaryEventLogger_init create dir ts = Inr l0" and "writes_all wr"
    and "(logger_step wr)\<^sup>*\<^sup>* ([], l0) (acc, l)"
  shows "\<exists>l'. BinaryEventLogger_destroy wr l = Some l' \<and>
    (\<forall>x. on_disk (sinks l' x) = concat (map snd (filter (\<lambda>(y, bs). y = x) acc)) \<and> \<not> file_valid (sinks l' x))"
proof -
  have inv: "log_inv acc (l\<lparr>logger_running := False\<rparr>)" using logger_run_inv [OF assms] by (simp add: log_inv_def)
  obtain l1 where l1: "writer_loop wr (l\<lparr>logger_running := False\<rparr>) = Some l1" "log_inv acc l1"
    "\<And>x. contents (q_cap x) (queues l1 x) = []" "\<And>x. staging (sinks l1 x) = []"
    using writer_loop_returns [OF assms(2) inv] by auto
  have cl: "sinks (fold (on_sink close_sink) LOG_FILES k) x = close_sink (sinks k x)" for k x
    by (cases x) (simp_all add: LOG_FILES_def on_sink_def)
  have "on_disk (close_sink (flush_sink wr (sinks l1 x))) = bytes_for x acc \<and> \<not> file_valid (close_sink (flush_sink wr (sinks l1 x)))" for x
    using log_invD(2,3) [OF l1(2), of x] l1(3,4) [of x] flush_sink_spec [OF assms(2), of "sinks l1 x"]
    by (auto simp: close_sink_def sink_ok_def sunk_def)
  then show ?thesis
    using l1(1) by (auto simp: BinaryEventLogger_destroy_def cl flush_all(3) [OF assms(2) l1(2)] bytes_for_def)
qed

text \<open>
  C31: Shutting the logger down loses nothing.  From every state the two threads can reach, the
  destructor returns: once \<open>running_\<close> is false the writer's loop ends after finitely many passes, and
  then every file holds exactly the bytes of all payloads its queue accepted, in order, and is
  closed.
\<close>

theorem shutdown_writes_everything:
  assumes "BinaryEventLogger_init create dir ts = Inr l0" and "writes_all wr"
    and "(logger_step wr)\<^sup>*\<^sup>* ([], l0) (acc, l)"
  shows "\<exists>l'. BinaryEventLogger_destroy wr l = Some l' \<and>
    (\<forall>x. on_disk (sinks l' x) = concat (map snd (filter (\<lambda>(y, bs). y = x) acc)) \<and> \<not> file_valid (sinks l' x))"
  using destroy_writes [OF assms] .

theorem shutdown_writes_everything_witness:
  "\<exists>l'. BinaryEventLogger_destroy (@) (log_message opened_logger ORDER_CANCELLED_EVENT cancel_record) = Some l' \<and>
     on_disk (sinks l' Log_Cancel) = cancel_record \<and> on_disk (sinks l' Log_Trade) = []"
  using shutdown_writes_everything [OF opened_logger _ one_record_logged]
  by (fastforce simp: writes_all_def)

text \<open>
  The constructor opens five different files or fails.  No two event types share a file name;
  the constructor throws exactly if one of the five cannot be created, with the name of the first
  such file; and otherwise every sink is open on an empty file, with the size of its payload.
\<close>

theorem logger_opens_every_file_or_throws:
  "(make_typed_filename dir ts (logged_type x) = make_typed_filename dir ts (logged_type y) \<longleftrightarrow> x = y)
    \<and> (\<forall>e. BinaryEventLogger_init create dir ts = Inl e \<longleftrightarrow>
        (\<exists>z. find (\<lambda>x. \<not> create (make_typed_filename dir ts (logged_type x))) LOG_FILES = Some z \<and>
           e = ''Failed to open binary log file: '' @ make_typed_filename dir ts (logged_type z)))
    \<and> (\<forall>l. BinaryEventLogger_init create dir ts = Inr l \<longrightarrow>
        (\<forall>x. opened (sinks l x) \<and> file_valid (sinks l x) \<and> on_disk (sinks l x) = [] \<and>
           sink_payload_size (sinks l x) = payload_size_for_type (logged_type x)))"
proof (intro conjI allI impI)
  show "make_typed_filename dir ts (logged_type x) = make_typed_filename dir ts (logged_type y) \<longleftrightarrow> x = y"
    by (cases x; cases y) (simp_all add: make_typed_filename_def)
  note init = BinaryEventLogger_init_def open_sinks_eq [OF distinct_log_files(1)]
  show "BinaryEventLogger_init create dir ts = Inl e \<longleftrightarrow>
      (\<exists>z. find (\<lambda>x. \<not> create (make_typed_filename dir ts (logged_type x))) LOG_FILES = Some z \<and>
         e = ''Failed to open binary log file: '' @ make_typed_filename dir ts (logged_type z))" for e
    by (auto simp: init split: option.split)
  show "opened (sinks l x)" "file_valid (sinks l x)" "on_disk (sinks l x) = []"
    "sink_payload_size (sinks l x) = payload_size_for_type (logged_type x)"
    if "BinaryEventLogger_init create dir ts = Inr l" for l x
    using that by (auto simp: init distinct_log_files(2) split: option.splits)
qed

theorem logger_opens_every_file_or_throws_witness:
  "on_disk (sinks opened_logger Log_Trade) = [] \<and> sink_payload_size (sinks opened_logger Log_Trade) = 29"
  using logger_opens_every_file_or_throws [of "''logs''" "''20250101_120000''" Log_Plu Log_Plu "\<lambda>_. True"] opened_logger
  by (simp add: codec_size)

end
