(* ===== verification/Book_Debug.thy ===== *)
theory Book_Debug
  imports Book_Properties
begin

text \<open>
  The debug build of the order book (src/order_book.cpp compiled without \<open>NDEBUG\<close>): the two checks
  \<open>_debug_check_level_invariant\<close> and \<open>_debug_check_level_integrity\<close>, the assertions on the order found,
  and the requests with the checks where the code makes them.  An operation of the debug build returns
  \<open>None\<close> if it never ends, \<open>Some (Inl a)\<close> if assertion \<open>a\<close> aborts the process and \<open>Some (Inr r)\<close>
  if it returns \<open>r\<close>.  It is shown that the checks decide the invariants they are named after and that
  the debug build does exactly what the release build does on every admissible request.
\<close>

section \<open>Assertions\<close>

datatype Assertion = SUM_REMAINING | BEST_PRICES | ORDER_ID

type_synonym 'a debug = "(Assertion + 'a) option"

definition and_then :: "'a debug \<Rightarrow> ('a \<Rightarrow> 'b debug) \<Rightarrow> 'b debug" where
  "and_then m f = Option.bind m (\<lambda>r. case r of Inl a \<Rightarrow> Some (Inl a) | Inr x \<Rightarrow> f x)"

definition returns :: "'a \<Rightarrow> 'a debug" where
  "returns x = Some (Inr x)"

definition check :: "Assertion \<Rightarrow> bool \<Rightarrow> unit debug" where
  "check a c = Some (if c then Inr () else Inl a)"

lemma and_then_simps [simp]:
  "and_then (returns x) f = f x" "and_then (Some (Inr x)) f = f x" "and_then (Some (Inl a)) f = Some (Inl a)" "and_then None f = None"
  by (simp_all add: and_then_def returns_def)

lemma returns_eq [simp]: "returns x = returns y \<longleftrightarrow> x = y"
  by (simp add: returns_def)

lemma check_simps [simp]: "check a True = returns ()" "check a False = Some (Inl a)"
  by (simp_all add: check_def returns_def)

lemma and_then_mono [partial_function_mono]:
  assumes "mono_option F" and "\<And>x. mono_option (\<lambda>f. G x f)"
  shows "mono_option (\<lambda>f. and_then (F f) (\<lambda>x. G x f))"
  unfolding and_then_def
proof (rule bind_mono [OF assms(1)])
  fix r
  show "mono_option (\<lambda>f. case r of Inl a \<Rightarrow> Some (Inl a) | Inr x \<Rightarrow> G x f)"
    using assms(2) by (cases r) (simp_all add: option.const_mono)
qed

section \<open>The checks\<close>

text \<open>The sum is a signed 64-bit integer; a level has at most 100000 orders, so it does not overflow.\<close>

partial_function (option) sum_remaining :: "store \<Rightarrow> nat option \<Rightarrow> int \<Rightarrow> int option" where
  "sum_remaining p x acc =
     (case x of
        None \<Rightarrow> Some acc
      | Some i \<Rightarrow> sum_remaining p (o_next (p i)) (acc + int (unat (o_quantity_remaining (p i)))))"

definition debug_check_level_invariant :: "store \<Rightarrow> PriceLevel \<Rightarrow> unit debug" where
  "debug_check_level_invariant p level =
     Option.bind (sum_remaining p (l_first level) 0)
       (\<lambda>total. check SUM_REMAINING (total = int (unat (l_total_quantity level))))"

definition debug_check_level_integrity :: "OrderBook \<Rightarrow> unit debug" where
  "debug_check_level_integrity b =
     (if best_price_index (bids b) = NUM_BOOK_LEVELS then returns ()
      else if best_price_index (asks b) = NUM_BOOK_LEVELS then returns ()
      else let best_bid = l_price (levels (bids b) (best_price_index (bids b)));
               best_ask = l_price (levels (asks b) (best_price_index (asks b)))
           in check BEST_PRICES (best_bid < best_ask))"

abbreviation check_level :: "OrderBookSide \<Rightarrow> nat \<Rightarrow> unit debug" where
  "check_level s i \<equiv> debug_check_level_invariant (side_store s) (levels s i)"

section \<open>The requests of the debug build\<close>

definition add_order_debug ::
  "OrderBookSide \<Rightarrow> Price_t \<Rightarrow> Volume_t \<Rightarrow> Volume_t \<Rightarrow> Id_t \<Rightarrow> Id_t \<Rightarrow> Id_t \<Rightarrow> Time_t \<Rightarrow>
   (nat option \<times> OrderBookSide \<times> BookEvent list) debug" where
  "add_order_debug s price quantity quantity_remaining order_id client_id client_request_id now =
     (let idx = price_to_index price;
          r = add_order s price quantity quantity_remaining order_id client_id client_request_id now in
      case allocate (s_pool s) of
        (None, P) \<Rightarrow> returns r
      | (Some order, P) \<Rightarrow>
          and_then (debug_check_level_invariant (pool P) (levels s idx)) (\<lambda>_.
          and_then (check_level (fst (snd r)) idx) (\<lambda>_.
          returns r)))"

partial_function (option) match_level_debug ::
  "(OrderBookSide \<Rightarrow> OrderBookSide) \<Rightarrow> Id_t \<Rightarrow> Id_t \<Rightarrow> Volume_t \<Rightarrow> Time_t \<Rightarrow> nat \<Rightarrow>
   MatchState \<Rightarrow> MatchState debug" where
  "match_level_debug advance_best order_id client_id tot now k ms =
     (if 0 < m_incoming ms
      then (case l_first (levels (m_side ms) k) of
              None \<Rightarrow> returns ms
            | Some maker \<Rightarrow>
                and_then (check_level (m_side (fill_front advance_best order_id client_id tot now k maker ms)) k) (\<lambda>_.
                match_level_debug advance_best order_id client_id tot now k
                  (fill_front advance_best order_id client_id tot now k maker ms)))
      else returns ms)"

partial_function (option) match_loop_debug ::
  "Price_t \<Rightarrow> Id_t \<Rightarrow> Id_t \<Rightarrow> Side \<Rightarrow> (Price_t \<Rightarrow> Price_t \<Rightarrow> bool) \<Rightarrow>
   (OrderBookSide \<Rightarrow> OrderBookSide) \<Rightarrow> Volume_t \<Rightarrow> Time_t \<Rightarrow> MatchState \<Rightarrow> MatchState debug" where
  "match_loop_debug incoming_price order_id client_id maker_side cross advance_best tot now ms =
     (if 0 < m_incoming ms
      then let best = best_price_index (m_side ms) in
           if best = NUM_BOOK_LEVELS then returns ms
           else and_then (check_level (m_side ms) best) (\<lambda>_.
             if \<not> cross (l_price (levels (m_side ms) best)) incoming_price then returns ms
             else and_then (match_level_debug advance_best order_id client_id tot now best ms) (\<lambda>ms1.
               match_loop_debug incoming_price order_id client_id maker_side cross advance_best tot now
                 (ms1\<lparr>m_events := m_events ms1 @
                        [OnLevelUpdate maker_side (levels (m_side ms1) best) now]\<rparr>)))
      else returns ms)"

definition match_buy_debug ::
  "Price_t \<Rightarrow> Id_t \<Rightarrow> Id_t \<Rightarrow> Time_t \<Rightarrow> MatchState \<Rightarrow> MatchState debug" where
  "match_buy_debug incoming_price order_id client_id now ms =
     match_loop_debug incoming_price order_id client_id SELL
       (\<lambda>level_price incoming. level_price \<le> incoming) update_best_ask_after_empty
       (m_incoming ms) now ms"

definition match_sell_debug ::
  "Price_t \<Rightarrow> Id_t \<Rightarrow> Id_t \<Rightarrow> Time_t \<Rightarrow> MatchState \<Rightarrow> MatchState debug" where
  "match_sell_debug incoming_price order_id client_id now ms =
     match_loop_debug incoming_price order_id client_id BUY
       (\<lambda>level_price incoming. level_price \<ge> incoming) update_best_bid_after_empty
       (m_incoming ms) now ms"

definition submit_order_debug ::
  "OrderBook \<Rightarrow> Price_t \<Rightarrow> Volume_t \<Rightarrow> bool \<Rightarrow> Id_t \<Rightarrow> Id_t \<Rightarrow> Time_t \<Rightarrow> Time_t \<Rightarrow> Time_t \<Rightarrow>
   (OrderBook \<times> BookEvent list) debug" where
  "submit_order_debug b price quantity is_bid client_id client_request_id now now_match now_add =
     (if quantity = 0
      then returns (b, [OnError client_id client_request_id (error_code INVALID_VOLUME)
                          ''Invalid order size.'' now])
      else if price < MINIMUM_BID \<or> price > MAXIMUM_ASK
      then returns (b, [OnError client_id client_request_id (error_code INVALID_PRICE)
                          ''Invalid price.'' now])
      else let order_id = ob_order_id b;
               b1 = b\<lparr>ob_order_id := order_id + 1\<rparr>
           in and_then
                (if is_bid
                 then match_buy_debug price order_id client_id now_match (match_start b1 False quantity)
                 else match_sell_debug price order_id client_id now_match (match_start b1 True quantity)) (\<lambda>ms.
              let b2 = match_finish b1 (\<not> is_bid) ms in
              and_then
                (if 0 < m_incoming ms
                 then and_then (add_order_debug (side_of b2 is_bid) price quantity (m_incoming ms) order_id
                                  client_id client_request_id now_add) (\<lambda>_.
                      let (b3, evs) = rest_order b2 is_bid price quantity (m_incoming ms) order_id
                                        client_id client_request_id now now_add
                      in returns (b3, m_events ms @ evs))
                 else returns (b2, m_events ms)) (\<lambda>r.
              and_then (debug_check_level_integrity (fst r)) (\<lambda>_.
              returns r))))"

definition cancel_order_debug ::
  "OrderBook \<Rightarrow> Id_t \<Rightarrow> Id_t \<Rightarrow> Id_t \<Rightarrow> Time_t \<Rightarrow> (OrderBook \<times> BookEvent list) debug" where
  "cancel_order_debug b client_id client_request_id order_id now =
     (let r = cancel_order b client_id client_request_id order_id now in
      case find_order b order_id of
        None \<Rightarrow> returns r
      | Some p \<Rightarrow>
          let order = deref b p;
              d = o_is_bid order;
              idx = price_to_index (o_price order) in
          and_then (check ORDER_ID (order_id = o_order_id order)) (\<lambda>_.
          if o_client_id order \<noteq> client_id then returns r
          else and_then (check_level (side_of b d) idx) (\<lambda>_.
               and_then (check_level (side_of (fst r) d) idx) (\<lambda>_.
               returns r))))"

definition amend_order_debug ::
  "OrderBook \<Rightarrow> Id_t \<Rightarrow> Id_t \<Rightarrow> Id_t \<Rightarrow> Volume_t \<Rightarrow> Time_t \<Rightarrow> (OrderBook \<times> BookEvent list) debug" where
  "amend_order_debug b client_id client_request_id order_id quantity_new now =
     (let r = amend_order b client_id client_request_id order_id quantity_new now in
      case find_order b order_id of
        None \<Rightarrow> returns r
      | Some p \<Rightarrow>
          let order = deref b p;
              d = o_is_bid order;
              idx = price_to_index (o_price order);
              quantity_new_remaining = quantity_new - o_quantity_cumulative order in
          and_then (check ORDER_ID (order_id = o_order_id order)) (\<lambda>_.
          if o_client_id order \<noteq> client_id \<or> quantity_new < o_quantity_cumulative order
             \<or> o_quantity_remaining order < quantity_new_remaining
             \<or> quantity_new_remaining = o_quantity_remaining order
          then returns r
          else and_then (check_level (side_of b d) idx) (\<lambda>_.
               and_then (check_level (side_of (fst r) d) idx) (\<lambda>_.
               returns r))))"

fun handle_debug :: "OrderBook \<Rightarrow> Request \<Rightarrow> (OrderBook \<times> BookEvent list) debug" where
  "handle_debug b (Submit price q d cid rid now now_match now_add) =
     submit_order_debug b price q d cid rid now now_match now_add"
| "handle_debug b (Cancel cid rid oid now) = cancel_order_debug b cid rid oid now"
| "handle_debug b (Amend cid rid oid qn now) = amend_order_debug b cid rid oid qn now"

section \<open>What the checks decide\<close>

lemma sum_remaining_seg:
  "seg p pr f xs l None \<Longrightarrow>
   sum_remaining p f acc = Some (acc + int (\<Sum>x\<leftarrow>xs. unat (o_quantity_remaining (p x))))"
proof (induction xs arbitrary: pr f acc)
  case Nil
  then show ?case by (subst sum_remaining.simps) simp
next
  case (Cons x xs)
  then show ?case by (subst sum_remaining.simps) (auto simp: add.assoc)
qed

lemma unat_sum_list_iff:
  "unat (sum_list ws) = (\<Sum>w\<leftarrow>ws. unat w) \<longleftrightarrow> (\<Sum>w\<leftarrow>ws. unat (w :: 'a::len word)) < 2 ^ LENGTH('a)"
  using unat_sum_list [of ws] unat_less_2p [of "sum_list ws"] by metis

lemma level_ok_check:
  assumes "level_ok p i lv xs"
  shows "debug_check_level_invariant p lv =
    check SUM_REMAINING ((\<Sum>x\<leftarrow>xs. unat (o_quantity_remaining (p x))) < 2 ^ 32)"
proof -
  have "sum_remaining p (l_first lv) 0 = Some (int (\<Sum>x\<leftarrow>xs. unat (o_quantity_remaining (p x))))"
    using assms sum_remaining_seg [of p None "l_first lv" xs "l_last lv" 0] by (simp add: level_ok_def)
  moreover have "int (\<Sum>x\<leftarrow>xs. unat (o_quantity_remaining (p x))) = int (unat (l_total_quantity lv)) \<longleftrightarrow>
      (\<Sum>x\<leftarrow>xs. unat (o_quantity_remaining (p x))) < 2 ^ 32"
    unfolding of_nat_eq_iff using assms unat_sum_list_iff [of "map (\<lambda>x. o_quantity_remaining (p x)) xs"]
    by (auto simp: level_ok_def comp_def)
  ultimately show ?thesis by (simp only: debug_check_level_invariant_def bind.simps)
qed

lemma check_level_fits:
  assumes "side_rep s L F" and "fits s L" and "i < NUM_BOOK_LEVELS"
  shows "check_level s i = returns ()"
  using level_ok_check [OF side_rep_level [OF assms(1,3)]] assms(2,3) by (simp add: fits_def queue_def comp_def)

section \<open>The matching loops of the debug build\<close>

text \<open>What holds at every turn of the loops: the side is well formed and no total has wrapped.\<close>

definition level_inv :: "(optr \<rightharpoonup> Id_t) \<Rightarrow> nat \<Rightarrow> MatchState \<Rightarrow> bool" where
  "level_inv ot k ms \<longleftrightarrow>
     (\<exists>L F. ms_rep ot ms L F \<and> fits (m_side ms) L \<and> (L k \<noteq> [] \<longrightarrow> best_price_index (m_side ms) = k))"

definition loop_inv :: "(optr \<rightharpoonup> Id_t) \<Rightarrow> MatchState \<Rightarrow> bool" where
  "loop_inv ot ms \<longleftrightarrow> (\<exists>L F. ms_rep ot ms L F \<and> fits (m_side ms) L)"

lemma level_inv_loop: "level_inv ot k ms \<Longrightarrow> loop_inv ot ms"
  by (auto simp: level_inv_def loop_inv_def)

lemma loop_inv_level: "loop_inv ot ms \<Longrightarrow> level_inv ot (best_price_index (m_side ms)) ms"
  by (auto simp: level_inv_def loop_inv_def)

lemma loop_inv_check: "loop_inv ot ms \<Longrightarrow> k < NUM_BOOK_LEVELS \<Longrightarrow> check_level (m_side ms) k = returns ()"
  by (auto simp: loop_inv_def intro: check_level_fits dest: ms_rep_side)

lemma loop_inv_best: "loop_inv ot ms \<Longrightarrow> best_price_index (m_side ms) \<noteq> NUM_BOOK_LEVELS \<Longrightarrow> best_price_index (m_side ms) < NUM_BOOK_LEVELS"
  by (auto simp: loop_inv_def dest!: ms_rep_side side_rep_best)

lemma loop_inv_events [simp]: "loop_inv ot (ms\<lparr>m_events := evs\<rparr>) = loop_inv ot ms"
  by (simp add: loop_inv_def ms_rep_events)

context direction
begin

lemma level_inv_fill:
  assumes inv: "level_inv ot k ms" and k: "k < NUM_BOOK_LEVELS"
    and x: "l_first (levels (m_side ms) k) = Some x"
  shows "level_inv ot k (fill_front adv oid cid tot now k x ms)"
proof -
  obtain L F where rep: "ms_rep ot ms L F" and fit: "fits (m_side ms) L"
    and bk: "L k \<noteq> [] \<Longrightarrow> best_price_index (m_side ms) = k" using inv by (auto simp: level_inv_def)
  note side = ms_rep_side [OF rep]
  obtain xs where Lk: "L k = x # xs"
    using level_ok_first [OF side_rep_level [OF side k]] x by (cases "L k") auto
  let ?r = "side_store (m_side ms) x" and ?ms1 = "fill_front adv oid cid tot now k x ms"
  show ?thesis
  proof (cases "m_incoming ms < o_quantity_remaining ?r")
    case True
    note p = fill_front_partial_spec [OF rep Lk True refl, of adv oid cid tot now]
    have "unat (r_remaining (fill (view ?r) (m_incoming ms))) \<le> unat (r_remaining (view ?r))"
      using True by (simp add: fill_def view_def unat_diff_le word_less_nat_alt word_le_nat_alt)
    then have "fits (m_side ?ms1) (L(k := L k))"
      using p(2) by (intro fits_level [OF fit]) (simp_all add: p(1), simp add: Lk)
    then show ?thesis
      using ms_rep_partial [OF rep Lk True, of adv oid cid tot now] bk p(4) by (auto simp: level_inv_def)
  next
    case False
    have nxk: "nx lv k = NUM_BOOK_LEVELS \<or> nx lv k < NUM_BOOK_LEVELS \<and> nx lv k \<noteq> k \<and>
        0 < l_total_quantity (lv (nx lv k))" for lv
      using nx_worse [OF k, of lv] better_irrefl by metis
    have le: "o_quantity_remaining ?r \<le> m_incoming ms" and b: "best_price_index (m_side ms) = k"
      using False bk Lk by simp_all
    note f = ms_rep_full [where adv = adv and nx = nx and oid = oid and cid = cid and tot = tot and now = now,
        OF rep Lk b le adv_eq nxk refl]
    have "x \<notin> set xs" using slots_ok_distinct [OF side_rep_slots [OF side], of k] Lk by simp
    then have "queue (m_side ?ms1) xs = queue (m_side ms) xs" using f(2) by (intro queue_cong) metis
    then have "fits (m_side ?ms1) (L(k := xs))" by (intro fits_level [OF fit f(3)]) (simp add: Lk)
    then show ?thesis using f(1,6) unfolding level_inv_def by (intro exI [of _ "L(k := xs)"]) auto
  qed
qed

lemma match_level_debug_agrees:
  "match_level a oid cid tot now k ms = Some ms' \<Longrightarrow> a = adv \<longrightarrow> level_inv ot k ms \<longrightarrow> k < NUM_BOOK_LEVELS \<longrightarrow>
   match_level_debug a oid cid tot now k ms = returns ms' \<and> level_inv ot k ms'"
proof (induction rule: match_level.raw_induct
    [where P = "\<lambda>a oid cid tot now k ms ms'. a = adv \<longrightarrow> level_inv ot k ms \<longrightarrow> k < NUM_BOOK_LEVELS \<longrightarrow>
       match_level_debug a oid cid tot now k ms = returns ms' \<and> level_inv ot k ms'", rotated, consumes 1, case_names turn])
  case (turn f a oid cid tot now k ms ms')
  show ?case
  proof (cases "0 < m_incoming ms \<and> l_first (levels (m_side ms) k) \<noteq> None")
    case True
    then obtain x where x: "l_first (levels (m_side ms) k) = Some x" by blast
    have "f a oid cid tot now k (fill_front a oid cid tot now k x ms) = Some ms'" using turn(2) True x by simp
    from turn(1) [OF this] show ?thesis
      using True x level_inv_fill [of ot k ms x oid cid tot now]
        loop_inv_check [OF level_inv_loop, of ot k "fill_front adv oid cid tot now k x ms" k]
      by (subst match_level_debug.simps) simp
  next
    case False
    then show ?thesis using turn(2) by (subst match_level_debug.simps) (auto split: if_splits)
  qed
qed

lemma match_loop_debug_agrees:
  "match_loop price oid cid sd cr a tot now ms = Some ms' \<Longrightarrow> a = adv \<longrightarrow> loop_inv ot ms \<longrightarrow>
   match_loop_debug price oid cid sd cr a tot now ms = returns ms'"
proof (induction rule: match_loop.raw_induct
    [where P = "\<lambda>price oid cid sd cr a tot now ms ms'. a = adv \<longrightarrow> loop_inv ot ms \<longrightarrow>
       match_loop_debug price oid cid sd cr a tot now ms = returns ms'", rotated, consumes 1, case_names turn])
  case (turn f price oid cid sd cr a tot now ms ms')
  let ?k = "best_price_index (m_side ms)"
  show ?case
  proof (intro impI)
    assume a: "a = adv" and inv: "loop_inv ot ms"
    show "match_loop_debug price oid cid sd cr a tot now ms = returns ms'"
    proof (cases "0 < m_incoming ms \<and> ?k \<noteq> NUM_BOOK_LEVELS")
      case True
      then have k: "?k < NUM_BOOK_LEVELS" using loop_inv_best [OF inv] by simp
      note chk = loop_inv_check [OF inv k]
      show ?thesis
      proof (cases "cr (l_price (levels (m_side ms) ?k)) price")
        case cross: True
        obtain ms1 where m1: "match_level a oid cid tot now ?k ms = Some ms1"
          and f: "f price oid cid sd cr a tot now (ms1\<lparr>m_events := m_events ms1 @
              [OnLevelUpdate sd (levels (m_side ms1) ?k) now]\<rparr>) = Some ms'"
          using turn(2) True cross by (auto simp: Let_def split: Option.bind_splits)
        have "match_level_debug a oid cid tot now ?k ms = returns ms1" "loop_inv ot ms1"
          using match_level_debug_agrees [OF m1, of ot] a k loop_inv_level [OF inv] level_inv_loop by auto
        then show ?thesis
          using turn(1) [OF f] True cross chk a by (subst match_loop_debug.simps) (simp add: Let_def)
      next
        case False
        then show ?thesis using turn(2) True chk by (subst match_loop_debug.simps) (simp add: Let_def)
      qed
    next
      case False
      then show ?thesis using turn(2) by (subst match_loop_debug.simps) (auto simp: Let_def split: if_splits)
    qed
  qed
qed

end

lemma match_buy_debug_agrees:
  assumes "match_buy price oid cid now ms = Some ms'" and "loop_inv ot ms"
  shows "match_buy_debug price oid cid now ms = returns ms'"
  using dir.match_loop_debug_agrees [where d = False, of price oid cid SELL "\<lambda>l p. l \<le> p" _ "m_incoming ms" now ms ms' ot] assms
  by (auto simp: match_buy_def match_buy_debug_def direction_eq)

lemma match_sell_debug_agrees:
  assumes "match_sell price oid cid now ms = Some ms'" and "loop_inv ot ms"
  shows "match_sell_debug price oid cid now ms = returns ms'"
  using dir.match_loop_debug_agrees [where d = True, of price oid cid BUY "\<lambda>l p. l \<ge> p" _ "m_incoming ms" now ms ms' ot] assms
  by (auto simp: match_sell_def match_sell_debug_def direction_eq)

section \<open>The checks on a whole book\<close>

lemma level_check_iff:
  assumes rep: "book_rep b L F" and i: "i < NUM_BOOK_LEVELS"
  shows "check_level (side_of b d) i = check SUM_REMAINING (volume_at (orders b d) (MINIMUM_BID + int i) < 2 ^ 32)"
  using level_ok_check [OF side_rep_level [OF book_rep_side [OF rep] i]] volume_at_queue [OF book_rep_side [OF rep] i]
  by (simp add: orders_rep [OF rep] queue_def comp_def)

lemma level_check_good:
  assumes "wf_book b" and "within_range b" and "i < NUM_BOOK_LEVELS"
  shows "check_level (side_of b d) i = returns ()"
proof -
  obtain L F where "book_rep b L F" using assms(1) by (auto simp: wf_book_def)
  from level_check_iff [OF this assms(3)] show ?thesis using assms(2) by (simp add: within_range_def)
qed

lemma orders_nonempty_level:
  assumes rep: "book_rep b L F"
  shows "r \<in> set (orders b d) \<Longrightarrow> \<exists>i < NUM_BOOK_LEVELS. L d i \<noteq> [] \<and> r_price r = MINIMUM_BID + int i"
    and "L d i \<noteq> [] \<Longrightarrow> \<exists>r \<in> set (orders b d). r_price r = MINIMUM_BID + int i"
proof -
  note side = book_rep_side [OF rep, of d]
  show "\<exists>i < NUM_BOOK_LEVELS. L d i \<noteq> [] \<and> r_price r = MINIMUM_BID + int i" if r: "r \<in> set (orders b d)"
  proof -
    obtain i where "i < NUM_BOOK_LEVELS" "r \<in> set (queue (side_of b d) (L d i))"
      using r by (auto simp: orders_rep [OF rep] set_book_queue)
    then show ?thesis using queue_price [OF side] by fastforce
  qed
  assume ne: "L d i \<noteq> []"
  then have i: "i < NUM_BOOK_LEVELS" using slots_ok_beyond [OF side_rep_slots [OF side]] not_le by blast
  from ne have "hd (queue (side_of b d) (L d i)) \<in> set (queue (side_of b d) (L d i))" by simp
  then show "\<exists>r \<in> set (orders b d). r_price r = MINIMUM_BID + int i"
    using i queue_price [OF side] unfolding orders_rep [OF rep] by (meson set_book_queue)
qed

lemma integrity_check_iff:
  assumes rep: "book_rep b L F" and best: "best_right b"
  shows "debug_check_level_integrity b = check BEST_PRICES (uncrossed b)"
proof -
  have bo: "best_ok (better d) (side_of b d) (L d)" for d using best best_right_rep [OF rep] by blast
  let ?k = "\<lambda>d. best_price_index (side_of b d)"
  have empty: "orders b d = []" if "?k d = NUM_BOOK_LEVELS" for d
    using dir.book_queue_empty [OF book_rep_side [OF rep] bo that] by (simp add: orders_rep [OF rep])
  have bp: "?k d < NUM_BOOK_LEVELS" "L d (?k d) \<noteq> []" "l_price (levels (side_of b d) (?k d)) = MINIMUM_BID + int (?k d)"
    if "?k d \<noteq> NUM_BOOK_LEVELS" for d
    using side_rep_best [OF book_rep_side [OF rep] that] side_rep_level [OF book_rep_side [OF rep], of "?k d" d]
    by (auto simp: level_ok_def)
  have "?k True < ?k False \<longleftrightarrow> uncrossed b" if ne: "?k True \<noteq> NUM_BOOK_LEVELS" "?k False \<noteq> NUM_BOOK_LEVELS"
  proof
    assume lt: "?k True < ?k False"
    show "uncrossed b"
      unfolding uncrossed_def
    proof (intro ballI)
      fix r r' assume "r \<in> set (orders b True)" "r' \<in> set (orders b False)"
      then obtain i j where ij: "i < NUM_BOOK_LEVELS" "L True i \<noteq> []" "r_price r = MINIMUM_BID + int i"
        "j < NUM_BOOK_LEVELS" "L False j \<noteq> []" "r_price r' = MINIMUM_BID + int j"
        using orders_nonempty_level(1) [OF rep] by meson
      then have "i \<le> ?k True" "?k False \<le> j" using bo [of True] bo [of False] by (auto simp: best_ok_def better_def)
      then show "r_price r < r_price r'" using lt ij by simp
    qed
  next
    assume "uncrossed b"
    then show "?k True < ?k False"
      using orders_nonempty_level(2) [OF rep bp(2) [OF ne(1)]] orders_nonempty_level(2) [OF rep bp(2) [OF ne(2)]]
      by (force simp: uncrossed_def)
  qed
  moreover have "uncrossed b" if "?k True = NUM_BOOK_LEVELS \<or> ?k False = NUM_BOOK_LEVELS"
    using that empty [of True] empty [of False] unfolding uncrossed_def by fastforce
  ultimately show ?thesis
    using bp(3) [of True] bp(3) [of False]
    by (auto simp: debug_check_level_integrity_def Let_def)
qed

lemma integrity_check_good: "good_book b \<Longrightarrow> debug_check_level_integrity b = returns ()"
  using integrity_check_iff good_bookD [of b] by (fastforce simp: wf_book_def)

section \<open>The requests of the debug build agree with the release build\<close>

lemma add_order_debug_agrees:
  assumes rep: "side_rep s L F" and fit: "fits s L" and pr: "price_ok price"
    and r: "add_order s price q rm oid cid rid now = r"
    and after: "\<And>i. i < NUM_BOOK_LEVELS \<Longrightarrow> check_level (fst (snd r)) i = returns ()"
  shows "add_order_debug s price q rm oid cid rid now = returns r"
proof (cases F)
  case Nil
  then have "allocate (s_pool s) = (None, s_pool s)" using side_rep_chain [OF rep] by (simp add: allocate_def)
  then show ?thesis using r by (simp add: add_order_debug_def Let_def)
next
  case (Cons x xs)
  let ?i = "price_to_index price"
  have i: "?i < NUM_BOOK_LEVELS" by (rule price_to_index_less [OF pr])
  have nx: "next_free (s_pool s) = Some x" using side_rep_chain [OF rep] Cons by simp
  have "x \<notin> set (L ?i)" using slots_ok_not_free [OF side_rep_slots [OF rep]] Cons by auto
  then have "level_ok (upd (side_store s) x (\<lambda>r. r\<lparr>o_next := None\<rparr>)) ?i (levels s ?i) (L ?i)"
    using side_rep_level [OF rep i] by (simp add: level_ok_upd_other)
  moreover have "(\<Sum>y\<leftarrow>L ?i. unat (o_quantity_remaining (upd (side_store s) x (\<lambda>r. r\<lparr>o_next := None\<rparr>) y))) =
      (\<Sum>y\<leftarrow>L ?i. unat (o_quantity_remaining (side_store s y)))"
    by (intro sum_list_map_cong) (simp add: upd_apply)
  ultimately have "debug_check_level_invariant (upd (side_store s) x (\<lambda>r. r\<lparr>o_next := None\<rparr>)) (levels s ?i) = returns ()"
    using level_ok_check fit i by (fastforce simp: fits_def queue_def comp_def)
  then show ?thesis using nx r after [OF i] by (simp add: add_order_debug_def allocate_def Let_def)
qed

lemma rest_order_side:
  "side_of (fst (rest_order b d price q rm oid cid rid now now_add)) d =
   fst (snd (add_order (side_of b d) price q rm oid cid rid now_add))"
  by (simp add: rest_order_def Let_def del: side_of_bids split: prod.split option.split)

lemma submit_order_debug_agrees:
  assumes good: "good_book b" and ids: "ids_left b" and vol: "volume_at (orders b d) price + unat q < 2 ^ 32"
    and s: "submit_order b price q d cid rid now now_match now_add = Some r"
  shows "submit_order_debug b price q d cid rid now now_match now_add = returns r"
proof (cases "q = 0 \<or> \<not> price_ok price")
  case True
  then show ?thesis using s submit_invalid [OF True] by (auto simp: submit_order_debug_def price_ok_def)
next
  case False
  then have ok: "q \<noteq> 0" "price_ok price" and guard: "\<not> (price < MINIMUM_BID \<or> price > MAXIMUM_ASK)"
    by (auto simp: price_ok_def)
  obtain L F where rep: "book_rep b L F" using good_bookD [OF good] by (auto simp: wf_book_def)
  have good': "good_book (fst r)" using submit_good [OF good ids vol, of cid rid now now_match now_add "fst r" "snd r"] s by simp
  have fits: "fits (side_of b e) (L e)" for e using good_bookD [OF good] within_range_rep [OF rep] by blast
  have inv: "loop_inv (side_ids (side_of b d) (L d)) (match_start b (\<not> d) q)"
    using book_rep_start [OF rep, of "\<not> d" q] fits [of "\<not> d"] by (auto simp: loop_inv_def)
  obtain ms where ms: "match_side (\<not> d) price (ob_order_id b) cid now_match (match_start b (\<not> d) q) = Some ms"
    using s ok by (auto simp: submit_eq split: option.splits)
  let ?b2 = "match_finish (b\<lparr>ob_order_id := ob_order_id b + 1\<rparr>) (\<not> d) ms"
  have dbg: "(if d then match_buy_debug price (ob_order_id b) cid now_match (match_start b False q)
       else match_sell_debug price (ob_order_id b) cid now_match (match_start b True q)) = returns ms"
    using ms inv match_buy_debug_agrees match_sell_debug_agrees by (cases d) (auto simp: match_side_def)
  let ?add = "add_order (side_of ?b2 d) price q (m_incoming ms) (ob_order_id b) cid rid now_add"
  have r: "r = (if 0 < m_incoming ms
      then (case rest_order ?b2 d price q (m_incoming ms) (ob_order_id b) cid rid now now_add of (b3, evs) \<Rightarrow> (b3, m_events ms @ evs))
      else (?b2, m_events ms))"
    using s ms ok by (auto simp: submit_eq Let_def split: prod.splits)
  have "add_order_debug (side_of ?b2 d) price q (m_incoming ms) (ob_order_id b) cid rid now_add = returns ?add"
    if "0 < m_incoming ms"
  proof (rule add_order_debug_agrees [OF _ _ ok(2) refl])
    show "side_rep (side_of ?b2 d) (L d) (F d)" "fits (side_of ?b2 d) (L d)"
      using book_rep_side [OF rep, of d] fits [of d] by simp_all
    have "fst (snd ?add) = side_of (fst r) d"
      using r that rest_order_side [of ?b2 d price q "m_incoming ms" "ob_order_id b" cid rid now now_add]
      by (auto split: prod.splits)
    then show "check_level (fst (snd ?add)) i = returns ()" if "i < NUM_BOOK_LEVELS" for i
      using level_check_good [OF _ _ that] good_bookD [OF good'] by simp
  qed
  then show ?thesis
    using r guard ok(1) integrity_check_good [OF good']
    unfolding submit_order_debug_def Let_def match_start_id dbg by (auto simp del: side_of_bids split: prod.splits)
qed

text \<open>The checks before and after a cancellation or an amendment that keeps the book good.\<close>

lemma found_order_checks:
  assumes good: "good_book b" and good': "good_book b'" and p: "find_order b oid = Some p"
  shows "check_level (side_of b d) (price_to_index (o_price (deref b p))) = returns ()"
    and "check_level (side_of b' d) (price_to_index (o_price (deref b p))) = returns ()"
    and "o_order_id (deref b p) = oid"
proof -
  obtain L F where rep: "book_rep b L F" using good_bookD [OF good] by (auto simp: wf_book_def)
  note live = find_live [OF rep p]
  show "check_level (side_of b d) (price_to_index (o_price (deref b p))) = returns ()"
    "check_level (side_of b' d) (price_to_index (o_price (deref b p))) = returns ()"
    using level_check_good live(2) good_bookD [OF good] good_bookD [OF good'] by blast+
  show "o_order_id (deref b p) = oid" by (rule live(5))
qed

lemma handle_debug_agrees:
  assumes good: "good_book b" and ids: "ids_left b" and adm: "admissible b req" and h: "handle b req = Some r"
  shows "handle_debug b req = returns r"
proof -
  have good': "good_book (fst r)" using handle_good [OF good ids adm] h by (metis prod.collapse)
  note checks = found_order_checks [OF good good']
  show ?thesis
  proof (cases req)
    case (Submit price q d cid rid now now_match now_add)
    then show ?thesis using submit_order_debug_agrees [OF good ids] adm h by simp
  next
    case (Cancel cid rid oid now)
    then show ?thesis using h checks by (auto simp: cancel_order_debug_def Let_def split: option.split)
  next
    case (Amend cid rid oid qn now)
    then show ?thesis using h checks by (auto simp: amend_order_debug_def Let_def split: option.split)
  qed
qed

section \<open>Properties\<close>

text \<open>
  C8: The debug build does what the release build does.  After any orderly run from a good book, on
  every admissible request the debug build ends, none of its assertions fails (before and after
  each change of a level, at every turn of the matching loops, on the best prices and on the order
  found), and it returns the same book and callbacks as the release build.
\<close>

theorem debug_build_agrees_with_release:
  assumes "good_book b" and "orderly_run b evs b'" and "ids_left b'" and "admissible b' req"
  shows "\<exists>r. handle b' req = Some r \<and> handle_debug b' req = Some (Inr r)"
proof -
  have good: "good_book b'" using orderly_run_good assms(1,2) by blast
  obtain r where "handle b' req = Some r" using handle_wf [OF _ assms(3)] good_bookD [OF good] by blast
  then show ?thesis using handle_debug_agrees [OF good assms(3,4)] by (auto simp: returns_def)
qed

theorem debug_build_agrees_with_release_witness:
  "\<exists>r. handle_debug one_ask (Submit 100 3 True 9 1 0 0 0) = Some (Inr r)"
proof -
  have "admissible one_ask (Submit 100 3 True 9 1 0 0 0)" by (simp add: one_ask_good(3))
  from debug_build_agrees_with_release [OF one_ask_good(2) orderly_start one_ask_ids this] show ?thesis by blast
qed



end
