(* ===== verification/Book_Events.thy ===== *)
theory Book_Events
  imports Book_Debug
begin

text \<open>
  The level updates the book sends: every one is about a price of the book, from 1 to 10000, in every orderly
  run.  So a level update always fits its wire and file format.
\<close>

section \<open>The prices of level updates\<close>

fun level_price_ok :: "BookEvent \<Rightarrow> bool" where
  "level_price_ok (OnLevelUpdate sd lv now) \<longleftrightarrow> price_ok (l_price lv)"
| "level_price_ok _ \<longleftrightarrow> True"

lemma side_level_price: "side_rep s L F \<Longrightarrow> i < NUM_BOOK_LEVELS \<Longrightarrow> price_ok (l_price (levels s i))"
  using side_rep_level [of s L F i] by (simp add: level_ok_def price_ok_index)

lemma loop_inv_price: "loop_inv ot ms \<Longrightarrow> k < NUM_BOOK_LEVELS \<Longrightarrow> price_ok (l_price (levels (m_side ms) k))"
  by (auto simp: loop_inv_def intro: side_level_price dest: ms_rep_side)

lemma fill_front_events: "\<exists>e. m_events (fill_front a oid cid tot now k x ms) = m_events ms @ [e] \<and> level_price_ok e"
  by (auto simp: fill_front_def Let_def split: option.splits)

lemma match_level_events:
  "match_level a oid cid tot now k ms = Some ms' \<Longrightarrow> \<exists>es. m_events ms' = m_events ms @ es \<and> list_all level_price_ok es"
proof (induction rule: match_level.raw_induct
    [where P = "\<lambda>a oid cid tot now k ms ms'. \<exists>es. m_events ms' = m_events ms @ es \<and> list_all level_price_ok es",
      rotated, consumes 1, case_names turn])
  case (turn f a oid cid tot now k ms ms')
  show ?case
  proof (cases "0 < m_incoming ms \<and> l_first (levels (m_side ms) k) \<noteq> None")
    case True
    then obtain x where x: "l_first (levels (m_side ms) k) = Some x" by blast
    have "f a oid cid tot now k (fill_front a oid cid tot now k x ms) = Some ms'" using turn(2) True x by simp
    from turn(1) [OF this] show ?thesis using fill_front_events [of a oid cid tot now k x ms] by fastforce
  next
    case False
    then show ?thesis using turn(2) by (auto split: if_splits)
  qed
qed

context direction
begin

lemma match_loop_events:
  "match_loop price oid cid sd cr a tot now ms = Some ms' \<Longrightarrow> a = adv \<longrightarrow> loop_inv ot ms \<longrightarrow>
   (\<exists>es. m_events ms' = m_events ms @ es \<and> list_all level_price_ok es)"
proof (induction rule: match_loop.raw_induct
    [where P = "\<lambda>price oid cid sd cr a tot now ms ms'. a = adv \<longrightarrow> loop_inv ot ms \<longrightarrow>
       (\<exists>es. m_events ms' = m_events ms @ es \<and> list_all level_price_ok es)", rotated, consumes 1, case_names turn])
  case (turn f price oid cid sd cr a tot now ms ms')
  let ?k = "best_price_index (m_side ms)"
  show ?case
  proof (intro impI)
    assume a: "a = adv" and inv: "loop_inv ot ms"
    show "\<exists>es. m_events ms' = m_events ms @ es \<and> list_all level_price_ok es"
    proof (cases "0 < m_incoming ms \<and> ?k \<noteq> NUM_BOOK_LEVELS \<and> cr (l_price (levels (m_side ms) ?k)) price")
      case True
      then have k: "?k < NUM_BOOK_LEVELS" using loop_inv_best [OF inv] by simp
      obtain ms1 where m1: "match_level a oid cid tot now ?k ms = Some ms1"
        and f: "f price oid cid sd cr a tot now (ms1\<lparr>m_events := m_events ms1 @
            [OnLevelUpdate sd (levels (m_side ms1) ?k) now]\<rparr>) = Some ms'"
        using turn(2) True by (auto simp: Let_def split: Option.bind_splits)
      have inv1: "loop_inv ot ms1"
        using match_level_debug_agrees [OF m1, of ot] a k loop_inv_level [OF inv] level_inv_loop by auto
      then show ?thesis
        using turn(1) [OF f] a match_level_events [OF m1] loop_inv_price [OF inv1 k] by fastforce
    next
      case False
      then show ?thesis using turn(2) by (auto simp: Let_def split: if_splits)
    qed
  qed
qed

end

lemma match_side_events:
  assumes "match_side d price oid cid now ms = Some ms'" and "loop_inv ot ms"
  shows "\<exists>es. m_events ms' = m_events ms @ es \<and> list_all level_price_ok es"
proof (cases d)
  case True
  then show ?thesis
    using assms dir.match_loop_events [where d = True, of price oid cid BUY "\<lambda>l p. l \<ge> p" _ "m_incoming ms" now ms ms' ot]
    by (auto simp: match_side_def match_sell_def direction_eq)
next
  case False
  then show ?thesis
    using assms dir.match_loop_events [where d = False, of price oid cid SELL "\<lambda>l p. l \<le> p" _ "m_incoming ms" now ms ms' ot]
    by (auto simp: match_side_def match_buy_def direction_eq)
qed

lemma add_order_events:
  assumes "side_rep s L F" and "price_ok price"
  shows "list_all level_price_ok (snd (snd (add_order s price q rm oid cid rid now)))"
  using side_level_price [OF assms(1) price_to_index_less [OF assms(2)]]
  by (auto simp: add_order_def allocate_def Let_def split: option.split)

lemma rest_order_events:
  assumes "side_rep (side_of b d) L F" and "price_ok price"
  shows "list_all level_price_ok (snd (rest_order b d price q rm oid cid rid now now_add))"
proof (cases "add_order (side_of b d) price q rm oid cid rid now_add")
  case (fields x s evs)
  then show ?thesis
    using add_order_events [OF assms, of q rm oid cid rid now_add]
    by (cases x) (simp_all add: rest_order_def Let_def del: side_of_bids)
qed

lemma submit_events:
  assumes good: "good_book b" and s: "submit_order b price q d cid rid now now_match now_add = Some (b', evs)"
  shows "list_all level_price_ok evs"
proof (cases "q = 0 \<or> \<not> price_ok price")
  case True
  then show ?thesis using s submit_invalid [OF True] by auto
next
  case False
  then have ok: "q \<noteq> 0" "price_ok price" by simp_all
  obtain L F where rep: "book_rep b L F" using good_bookD [OF good] by (auto simp: wf_book_def)
  have "fits (side_of b e) (L e)" for e using good_bookD [OF good] within_range_rep [OF rep] by blast
  then have inv: "loop_inv (side_ids (side_of b d) (L d)) (match_start b (\<not> d) q)"
    using book_rep_start [OF rep, of "\<not> d" q] by (auto simp: loop_inv_def)
  obtain ms where ms: "match_side (\<not> d) price (ob_order_id b) cid now_match (match_start b (\<not> d) q) = Some ms"
    using s ok by (auto simp: submit_eq split: option.splits)
  have m: "list_all level_price_ok (m_events ms)" using match_side_events [OF ms inv] by auto
  have "side_rep (side_of (match_finish (b\<lparr>ob_order_id := ob_order_id b + 1\<rparr>) (\<not> d) ms) d) (L d) (F d)"
    using book_rep_side [OF rep, of d] by simp
  from rest_order_events [OF this ok(2), of q "m_incoming ms" "ob_order_id b" cid rid now now_add] show ?thesis
    using s ms ok m by (auto simp: submit_eq Let_def split: if_splits prod.splits)
qed

lemma good_level_price: "good_book b \<Longrightarrow> i < NUM_BOOK_LEVELS \<Longrightarrow> price_ok (l_price (levels (side_of b d) i))"
  using good_bookD [of b] book_rep_side [of b] by (fastforce simp: wf_book_def intro: side_level_price)

lemma cancel_events:
  assumes good: "good_book b"
  shows "list_all level_price_ok (snd (cancel_order b cid rid oid now))"
proof (cases "find_order b oid")
  case None
  then show ?thesis by (simp add: cancel_order_def)
next
  case (Some p)
  obtain L F where rep: "book_rep b L F" using good_bookD [OF good] by (auto simp: wf_book_def)
  let ?i = "price_to_index (o_price (deref b p))"
  have good': "good_book (fst (cancel_order b cid rid oid now))"
    using cancel_good [OF good, of cid rid oid now] by (metis prod.collapse)
  show ?thesis
  proof (cases "o_client_id (deref b p) = cid")
    case True
    then have "\<exists>t. snd (cancel_order b cid rid oid now) =
        [OnLevelUpdate t (levels (side_of (fst (cancel_order b cid rid oid now)) (o_is_bid (deref b p))) ?i) now,
         OnOrderCancelled rid (deref b p) now]"
      using Some by (simp add: cancel_order_def Let_def del: side_of_bids)
    then show ?thesis using good_level_price [OF good' find_live(2) [OF rep Some]] by auto
  next
    case False
    then show ?thesis using Some by (simp add: cancel_order_def Let_def)
  qed
qed

lemma amend_events:
  assumes good: "good_book b"
  shows "list_all level_price_ok (snd (amend_order b cid rid oid qn now))"
proof (cases "find_order b oid")
  case None
  then show ?thesis by (simp add: amend_order_def Let_def)
next
  case (Some p)
  obtain L F where rep: "book_rep b L F" using good_bookD [OF good] by (auto simp: wf_book_def)
  let ?r = "deref b p"
  consider "o_client_id ?r = cid \<and> o_quantity_cumulative ?r \<le> qn \<and> qn - o_quantity_cumulative ?r < o_quantity_remaining ?r"
    | "o_client_id ?r \<noteq> cid \<or> qn < o_quantity_cumulative ?r \<or> o_quantity_remaining ?r \<le> qn - o_quantity_cumulative ?r"
    by (meson not_le)
  then show ?thesis
  proof cases
    case 1
    then show ?thesis
      using amend_order_eq [OF rep Some, of cid qn rid now] good_level_price [OF good find_live(2) [OF rep Some]]
      by (simp add: amended_level_def)
  next
    case 2
    then show ?thesis using Some by (auto simp: amend_order_def Let_def)
  qed
qed

lemma handle_events:
  assumes "good_book b" and "handle b req = Some (b', evs)"
  shows "list_all level_price_ok evs"
  using assms submit_events cancel_events [OF assms(1)] amend_events [OF assms(1)]
  by (cases req) (auto, (metis snd_conv)+)

lemma orderly_run_events:
  "orderly_run b evs b' \<Longrightarrow> good_book b \<Longrightarrow> list_all level_price_ok evs"
proof (induction rule: orderly_run.induct)
  case (orderly_step b evs b1 req b2 evs')
  then show ?case using handle_events [OF orderly_run_good [OF orderly_step(1)]] by simp
qed simp

end
