(* ===== verification/Log_Replay.thy ===== *)
theory Log_Replay
  imports Binary_Logger Shadow_Order_Book Exchange_Wiring Book_Events
begin

text \<open>
  From the matching engine to the files and back.  The level updates of the book go through the exchange's
  callbacks, the logger's queue, its staging buffer and the file; reading the file back and
  replaying it gives the volumes of the book.  This composes the book, the callbacks, the codecs and the logger.
\<close>

section \<open>Reading a log file\<close>

text \<open>A file is the array of the records of its type, without headers.\<close>

definition read_log :: "'a codec \<Rightarrow> byte list \<Rightarrow> 'a list option" where
  "read_log c bs = read_array c (length bs div sizeof c) bs"

context faithful_codec
begin

lemma read_array_images: "(\<And>x. x \<in> set xs \<Longrightarrow> fits x) \<Longrightarrow> read_array c (length xs) (concat (map (image c) xs)) = Some xs"
  by (induction xs) (simp_all add: image_length read_image)

lemma read_log_images:
  assumes "\<And>x. x \<in> set xs \<Longrightarrow> fits x" and "0 < sizeof c"
  shows "read_log c (concat (map (image c) xs)) = Some xs"
proof -
  have "length (concat (map (image c) xs)) = length xs * sizeof c"
    using assms(1) by (induction xs) (simp_all add: image_length)
  then show ?thesis using read_array_images [of xs] assms by (simp add: read_log_def)
qed

end

section \<open>What the exchange logs\<close>

text \<open>What a logger that drops nothing accepts of a list of feed messages.\<close>

definition logged :: "Payload list \<Rightarrow> (LogFile \<times> byte list) list" where
  "logged ps = concat (map (\<lambda>p. case log_file_of (payload_type p) of None \<Rightarrow> [] | Some x \<Rightarrow> [(x, payload_image p)]) ps)"

fun level_update_of :: "Payload \<Rightarrow> PayloadPriceLevelUpdate list" where
  "level_update_of (PriceLevelUpdate u) = [u]"
| "level_update_of _ = []"

definition level_updates :: "Payload list \<Rightarrow> PayloadPriceLevelUpdate list" where
  "level_updates ps = concat (map level_update_of ps)"

lemma level_update_bytes:
  "concat (map snd (filter (\<lambda>(y, bs). y = Log_Plu) (logged ps))) =
     concat (map (image PayloadPriceLevelUpdate_codec) (level_updates ps))"
proof (induction ps)
  case (Cons p ps)
  then show ?case by (cases p) (simp_all add: logged_def level_updates_def)
qed (simp add: logged_def level_updates_def)

lemma level_updates_fit:
  "list_all level_price_ok evs \<Longrightarrow> u \<in> set (level_updates (feed_messages tid seq evs)) \<Longrightarrow> int64 (PayloadPriceLevelUpdate.price u)"
proof (induction evs arbitrary: tid seq)
  case (Cons ev evs)
  then show ?case
    by (cases ev) (auto simp: level_updates_def make_price_level_update_def price_ok_def int64_def MINIMUM_BID_def MAXIMUM_ASK_def)
qed (simp add: level_updates_def)

lemma replay_level_updates:
  "fold (\<lambda>u sh. on_price_level_update sh u) (level_updates ps) sh = fold on_feed ps sh"
proof (induction ps arbitrary: sh)
  case (Cons p ps)
  then show ?case by (cases p) (simp_all add: level_updates_def)
qed (simp add: level_updates_def)

lemma callbacks_log: "event_log (fold callback evs ex) = event_log ex @ feed_messages (trade_id ex) (sequence_number ex) evs"
  by (induction evs arbitrary: ex) (simp_all add: callback_state)

section \<open>A logger that keeps up\<close>

lemma logged_length:
  assumes "log_file_of (payload_type p) = Some x"
  shows "length (payload_image p) = psz x"
  using assms
  by (cases p; cases x)
    (simp_all add: codec_size, simp_all add: PayloadTradeEvent_codec_def PayloadOrderInsertedEvent_codec_def
      PayloadOrderCancelledEvent_codec_def PayloadOrderAmendedEvent_codec_def PayloadPriceLevelUpdate_codec_def
      struct_codec_def seq_codec_def word_codec_def int64_codec_def side_codec_def enum_codec_def)

text \<open>If the writer drains after every message, all are accepted.\<close>

lemma logger_accepts:
  assumes wr: "writes_all wr"
  shows "log_inv acc l \<Longrightarrow> (\<And>x. contents (q_cap x) (queues l x) = []) \<Longrightarrow>
    \<exists>l'. (logger_step wr)\<^sup>*\<^sup>* (acc, l) (acc @ logged ps, l')"
proof (induction ps arbitrary: acc l)
  case Nil
  then show ?case by (auto simp: logged_def)
next
  case (Cons p ps)
  show ?case
  proof (cases "log_file_of (payload_type p)")
    case None
    then show ?thesis using Cons by (simp add: logged_def)
  next
    case (Some x)
    let ?bs = "payload_image p" and ?t = "payload_type p"
    have t: "?t = logged_type x" and len: "length ?bs = psz x" using Some logged_length by (simp_all add: log_file_of_type)
    have acc: "fst (push_item l x ?bs)"
      using push_accepted [OF Cons.prems(1), of x ?bs] Cons.prems(2) [of x] by (cases x) (simp_all del: length_contents)
    let ?l1 = "Binary_Logger.log_message l ?t ?bs"
    have s1: "logger_step wr (acc, l) (acc @ [(x, ?bs)], ?l1)"
      using step_log [of ?t ?bs wr acc l] acc Some len t by simp
    have inv1: "log_inv (acc @ [(x, ?bs)]) ?l1"
      using log_message_inv [OF Cons.prems(1) _ Some, of ?bs] acc len t by simp
    let ?l2 = "snd (drain_file wr 1 x ?l1)"
    have s2: "logger_step wr (acc @ [(x, ?bs)], ?l1) (acc @ [(x, ?bs)], ?l2)" by (rule step_drain)
    have d: "drain_file wr 1 x ?l1 = (fst (drain_file wr 1 x ?l1), ?l2)" by simp
    note inv2 = drain_file_inv [OF wr inv1 d]
    have q: "queue_inv (q_cap x) (queues l x)" using log_invD(1) [OF Cons.prems(1), of x] by (simp add: items_ok_def)
    have "length (contents (q_cap x) (queues l x)) < unat (q_cap x)" using acc push_accepted [OF Cons.prems(1)] by blast
    note room = ring.push_room [OF q this]
    have "contents (q_cap y) (queues ?l1 y) = (if y = x then [payload_item (sink_payload_size (sinks l x)) ?bs] else [])" for y
      using room Cons.prems(2) Some by (simp add: Binary_Logger.log_message_def push_item_def)
    then have "contents (q_cap y) (queues ?l2 y) = []" for y using inv2(3) [of y] by simp
    from Cons.IH [OF inv2(1) this] obtain l' where
      "(logger_step wr)\<^sup>*\<^sup>* (acc @ [(x, ?bs)], ?l2) ((acc @ [(x, ?bs)]) @ logged ps, l')" by blast
    then have "(logger_step wr)\<^sup>*\<^sup>* (acc, l) ((acc @ [(x, ?bs)]) @ logged ps, l')"
      using s1 s2 by (meson converse_rtranclp_into_rtranclp)
    moreover have "(acc @ [(x, ?bs)]) @ logged ps = acc @ logged (p # ps)" using Some by (simp add: logged_def)
    ultimately show ?thesis by metis
  qed
qed

section \<open>Replaying the file\<close>

text \<open>
  C10: Replaying the log gives the book.  Take any orderly run from the empty book, the callbacks of an exchange that has logged
  nothing yet on its events, and any interleaving of the logger's threads in which no message was dropped, and let
  the destructor run.  It returns, and the file of the level updates, read back record by record, is the list of
  exactly the level updates of the run; replayed on an empty copy they give at every price of
  both sides the volume that rests in the book.
\<close>

theorem replaying_the_log_gives_the_book:
  fixes ex :: Exchange
  assumes "orderly_run (OrderBook_init mb ma) evs b" and "event_log ex = []"
    and "BinaryEventLogger_init create dir ts = Inr l0" and "writes_all wr"
    and "(logger_step wr)\<^sup>*\<^sup>* ([], l0) (logged (event_log (fold callback evs ex)), l)"
  shows "\<exists>l' us. BinaryEventLogger_destroy wr l = Some l' \<and>
    read_log PayloadPriceLevelUpdate_codec (on_disk (sinks l' Log_Plu)) = Some us \<and>
    us = level_updates (event_log (fold callback evs ex)) \<and>
    (\<forall>sd p. shadow_volume_at (fold (\<lambda>u sh. on_price_level_update sh u) us ShadowOrderBook_init) sd p = volumes_of b sd p)"
proof -
  let ?ps = "feed_messages (trade_id ex) (sequence_number ex) evs"
  have log: "event_log (fold callback evs ex) = ?ps" by (simp add: callbacks_log assms(2))
  obtain l' where l': "BinaryEventLogger_destroy wr l = Some l'"
    "on_disk (sinks l' Log_Plu) = concat (map (image PayloadPriceLevelUpdate_codec) (level_updates ?ps))"
    using destroy_writes [OF assms(3,4,5)] unfolding log level_update_bytes [symmetric] by blast
  have "list_all level_price_ok evs" by (rule orderly_run_events [OF assms(1) good_book_init])
  then have "read_log PayloadPriceLevelUpdate_codec (on_disk (sinks l' Log_Plu)) = Some (level_updates ?ps)"
    unfolding l'(2) by (intro price_level_update.read_log_images level_updates_fit) (simp_all add: codec_size)
  moreover have "shadow_volume_at (fold (\<lambda>u sh. on_price_level_update sh u) (level_updates ?ps) ShadowOrderBook_init) = volumes_of b"
  proof -
    have "shadow_volume_at ShadowOrderBook_init = (\<lambda>_ _. 0)"
      by (simp add: fun_eq_iff shadow_volume_at_def ShadowOrderBook_init_def)
    then show ?thesis
      using run_wf [OF orderly_run_run [OF assms(1)]] good_bookD [OF good_book_init]
      by (simp add: replay_level_updates shadow_feed volumes_init)
  qed
  ultimately show ?thesis using l'(1) log by simp
qed

theorem replaying_the_log_gives_the_book_witness:
  "\<exists>evs l l' us. orderly_run empty_book evs one_ask \<and>
     (logger_step (@))\<^sup>*\<^sup>* ([], opened_logger) (logged (event_log (fold callback evs (Exchange_init no_message empty_book))), l) \<and>
     BinaryEventLogger_destroy (@) l = Some l' \<and> read_log PayloadPriceLevelUpdate_codec (on_disk (sinks l' Log_Plu)) = Some us \<and>
     shadow_volume_at (fold (\<lambda>u sh. on_price_level_update sh u) us ShadowOrderBook_init) SELL 100 = 5"
proof -
  obtain evs where run: "orderly_run empty_book evs one_ask" using one_ask_run by blast
  have wr: "writes_all (@)" by (simp add: writes_all_def)
  let ?ex = "Exchange_init no_message empty_book"
  obtain l where l: "(logger_step (@))\<^sup>*\<^sup>* ([], opened_logger) (logged (event_log (fold callback evs ?ex)), l)"
    using logger_accepts [OF wr init_inv [OF opened_logger] opened_logger_empty] by auto
  have "volumes_of one_ask SELL 100 = 5" using one_ask_wf volumes_of_volume by (auto simp: wf_book_def one_ask_good(3))
  moreover have "event_log ?ex = []" by (simp add: Exchange_init_def)
  ultimately show ?thesis
    using replaying_the_log_gives_the_book [OF run [unfolded empty_book_def] _ opened_logger wr l] run l by metis
qed

end
