(* ===== verification/Book_Print.thy ===== *)
theory Book_Print
  imports Book_Properties Decimal
begin

text \<open>
  Printing the book (src/order_book.cpp): \<open>print_side\<close> and \<open>print_book\<close>, and \<open>_debug_print_orders\<close> of the
  debug build.  What is written to \<open>std::cout\<close> is a string; a walk along broken links may never
  end, so printing returns an option.  It is shown that the text is that of the resting orders, level by
  level and in time priority, and that the link check of the debug output never fails.
\<close>

section \<open>Printing a side\<close>

definition print_order :: "Order \<Rightarrow> string" where
  "print_order r =
     ''[client_id='' @ decimal (unat (o_client_id r)) @ '', order_id='' @ decimal (unat (o_order_id r))
     @ '', qty='' @ decimal (unat (o_quantity r)) @ ''] ''"

text \<open>The loop \<open>while (cur)\<close>: the output so far, then the orders from \<open>cur\<close> on.\<close>

partial_function (option) print_level :: "store \<Rightarrow> nat option \<Rightarrow> string \<Rightarrow> string option" where
  "print_level p cur out =
     (case cur of
        None \<Rightarrow> Some out
      | Some x \<Rightarrow> print_level p (o_next (p x)) (out @ print_order (p x)))"

fun print_levels :: "OrderBookSide \<Rightarrow> nat list \<Rightarrow> string \<Rightarrow> string option" where
  "print_levels s [] out = Some out"
| "print_levels s (i # ks) out =
     (let level = levels s i in
      if l_total_quantity level = 0 then print_levels s ks out
      else Option.bind (print_level (side_store s) (l_first level) (out @ ''Price '' @ decimal_int (l_price level) @ '' -> ''))
             (\<lambda>out1. print_levels s ks (out1 @ endl)))"

definition print_side :: "OrderBookSide \<Rightarrow> string \<Rightarrow> string \<Rightarrow> string option" where
  "print_side s name out =
     Option.bind (print_levels s [0..<NUM_BOOK_LEVELS] (out @ ''=== '' @ name @ '' ==='' @ endl))
       (\<lambda>out1. Some (out1 @ endl))"

definition print_book :: "OrderBook \<Rightarrow> string \<Rightarrow> string option" where
  "print_book b out = Option.bind (print_side (bids b) ''BIDS'' out) (print_side (asks b) ''ASKS'')"

section \<open>The debug output\<close>

definition debug_print_order :: "nat \<Rightarrow> Order \<Rightarrow> string" where
  "debug_print_order i r =
     ''  ['' @ decimal i @ ''] '' @ ''order_id='' @ decimal (unat (o_order_id r))
     @ '' client_id='' @ decimal (unat (o_client_id r)) @ '' price='' @ decimal_int (o_price r)
     @ '' rem='' @ decimal (unat (o_quantity_remaining r)) @ '' cum='' @ decimal (unat (o_quantity_cumulative r)) @ endl"

text \<open>The loop over a level, which stops at the first node whose successor does not link back.\<close>

partial_function (option) debug_print_level :: "store \<Rightarrow> nat option \<Rightarrow> nat \<Rightarrow> string \<Rightarrow> string option" where
  "debug_print_level p cur i out =
     (case cur of
        None \<Rightarrow> Some out
      | Some x \<Rightarrow>
          let out1 = out @ debug_print_order i (p x) in
          case o_next (p x) of
            None \<Rightarrow> debug_print_level p None (i + 1) out1
          | Some y \<Rightarrow>
              if o_previous (p y) \<noteq> Some x
              then Some (out1 @ ''  !!! LINK ERROR: next->previous mismatch'' @ endl)
              else debug_print_level p (Some y) (i + 1) out1)"

fun debug_print_levels :: "OrderBookSide \<Rightarrow> nat list \<Rightarrow> string \<Rightarrow> string option" where
  "debug_print_levels s [] out = Some out"
| "debug_print_levels s (i # ks) out =
     (let level = levels s i in
      if l_first level = None then debug_print_levels s ks out
      else Option.bind (debug_print_level (side_store s) (l_first level) 0
               (out @ ''PriceLevel['' @ decimal i @ ''] price='' @ decimal_int (l_price level)
                    @ '' total_qty='' @ decimal (unat (l_total_quantity level)) @ endl))
             (debug_print_levels s ks))"

definition debug_print_side :: "string \<Rightarrow> OrderBookSide \<Rightarrow> string \<Rightarrow> string option" where
  "debug_print_side side_name s out =
     debug_print_levels s [0..<NUM_BOOK_LEVELS] (out @ ''==== '' @ side_name @ '' ===='' @ endl)"

definition debug_print_orders :: "OrderBook \<Rightarrow> string \<Rightarrow> string option" where
  "debug_print_orders b out =
     Option.bind (debug_print_side ''BIDS'' (bids b) out) (\<lambda>out1.
     Option.bind (debug_print_side ''ASKS'' (asks b) out1) (\<lambda>out2.
     Some (out2 @ ''========================='' @ endl)))"

section \<open>The text of a list of orders\<close>

definition resting_text :: "Resting \<Rightarrow> string" where
  "resting_text r =
     ''[client_id='' @ decimal (unat (r_client_id r)) @ '', order_id='' @ decimal (unat (r_order_id r))
     @ '', qty='' @ decimal (unat (r_quantity r)) @ ''] ''"

definition level_text :: "Resting list \<Rightarrow> Price_t \<Rightarrow> string" where
  "level_text rs price =
     (let os = filter (\<lambda>r. r_price r = price) rs in
      if os = [] then [] else ''Price '' @ decimal_int price @ '' -> '' @ concat (map resting_text os) @ endl)"

definition prices :: "Price_t list" where
  "prices = map (\<lambda>i. MINIMUM_BID + int i) [0..<NUM_BOOK_LEVELS]"

definition side_text :: "string \<Rightarrow> Resting list \<Rightarrow> string" where
  "side_text name rs = ''=== '' @ name @ '' ==='' @ endl @ concat (map (level_text rs) prices) @ endl"

definition book_text :: "(bool \<Rightarrow> Resting list) \<Rightarrow> string" where
  "book_text os = side_text ''BIDS'' (os True) @ side_text ''ASKS'' (os False)"

lemma print_order_view: "print_order r = resting_text (view r)"
  by (simp add: print_order_def resting_text_def view_def)

lemma print_level_seg:
  "seg p pr f xs l None \<Longrightarrow> print_level p f out = Some (out @ concat (map (\<lambda>x. resting_text (view (p x))) xs))"
proof (induction xs arbitrary: pr f out)
  case Nil
  then show ?case by (subst print_level.simps) simp
next
  case (Cons x xs)
  then show ?case by (subst print_level.simps) (auto simp: print_order_view)
qed

lemma queue_at_price:
  assumes rep: "side_rep s L F" and i: "i < NUM_BOOK_LEVELS"
  shows "filter (\<lambda>r. r_price r = MINIMUM_BID + int i) (book_queue (prio d) s L) = queue s (L i)"
proof -
  obtain as bs where q: "\<And>s L. book_queue (prio d) s L =
       concat (map (\<lambda>j. queue s (L j)) as) @ queue s (L i) @ concat (map (\<lambda>j. queue s (L j)) bs)"
    and as: "\<And>j. j \<in> set as \<Longrightarrow> better d j i" and bs: "\<And>j. j \<in> set bs \<Longrightarrow> better d i j"
    using book_queue_split [OF i] by blast
  have out: "filter (\<lambda>r. r_price r = MINIMUM_BID + int i) (concat (map (\<lambda>j. queue s (L j)) js)) = []" if "i \<notin> set js" for js
    using queue_price [OF rep] that by (fastforce simp: filter_empty_conv)
  have "i \<notin> set as" "i \<notin> set bs" using as bs dir.better_irrefl by blast+
  moreover have "filter (\<lambda>r. r_price r = MINIMUM_BID + int i) (queue s (L i)) = queue s (L i)"
    using queue_price [OF rep] by (simp add: filter_id_conv)
  ultimately show ?thesis using out by (simp add: q)
qed

lemma print_levels_text:
  assumes rep: "side_rep s L F" and fit: "fits s L" and less: "\<And>i. i \<in> set ks \<Longrightarrow> i < NUM_BOOK_LEVELS"
  shows "print_levels s ks out =
    Some (out @ concat (map (level_text (book_queue (prio d) s L)) (map (\<lambda>i. MINIMUM_BID + int i) ks)))"
  using less
proof (induction ks arbitrary: out)
  case Nil
  then show ?case by simp
next
  case (Cons i ks)
  have i: "i < NUM_BOOK_LEVELS" using Cons.prems by simp
  note lv = side_rep_level [OF rep i]
  note pos = level_total_pos [OF rep fit i] and q = queue_at_price [OF rep i, of d]
  have pr: "l_price (levels s i) = MINIMUM_BID + int i" using lv by (simp add: level_ok_def)
  show ?case
  proof (cases "L i = []")
    case True
    then have "l_total_quantity (levels s i) = 0" using pos by (simp add: word_gt_0)
    then show ?thesis using Cons True q by (simp add: level_text_def)
  next
    case False
    then have "l_total_quantity (levels s i) \<noteq> 0" using pos by (simp add: word_gt_0)
    moreover have "print_level (side_store s) (l_first (levels s i)) out' =
        Some (out' @ concat (map resting_text (queue s (L i))))" for out'
      using lv print_level_seg [of "side_store s" None "l_first (levels s i)" "L i" "l_last (levels s i)"]
      by (simp add: level_ok_def queue_def comp_def)
    ultimately show ?thesis using Cons False q by (simp add: level_text_def pr)
  qed
qed

lemma print_side_text:
  assumes "side_rep s L F" and "fits s L"
  shows "print_side s name out = Some (out @ side_text name (book_queue (prio d) s L))"
  using print_levels_text [OF assms, of "[0..<NUM_BOOK_LEVELS]" _ d]
  by (simp add: print_side_def side_text_def prices_def)

text \<open>The debug output prints every level that has orders, also one whose total has wrapped to zero.\<close>

definition debug_resting_text :: "nat \<Rightarrow> Resting \<Rightarrow> string" where
  "debug_resting_text i r =
     ''  ['' @ decimal i @ ''] '' @ ''order_id='' @ decimal (unat (r_order_id r))
     @ '' client_id='' @ decimal (unat (r_client_id r)) @ '' price='' @ decimal_int (r_price r)
     @ '' rem='' @ decimal (unat (r_remaining r)) @ '' cum='' @ decimal (unat (r_cumulative r)) @ endl"

definition numbered_text :: "nat \<Rightarrow> Resting list \<Rightarrow> string" where
  "numbered_text n rs = concat (map (\<lambda>(i, r). debug_resting_text i r) (enumerate n rs))"

definition debug_level_text :: "Resting list \<Rightarrow> nat \<Rightarrow> string" where
  "debug_level_text rs i =
     (let os = filter (\<lambda>r. r_price r = MINIMUM_BID + int i) rs in
      if os = [] then []
      else ''PriceLevel['' @ decimal i @ ''] price='' @ decimal_int (MINIMUM_BID + int i)
           @ '' total_qty='' @ decimal (unat (\<Sum>r\<leftarrow>os. r_remaining r)) @ endl @ numbered_text 0 os)"

definition debug_side_text :: "string \<Rightarrow> Resting list \<Rightarrow> string" where
  "debug_side_text name rs = ''==== '' @ name @ '' ===='' @ endl @ concat (map (debug_level_text rs) [0..<NUM_BOOK_LEVELS])"

lemma debug_print_order_view: "debug_print_order i r = debug_resting_text i (view r)"
  by (simp add: debug_print_order_def debug_resting_text_def view_def)

lemma debug_print_level_seg:
  "seg p pr f xs l None \<Longrightarrow>
   debug_print_level p f i out = Some (out @ numbered_text i (map (\<lambda>x. view (p x)) xs))"
proof (induction xs arbitrary: pr f i out)
  case Nil
  then show ?case by (subst debug_print_level.simps) (simp add: numbered_text_def)
next
  case (Cons x xs)
  have sg: "seg p (Some x) (o_next (p x)) xs l None" and f: "f = Some x" using Cons.prems by auto
  have "o_previous (p y) = Some x" if "o_next (p x) = Some y" for y
    using sg that by (cases xs) auto
  then have "debug_print_level p f i out = debug_print_level p (o_next (p x)) (i + 1) (out @ debug_print_order i (p x))"
    unfolding f by (subst debug_print_level.simps) (auto simp: Let_def split: option.split)
  then show ?case using Cons.IH [OF sg] by (simp add: numbered_text_def debug_print_order_view)
qed

lemma debug_print_levels_text:
  assumes rep: "side_rep s L F" and less: "\<And>i. i \<in> set ks \<Longrightarrow> i < NUM_BOOK_LEVELS"
  shows "debug_print_levels s ks out = Some (out @ concat (map (debug_level_text (book_queue (prio d) s L)) ks))"
  using less
proof (induction ks arbitrary: out)
  case Nil
  then show ?case by simp
next
  case (Cons i ks)
  have i: "i < NUM_BOOK_LEVELS" using Cons.prems by simp
  note lv = side_rep_level [OF rep i] and q = queue_at_price [OF rep i, of d]
  have pr: "l_price (levels s i) = MINIMUM_BID + int i" and fst: "l_first (levels s i) = None \<longleftrightarrow> L i = []"
    and tot: "l_total_quantity (levels s i) = (\<Sum>r\<leftarrow>queue s (L i). r_remaining r)"
    using lv level_ok_first [OF lv] by (auto simp: level_ok_def queue_def comp_def view_def split: list.splits)
  have "debug_print_level (side_store s) (l_first (levels s i)) 0 out' = Some (out' @ numbered_text 0 (queue s (L i)))" for out'
    using lv debug_print_level_seg [of "side_store s" None "l_first (levels s i)" "L i" "l_last (levels s i)"] by (simp add: level_ok_def queue_def)
  then show ?case using Cons q fst by (simp add: debug_level_text_def pr tot Let_def)
qed

lemma debug_print_side_text:
  assumes "side_rep s L F"
  shows "debug_print_side name s out = Some (out @ debug_side_text name (book_queue (prio d) s L))"
  using debug_print_levels_text [OF assms, of "[0..<NUM_BOOK_LEVELS]" _ d]
  by (simp add: debug_print_side_def debug_side_text_def)

section \<open>Printing the book\<close>

text \<open>
  Printing shows the book.  For a well-formed book in which no level's volume exceeds 32 bits,
  \<open>print_book\<close> returns and appends to the output exactly the text of its resting orders: both sides, every
  price with orders in ascending order, and at each price the orders in time priority.  The debug
  output of a well-formed book returns too and is the numbered text of the orders; the link error is never printed.
\<close>

theorem print_book_shows_the_resting_orders:
  assumes "wf_book b"
  shows "(within_range b \<longrightarrow> print_book b out = Some (out @ book_text (orders b))) \<and>
    debug_print_orders b out = Some (out @ debug_side_text ''BIDS'' (orders b True) @
      debug_side_text ''ASKS'' (orders b False) @ ''========================='' @ endl)"
proof -
  obtain L F where rep: "book_rep b L F" using assms by (auto simp: wf_book_def)
  have "print_book b out = Some (out @ book_text (orders b))" if "within_range b"
  proof -
    have fits: "fits (side_of b d) (L d)" for d using that within_range_rep [OF rep] by blast
    show ?thesis
      using print_side_text [OF book_rep_side [OF rep, of True] fits, where d = True]
        print_side_text [OF book_rep_side [OF rep, of False] fits, where d = False]
      by (simp add: print_book_def book_text_def orders_rep [OF rep])
  qed
  then show ?thesis
    using debug_print_side_text [OF book_rep_side [OF rep, of True], where d = True]
      debug_print_side_text [OF book_rep_side [OF rep, of False], where d = False]
    by (simp add: debug_print_orders_def orders_rep [OF rep])
qed

theorem print_book_shows_the_resting_orders_witness:
  "print_book one_ask [] = Some (book_text (\<lambda>d. if d then [] else [resting 0 7 100 5 5]))"
  using print_book_shows_the_resting_orders [OF one_ask_wf, of "[]"] good_bookD [OF one_ask_good(2)]
  by (simp add: one_ask_good(3))

end
