(* ===== verification/Spsc_Threads.thy ===== *)
theory Spsc_Threads
  imports Spsc_Queue
begin

text \<open>
  A producer and a consumer of src/spsc_queue.hpp at the grain of its atomic accesses.  Each
  call is cut at its loads and stores: the indices are read, the slot is written or read,
  and only then the own index is published.  Between any two of these the other thread may
  take any number of steps, so an index read by \<open>load\<close> may be out of date when it is used.
  The acquire/release pairs of the code order a slot's write before the index that
  publishes it, which is what taking the accesses in program order expresses.
\<close>

section \<open>The calls, cut at their atomic accesses\<close>

definition push_write :: "size_t \<Rightarrow> 'a \<Rightarrow> size_t \<Rightarrow> 'a SPSCQueue \<Rightarrow> 'a SPSCQueue" where
  "push_write c item head q = q\<lparr>q_buffer := (q_buffer q)[unat (head AND index_mask c) := item]\<rparr>"

definition push_publish :: "size_t \<Rightarrow> 'a SPSCQueue \<Rightarrow> 'a SPSCQueue" where
  "push_publish head q = q\<lparr>q_head := head + 1\<rparr>"

definition pop_read :: "size_t \<Rightarrow> size_t \<Rightarrow> 'a SPSCQueue \<Rightarrow> 'a" where
  "pop_read c tail q = q_buffer q ! unat (tail AND index_mask c)"

definition pop_publish :: "size_t \<Rightarrow> 'a SPSCQueue \<Rightarrow> 'a SPSCQueue" where
  "pop_publish tail q = q\<lparr>q_tail := tail + 1\<rparr>"

text \<open>Run without interruption, the pieces are the calls.\<close>

lemma try_push_pieces:
  "try_push c x q =
    (if c \<le> q_head q - q_tail q then (False, q)
     else (True, push_publish (q_head q) (push_write c x (q_head q) q)))"
  by (simp add: try_push_def push_write_def push_publish_def Let_def)

lemma try_pop_pieces:
  "try_pop c q =
    (if q_tail q = q_head q then (None, q)
     else (Some (pop_read c (q_tail q) q), pop_publish (q_tail q) q))"
  by (simp add: try_pop_def pop_read_def pop_publish_def Let_def)

section \<open>Two threads\<close>

text \<open>Where each thread is in its call, with what it holds in its local variables.\<close>

datatype 'a producer = P_Idle | P_Loaded 'a size_t size_t | P_Written 'a size_t

datatype 'a consumer = C_Idle | C_Loaded size_t size_t | C_Read 'a size_t

text \<open>The shared queue, the two threads, and as history the items whose push has been
  published and the items handed to the consumer.\<close>

record 'a threads =
  queue :: "'a SPSCQueue"
  producer :: "'a producer"
  consumer :: "'a consumer"
  sent :: "'a list"
  received :: "'a list"

definition start :: "'a SPSCQueue \<Rightarrow> 'a threads" where
  "start q = \<lparr>queue = q, producer = P_Idle, consumer = C_Idle, sent = [], received = []\<rparr>"

inductive step :: "size_t \<Rightarrow> 'a threads \<Rightarrow> 'a threads \<Rightarrow> bool" for c where
  push_load: "producer s = P_Idle \<Longrightarrow>
    step c s (s\<lparr>producer := P_Loaded x (q_head (queue s)) (q_tail (queue s))\<rparr>)"
| push_fails: "producer s = P_Loaded x h t \<Longrightarrow> c \<le> h - t \<Longrightarrow>
    step c s (s\<lparr>producer := P_Idle\<rparr>)"
| push_writes: "producer s = P_Loaded x h t \<Longrightarrow> \<not> c \<le> h - t \<Longrightarrow>
    step c s (s\<lparr>queue := push_write c x h (queue s), producer := P_Written x h\<rparr>)"
| push_stores: "producer s = P_Written x h \<Longrightarrow>
    step c s (s\<lparr>queue := push_publish h (queue s), producer := P_Idle, sent := sent s @ [x]\<rparr>)"
| pop_load: "consumer s = C_Idle \<Longrightarrow>
    step c s (s\<lparr>consumer := C_Loaded (q_tail (queue s)) (q_head (queue s))\<rparr>)"
| pop_fails: "consumer s = C_Loaded t h \<Longrightarrow> t = h \<Longrightarrow>
    step c s (s\<lparr>consumer := C_Idle\<rparr>)"
| pop_reads: "consumer s = C_Loaded t h \<Longrightarrow> t \<noteq> h \<Longrightarrow>
    step c s (s\<lparr>consumer := C_Read (pop_read c t (queue s)) t\<rparr>)"
| pop_stores: "consumer s = C_Read x t \<Longrightarrow>
    step c s (s\<lparr>queue := pop_publish t (queue s), consumer := C_Idle,
               received := received s @ [x]\<rparr>)"

inductive_cases step_elim: "step c s s'"

inductive reachable :: "size_t \<Rightarrow> 'a SPSCQueue \<Rightarrow> 'a threads \<Rightarrow> bool" for c q where
  init: "reachable c q (start q)"
| more: "reachable c q s \<Longrightarrow> step c s s' \<Longrightarrow> reachable c q s'"

section \<open>The invariant\<close>

text \<open>
  A thread's copy of its own index is exact.  Its copy of the other's index may be old, but
  only on the safe side: the producer sees at most as much room, the consumer at most as
  many items, as there are.
\<close>

abbreviation used :: "'a SPSCQueue \<Rightarrow> nat" where
  "used q \<equiv> unat (q_head q - q_tail q)"

definition producer_inv :: "size_t \<Rightarrow> 'a SPSCQueue \<Rightarrow> 'a producer \<Rightarrow> bool" where
  "producer_inv c q p = (case p of P_Idle \<Rightarrow> True
     | P_Loaded x h t \<Rightarrow> h = q_head q \<and> used q \<le> unat (h - t)
     | P_Written x h \<Rightarrow> h = q_head q \<and> used q < unat c \<and> q_buffer q ! slot c h = x)"

definition consumer_inv :: "size_t \<Rightarrow> 'a SPSCQueue \<Rightarrow> 'a consumer \<Rightarrow> bool" where
  "consumer_inv c q k = (case k of C_Idle \<Rightarrow> True
     | C_Loaded t h \<Rightarrow> t = q_tail q \<and> unat (h - t) \<le> used q
     | C_Read x t \<Rightarrow> t = q_tail q \<and> 0 < used q \<and> q_buffer q ! slot c t = x)"

definition threads_inv :: "size_t \<Rightarrow> 'a list \<Rightarrow> 'a threads \<Rightarrow> bool" where
  "threads_inv c xs s \<longleftrightarrow> queue_inv c (queue s)
     \<and> producer_inv c (queue s) (producer s) \<and> consumer_inv c (queue s) (consumer s)
     \<and> xs @ sent s = received s @ contents c (queue s)"

lemma start_inv: "queue_inv c q \<Longrightarrow> threads_inv c (contents c q) (start q)"
  by (simp add: threads_inv_def start_def producer_inv_def consumer_inv_def)

text \<open>What a step of one thread leaves of the other's view.\<close>

lemma contents_hd: "0 < used q \<Longrightarrow> hd (contents c q) = q_buffer q ! slot c (q_tail q)"
  using contents_front [of q c] by (cases "q_tail q = q_head q") simp_all

lemma write_consumer:
  assumes "queue_inv c q" "used q < unat c" "consumer_inv c q k"
  shows "consumer_inv c (push_write c x (q_head q) q) k"
proof (cases k)
  case (C_Read y t)
  let ?q = "push_write c x (q_head q) q"
  have "contents c ?q = contents c q"
    using write_keeps_contents [OF assms(1,2)] by (simp add: push_write_def slot_def)
  moreover have "0 < used q" using assms(3) C_Read by (simp add: consumer_inv_def)
  ultimately have "q_buffer ?q ! slot c (q_tail q) = q_buffer q ! slot c (q_tail q)"
    using contents_hd [of q c] contents_hd [of ?q c] by (simp add: push_write_def)
  with assms(3) C_Read show ?thesis by (auto simp: consumer_inv_def push_write_def)
qed (use assms(3) in \<open>simp_all add: consumer_inv_def push_write_def\<close>)

lemma publish_consumer:
  assumes "used q < unat c" "consumer_inv c q k"
  shows "consumer_inv c (push_publish (q_head q) q) k"
  using assms(2) unat_Suc_diff [OF assms(1)]
  by (auto simp: consumer_inv_def push_publish_def split: consumer.splits)

lemma pop_producer:
  assumes "0 < used q" "producer_inv c q p"
  shows "producer_inv c (pop_publish (q_tail q) q) p"
proof -
  have "q_tail q \<noteq> q_head q" using assms(1) by auto
  from arg_cong [OF contents_front [OF this], of length]
  have "used q = Suc (used (pop_publish (q_tail q) q))" by (simp add: size_approx_def pop_publish_def)
  with assms(2) show ?thesis
    by (auto simp: producer_inv_def pop_publish_def split: producer.splits)
qed

lemma push_steps_inv:
  assumes "threads_inv c xs s"
  shows "producer s = P_Loaded x h t \<Longrightarrow> \<not> c \<le> h - t \<Longrightarrow>
      threads_inv c xs (s\<lparr>queue := push_write c x h (queue s), producer := P_Written x h\<rparr>)"
    and "producer s = P_Written x h \<Longrightarrow>
      threads_inv c xs
        (s\<lparr>queue := push_publish h (queue s), producer := P_Idle, sent := sent s @ [x]\<rparr>)"
proof -
  let ?q = "queue s"
  have inv: "queue_inv c ?q" "consumer_inv c ?q (consumer s)"
    "xs @ sent s = received s @ contents c ?q" "producer_inv c ?q (producer s)"
    using assms by (simp_all add: threads_inv_def)
  show "threads_inv c xs (s\<lparr>queue := push_write c x h ?q, producer := P_Written x h\<rparr>)"
    if "producer s = P_Loaded x h t" "\<not> c \<le> h - t"
  proof -
    have room: "h = q_head ?q" "used ?q < unat c"
      using that inv(4) by (auto simp: producer_inv_def word_le_nat_alt)
    have "slot c (q_head ?q) < length (q_buffer ?q)"
      using inv(1) slot_bound [of c] by (simp add: queue_inv_def)
    then have "q_buffer (push_write c x h ?q) ! slot c h = x"
      by (simp add: push_write_def room slot_def)
    with inv room write_keeps_contents [OF inv(1) room(2), of x]
      write_consumer [OF inv(1) room(2) inv(2), of x]
    show ?thesis by (simp add: threads_inv_def producer_inv_def push_write_def slot_def)
  qed
  show "threads_inv c xs
        (s\<lparr>queue := push_publish h ?q, producer := P_Idle, sent := sent s @ [x]\<rparr>)"
    if "producer s = P_Written x h"
  proof -
    have room: "h = q_head ?q" "used ?q < unat c" "q_buffer ?q ! slot c h = x"
      using that inv(4) by (auto simp: producer_inv_def)
    with inv store_inv [OF inv(1) room(2)] store_appends [OF inv(1) room(2)]
      publish_consumer [OF room(2) inv(2)]
    show ?thesis by (simp add: threads_inv_def producer_inv_def push_publish_def)
  qed
qed

lemma pop_store_inv:
  assumes "threads_inv c xs s" and k: "consumer s = C_Read x t"
  shows "threads_inv c xs
    (s\<lparr>queue := pop_publish t (queue s), consumer := C_Idle, received := received s @ [x]\<rparr>)"
proof -
  let ?q = "queue s"
  have inv: "queue_inv c ?q" "producer_inv c ?q (producer s)"
    "xs @ sent s = received s @ contents c ?q"
    and rd: "t = q_tail ?q" "0 < used ?q" "q_buffer ?q ! slot c t = x"
    using assms by (auto simp: threads_inv_def consumer_inv_def)
  have ne: "q_tail ?q \<noteq> q_head ?q" using rd(2) by auto
  from contents_front [OF ne, of c] inv(3) rd advance_inv [OF inv(1) ne]
    pop_producer [OF rd(2) inv(2)]
  show ?thesis by (simp add: threads_inv_def consumer_inv_def pop_publish_def)
qed

lemma step_inv: "step c s s' \<Longrightarrow> threads_inv c xs s \<Longrightarrow> threads_inv c xs s'"
proof (induction rule: step.induct)
  case (push_writes s x h t)
  then show ?case by (simp add: push_steps_inv(1))
next
  case (push_stores s x h)
  then show ?case by (simp add: push_steps_inv(2))
next
  case (pop_stores s x t)
  then show ?case by (simp add: pop_store_inv)
next
  case (pop_reads s t h)
  then have "t = q_tail (queue s)" "unat (h - t) \<le> used (queue s)" "0 < unat (h - t)"
    by (auto simp: threads_inv_def consumer_inv_def unat_gt_0)
  with pop_reads show ?case
    by (auto simp: threads_inv_def consumer_inv_def pop_read_def slot_def)
qed (auto simp: threads_inv_def producer_inv_def consumer_inv_def)

lemma reachable_inv:
  "reachable c q s \<Longrightarrow> queue_inv c q \<Longrightarrow> threads_inv c (contents c q) s"
  by (induction rule: reachable.induct) (auto intro: start_inv step_inv)

text \<open>C18: However a producer and a consumer of a queue interleave, down to the single atomic
  loads and stores of \<open>try_push\<close> and \<open>try_pop\<close>, what the consumer has received is a prefix of
  what the queue held at first followed by what the producer has sent, in that order, with
  nothing lost, repeated or invented; what is missing is exactly what the queue still holds,
  and it never holds more than its capacity.\<close>

theorem interleaved_queue_is_fifo:
  assumes "queue_inv c q" "reachable c q s"
  shows "contents c q @ sent s = received s @ contents c (queue s)
    \<and> prefix (received s) (contents c q @ sent s)
    \<and> length (contents c (queue s)) \<le> unat c"
proof (intro conjI)
  have inv: "threads_inv c (contents c q) s" using reachable_inv assms by blast
  then show eq: "contents c q @ sent s = received s @ contents c (queue s)"
    by (simp add: threads_inv_def)
  show "prefix (received s) (contents c q @ sent s)" unfolding eq by simp
  show "length (contents c (queue s)) \<le> unat c"
    using inv ring.items_bound [of c "queue s"] by (simp add: threads_inv_def)
qed

theorem interleaved_queue_is_fifo_witness:
  "\<exists>s. reachable 2 wrapping_queue s \<and> sent s = [9] \<and> received s = [7]
     \<and> contents 2 (queue s) = [9]"
proof -
  define s1 where "s1 = (start wrapping_queue)\<lparr>producer := P_Loaded 9 0 (- 1)\<rparr>"
  define s2 where "s2 = s1\<lparr>consumer := C_Loaded (- 1) 0\<rparr>"
  define s3 where "s3 = s2\<lparr>queue := push_write 2 9 0 (queue s2), producer := P_Written 9 0\<rparr>"
  define s4 where "s4 = s3\<lparr>consumer := C_Read 7 (- 1)\<rparr>"
  define s5 where "s5 = s4\<lparr>queue := push_publish 0 (queue s4), producer := P_Idle, sent := [9]\<rparr>"
  define s6 where "s6 = s5\<lparr>queue := pop_publish (- 1) (queue s5), consumer := C_Idle, received := [7]\<rparr>"
  note defs = s1_def s2_def s3_def s4_def s5_def s6_def start_def wrapping_queue_def
    push_write_def push_publish_def pop_publish_def pop_read_def index_mask_def
  have "step 2 (start wrapping_queue) s1"
    using push_load [of "start wrapping_queue" 2 9] by (simp add: defs)
  moreover have "step 2 s1 s2" using pop_load [of s1 2] by (simp add: defs)
  moreover have "step 2 s2 s3" using push_writes [of s2 9 0 "- 1" 2] by (simp add: defs word_le_nat_alt)
  moreover have "step 2 s3 s4" using pop_reads [of s3 "- 1" 0 2] by (simp add: defs)
  moreover have "step 2 s4 s5" using push_stores [of s4 9 0 2] by (simp add: defs)
  moreover have "step 2 s5 s6" using pop_stores [of s5 7 "- 1" 2] by (simp add: defs)
  ultimately have "reachable 2 wrapping_queue s6"
    by (meson reachable.intros)
  moreover from conjunct1 [OF interleaved_queue_is_fifo [OF wrapping_queue_eval(1) this]]
  have "contents 2 (queue s6) = [9]" 
    by (simp add: wrapping_queue_eval(2) [unfolded wrapping_queue_def] defs)
  moreover have "sent s6 = [9]" "received s6 = [7]" by (simp_all add: s6_def s5_def)
  ultimately show ?thesis by blast
qed

section \<open>Two producers\<close>

text \<open>
  The exchange's inbox is filled from the strands of all connections (src/connectivity.cpp,
  \<open>parse_accumulator_\<close>) and from the disconnect callbacks (src/exchange.cpp), so the queue may
  meet two producers.  Two pushes that both load before either publishes:
\<close>

definition overlapping_pushes :: "size_t \<Rightarrow> 'a \<Rightarrow> 'a \<Rightarrow> 'a SPSCQueue \<Rightarrow> 'a SPSCQueue" where
  "overlapping_pushes c x y q =
    (let h1 = q_head q; h2 = q_head q;
         q1 = push_write c x h1 q; q2 = push_write c y h2 q1
     in push_publish h2 (push_publish h1 q2))"

text \<open>C27: The queue is for one producer only: when two overlap, both find room and both
  report success, but only one of the two items is in the queue afterwards.\<close>

theorem overlapping_producers_lose_an_item:
  assumes "queue_inv c q" "length (contents c q) < unat c"
  shows "fst (try_push c x q) \<and> fst (try_push c y q)
    \<and> contents c (overlapping_pushes c x y q) = contents c q @ [y]"
proof (intro conjI)
  show "fst (try_push c x q)" "fst (try_push c y q)"
    using ring.push_room [OF assms] by blast+
  have "overlapping_pushes c x y q = snd (try_push c y q)"
    using assms(2) by (simp add: overlapping_pushes_def try_push_pieces push_publish_def
        push_write_def Let_def size_approx_def word_le_nat_alt)
  then show "contents c (overlapping_pushes c x y q) = contents c q @ [y]"
    using ring.push_room [OF assms] by simp
qed

theorem overlapping_producers_lose_an_item_witness:
  "contents 2 (overlapping_pushes 2 8 9 wrapping_queue) = [7, 9]"
proof -
  have "length (contents 2 wrapping_queue) < unat (2 :: size_t)"
    by (simp add: wrapping_queue_eval del: length_contents)
  from overlapping_producers_lose_an_item [OF wrapping_queue_eval(1) this, of 8 9]
  show ?thesis by (simp add: wrapping_queue_eval)
qed

end
