(* ===== verification/Spec2Isabelle.thy ===== *)
theory Spec2Isabelle
  imports Application Simulator_Main Log_Replay Book_Print Spsc_Threads
begin

text \<open>
  A verification library for a financial exchange written in C++: a limit order book with a matching
  engine, the exchange process around it (connections, a binary wire protocol, a lock-free
  queue, an event logger) and a market simulator that trades on it over the network.

  \<^bold>\<open>How the parts interact.\<close>  A client sends frames over a socket.  Its \<open>Connection\<close> cuts the byte stream
  into messages and pushes them to the exchange's inbox, a single-producer single-consumer queue.
  The engine task of \<open>Exchange\<close> pops the messages and calls the \<open>OrderBook\<close>, which matches orders
  and calls back; the callbacks queue private answers to the clients concerned, number and
  broadcast the public feed, and hand each feed message to the \<open>BinaryEventLogger\<close>.  The connections
  write the queued messages in batches.  A subscriber, such as the \<open>MarketSimulator\<close>, rebuilds the
  book from a snapshot and the feed.

  \<^bold>\<open>Theories and sources\<close> (paths under src/ of the repository):

  \<^item> \<open>Prelude\<close>: types.hpp; the integer types, constants and enumerations, facts on words.
    \<open>Decimal\<close>, \<open>Clock\<close>, \<open>Logging\<close>: numbers as text, time.cpp and the time stamps of file names, logging.hpp.
  \<^item> \<open>Order_Pool\<close>: order.hpp; the arena of orders with its free list.
  \<^item> \<open>Order_Book_Side\<close>: order_book.cpp, order_book.hpp, pricelevel.hpp; price levels as linked
    lists in the pool, adding orders, the matching loops of one side.
  \<^item> \<open>Side_Rep\<close>, \<open>Side_Ops\<close>, \<open>Matching\<close>, \<open>Match_Loop\<close>: the representation relation between the linked
    structure and lists of orders, that each operation keeps it, and that matching is the
    list-level specification \<open>spec_match\<close>.
  \<^item> \<open>Order_Book\<close>: order_book.cpp; the requests submit, cancel and amend and the depth snapshot.
    \<open>Book_Rep\<close>, \<open>Book_Submit\<close>, \<open>Book_Requests\<close>, \<open>Book_Correct\<close>: invariant, refinement of each request.
    \<open>Book_Run\<close>, \<open>Book_Properties\<close>, \<open>Book_Snapshot\<close>: the book as a state machine and its properties.
    \<open>Book_Debug\<close>: the debug build, with the checks and assertions where the code makes them.
    \<open>Book_Print\<close>: print_book and the debug output.  \<open>Book_Events\<close>: the level updates are in the price range.
  \<^item> \<open>Spsc_Queue\<close>, \<open>Spsc_Threads\<close>: spsc_queue.hpp; the ring buffer as a bounded queue (interface
    \<open>bounded_fifo\<close>) and its atomic accesses interleaved.
  \<^item> \<open>Byte_Codec\<close>, \<open>Protocol\<close>, \<open>Messages\<close>: protocol.hpp; packed little-endian structs as codecs
    (interface \<open>faithful_codec\<close>), the payloads, the writer and the parsers.
  \<^item> \<open>Connectivity\<close>, \<open>Connectivity_Read\<close>, \<open>Connectivity_Write\<close>: connectivity.hpp and connectivity.cpp;
    the connection's handlers, the frame parser, the batched writer with its wake-ups.
  \<^item> \<open>Exchange\<close>, \<open>Exchange_Callbacks\<close>, \<open>Exchange_Engine\<close>, \<open>Exchange_Wiring\<close>: exchange.hpp, exchange.cpp and
    callbacks.hpp; dispatching, the callbacks, the engine task, subscriptions, connection pointers.
  \<^item> \<open>Binary_Logger\<close>: binary_logger.hpp; queues, staging buffers, files, the writer thread.
    \<open>Log_Replay\<close>: the book, the callbacks, the codecs and the logger composed.
  \<^item> \<open>Application\<close>: application.hpp, application.cpp and apps/exchange/main.cpp; the command line, the threads of the
    process, start, stop on a signal and wait as the step relation \<open>app_step\<close>.
  \<^item> The market simulator, under apps/market_simulator: \<open>Rng\<close>, \<open>Pcg32\<close>: rng.hpp and pcg32.hpp, the interface of
    the random source (\<open>random_source\<close>) and the generator.  \<open>Shadow_Order_Book\<close>: shadow_order_book.hpp.
    \<open>Simulation_State\<close>: state.hpp, the statistics.  \<open>Market_Dynamics\<close>: market_dynamics.hpp, the price
    model.  \<open>Order_Manager\<close>: order_manager.hpp.  \<open>Market_Simulator\<close>: simulator.hpp, the event loop.
    \<open>Simulator_Main\<close>: main.cpp.
  \<^item> This theory: the simulator on the exchange.

  \<^bold>\<open>Conventions.\<close>  A struct or class is a record, a method a function on it that returns the new state.
  Identifiers and volumes are 32-bit words and wrap as in C++; prices are integers, whose signed
  64-bit range is a side condition where they are encoded.  Virtual calls (\<open>BookEvent\<close>) and requests to
  Boost.Asio, timers and callbacks (\<open>IoAction\<close>, \<open>OmAction\<close>, \<open>SimAction\<close>) are lists of actions in the
  order the code issues them; the tasks it posts are functions of their own, which the step relations
  run later.  Clock readings are arguments.  An error is a value: an error event of the book, \<open>None\<close> or \<open>Inl\<close>.

  \<^bold>\<open>What is shown.\<close>
  \<^item> The book: every request returns, keeps the book well formed and refines a specification on
    lists in price-time priority; no volume is created or lost; in orderly runs the book stays sorted and
    uncrossed; the level updates sent mirror the book; the lookup tables name the resting orders.  The debug build
    does the same and none of its assertions fails; its checks decide the invariants; printing shows the book.
  \<^item> The queue: a bounded first-in first-out queue for every position of its wrapping indices, also when
    producer and consumer interleave at their atomic accesses; with two producers it is not.
  \<^item> The wire: every payload reads back as it was written; how a byte stream is cut into reads does not
    matter; accepted messages reach the socket in order, completely, and no wake-up is lost.
  \<^item> The exchange: each client is told exactly what concerns it, the feed is numbered without gaps, the
    engine works off its inbox in order, pointers to connections do not dangle.
  \<^item> The logger: bytes are neither lost nor mixed up, and shutting down writes everything; the file of the level
    updates, read back and replayed, gives the volumes of the book.
  \<^item> The processes: the command line always gives a valid port and number of threads; the exchange process
    cannot end in order, because the thread that handles the signal joins itself; the clock counts nanoseconds.
  \<^item> The simulator: the copy of the book follows the exchange's, the expiry timer cancels exactly the due
    orders, messages are applied in order, backpressure is respected; the random number generator has
    full period and equidistributed outputs, and its draws are bounded; the statistics are the moments and
    averages they are named after; every order decided on is valid and the exchange carries it out; the
    intensities stay within bounds.

  \<^bold>\<open>Bounds and termination.\<close>  The matching loops, the growth of the read accumulator and the writer's
  loop may a priori run forever; they are \<open>partial_function (option)\<close> and are proved to return
  from every well-formed state.  Loops with a counter in the code recurse on it (the engine's budget of
  10000 messages, 2000 messages per drain, batches of 256 log items).  Order identifiers are not reused within
  \<open>2 ^ 32\<close> orders (\<open>ids_left\<close>), because the tables of the book rely on it.  Walking a level for a check or
  for printing is \<open>partial_function (option)\<close> too; \<open>work_left\<close> bounds what is left of a process after the signal.

  \<^bold>\<open>Assumptions.\<close>  The host is little-endian, as the code assumes.  Atomic loads and stores with acquire and
  release order are interleaved sequentially at each access.  Strands run one task at a time.  A thread that joins
  itself gets an exception, as the standard says, and \<open>reserve\<close> gives at least the capacity asked for.  Files behave
  as documented where a theorem says so (\<open>writes_all\<close>).  A \<open>double\<close> is a real number and \<open>std::log\<close>,
  \<open>std::exp\<close>, \<open>std::sqrt\<close> and \<open>std::tanh\<close> are the functions of the reals: rounding is not modelled, and the
  theorems on the statistics show that no argument leaves the domain where the two agree.
  The Poisson draw of the standard library is an argument.

  \<^bold>\<open>Not modelled.\<close>  The texts of the log records (their severities and the filter are), the sinks of Boost.Log, the exception type
  of error.hpp, which nothing throws, the commented-out metrics of the simulator, \<open>uniform_int\<close> of its generator,
  which nothing calls, and the Python tools.  Exceptions thrown inside handlers are not modelled except
  the one of \<open>join\<close>.
\<close>

section \<open>The simulator on the exchange\<close>

lemma copy_quotes_ok:
  assumes good: "good_book b" and nz: "\<And>sd. no_zeros (shadow_levels sh sd)"
    and exact: "\<And>sd p. shadow_volume_at sh sd p = volumes_of b sd p"
  shows "quotes_ok (update_price_state sh last_p ps)"
proof -
  obtain L F where rep: "book_rep b L F" using good_bookD [OF good] by (auto simp: wf_book_def)
  note q = exact_copy_quotes [OF good nz exact] and ok = orders_price_ok [OF rep]
  have "uncrossed b" using good_bookD [OF good] by simp
  then show ?thesis
    using ok [of _ True] ok [of _ False]
    by (auto simp: quotes_ok_def update_price_state_def q price_ok_def uncrossed_def split: list.splits)
qed


definition subscribed :: "pcg32 MarketSimulator" where
  "subscribed =
    (MarketSimulator_init (Connection_init 0 (new_queue OUTBOUND_Q_CAP (outbound_message 0 0 []))) (inbound_message 0 (0, []))
       [1, 5, 10] \<lparr>sim_time = 0, time_since_event = 0\<rparr> no_quotes no_liquidity (seed_rng 0 0))
     \<lparr>shadow_order_book := on_order_book_snapshot ShadowOrderBook_init (snapshot_of empty_book 0)\<rparr>"


end
